(* ===== verification/Prelude.thy ===== *)
theory Prelude
  imports Main "HOL-Library.Multiset" "HOL-Library.Word" "HOL-Library.Code_Target_Nat"
begin

text \<open>
  The part every theory of the development shares: the names of the base types, the
  outcome of a Go function call that may panic, 64-bit wrap-around on integers, and the
  \<open>named_theorems\<close> collections the component proofs draw on.

  Go values are modelled as follows throughout: a \<^verbatim>\<open>string\<close> and a \<^verbatim>\<open>[]byte\<close> are both
  lists of bytes (\<open>string\<close>, that is \<open>char list\<close>, one \<open>char\<close> per byte); an
  \<^verbatim>\<open>int\<close> or \<^verbatim>\<open>int64\<close> is an \<open>int\<close> whose range is written out where the code can leave it;
  a \<^verbatim>\<open>map[string]T\<close> is a partial function.
\<close>

named_theorems inv_intros \<open>introduction rules for the invariants of the components\<close>
named_theorems frame_simps \<open>what an operation leaves unchanged\<close>
named_theorems step_simps \<open>one-step characterisations of operations\<close>

type_synonym bytes = string

abbreviation byte :: "char \<Rightarrow> nat" where
  "byte c \<equiv> of_char c"

definition is_digit :: "char \<Rightarrow> bool" where
  "is_digit c \<longleftrightarrow> 48 \<le> byte c \<and> byte c \<le> 57"

definition digit_val :: "char \<Rightarrow> nat" where
  "digit_val c = byte c - 48"

section \<open>Calls that may panic\<close>

text \<open>
  A Go call either returns or panics. A panic value is kept as the text \<^verbatim>\<open>%v\<close> prints
  for it, which is all the program ever looks at.
\<close>

datatype 'a call = Ret 'a | Panic bytes

fun returns :: "'a call \<Rightarrow> bool" where
  "returns (Ret _) = True"
| "returns (Panic _) = False"

lemma returns_iff: "returns c \<longleftrightarrow> (\<exists>x. c = Ret x)"
  by (cases c) auto

lemma not_returns_iff: "\<not> returns c \<longleftrightarrow> (\<exists>m. c = Panic m)"
  by (cases c) auto

text \<open>The first error of a sequence of checks, as successive \<^verbatim>\<open>return\<close> statements give it.\<close>

fun first_error :: "'e option list \<Rightarrow> 'e option" where
  "first_error [] = None"
| "first_error (None # es) = first_error es"
| "first_error (Some e # es) = Some e"

lemma first_error_None: "first_error es = None \<longleftrightarrow> (\<forall>e \<in> set es. e = None)"
  by (induction es rule: first_error.induct) auto

section \<open>Integers of 64 bits\<close>

definition int64_min :: int where "int64_min = - (2 ^ 63)"
definition int64_max :: int where "int64_max = 2 ^ 63 - 1"

definition in_int64 :: "int \<Rightarrow> bool" where
  "in_int64 x \<longleftrightarrow> int64_min \<le> x \<and> x \<le> int64_max"

text \<open>The value an \<^verbatim>\<open>int64\<close> operation leaves behind: two's complement wrap-around.\<close>

definition wrap64 :: "int \<Rightarrow> int" where
  "wrap64 x = sint (word_of_int x :: 64 word)"

lemma wrap64_in: "in_int64 (wrap64 x)"
  using sint_range_size [of "word_of_int x :: 64 word"]
  by (auto simp: in_int64_def int64_min_def int64_max_def wrap64_def word_size)

lemma wrap64_id: "in_int64 x \<Longrightarrow> wrap64 x = x"
  by (simp add: in_int64_def int64_min_def int64_max_def wrap64_def signed_take_bit_int_eq_self
      sint_sbintrunc')

text \<open>Go's integer division truncates towards zero; \<open>go_mod\<close> is its remainder.\<close>

definition go_div :: "int \<Rightarrow> int \<Rightarrow> int" where
  "go_div a b = sgn a * sgn b * (\<bar>a\<bar> div \<bar>b\<bar>)"

definition go_mod :: "int \<Rightarrow> int \<Rightarrow> int" where
  "go_mod a b = a - b * go_div a b"

lemma go_div_nonneg: "0 \<le> a \<Longrightarrow> 0 < b \<Longrightarrow> go_div a b = a div b"
  by (cases "a = 0") (simp_all add: go_div_def)

lemma go_mod_nonneg: "0 \<le> a \<Longrightarrow> 0 < b \<Longrightarrow> go_mod a b = a mod b"
  by (simp add: go_mod_def go_div_nonneg minus_mult_div_eq_mod)

section \<open>Lists and multisets\<close>

lemma mset_tl_hd: "xs \<noteq> [] \<Longrightarrow> add_mset (hd xs) (mset (tl xs)) = mset xs"
  by (cases xs) auto

lemma length_takeWhile_dropWhile:
  "length (takeWhile P xs) + length (dropWhile P xs) = length xs"
  by (metis length_append takeWhile_dropWhile_id)

lemma sum_upd_nat:
  fixes f :: "'a \<Rightarrow> nat"
  assumes "finite A" and "a \<in> A"
  shows "sum (f(a := v)) A + f a = sum f A + v"
  using assms by (simp add: sum.remove)

lemma image_mset_update_nth:
  assumes "i < length xs"
  shows "mset (xs[i := y]) + {#xs ! i#} = mset xs + {#y#}"
  using assms by (simp add: mset_update)

lemma mset_concat_update:
  "i < length xs \<Longrightarrow>
   mset (concat (map f (xs[i := y]))) + mset (f (xs ! i)) = mset (concat (map f xs)) + mset (f y)"
proof (induction xs arbitrary: i)
  case (Cons x xs)
  then show ?case by (cases i) (auto simp: ac_simps)
qed simp

lemma length_filter_update:
  "i < length xs \<Longrightarrow>
   length (filter P (xs[i := y])) + (if P (xs ! i) then 1 else 0) =
   length (filter P xs) + (if P y then 1 else 0)"
proof (induction xs arbitrary: i)
  case (Cons x xs)
  then show ?case by (cases i) auto
qed simp

lemma sum_list_update_nat:
  fixes f :: "'a \<Rightarrow> nat"
  shows "i < length xs \<Longrightarrow>
    sum_list (map f (xs[i := y])) + f (xs ! i) = sum_list (map f xs) + f y"
proof (induction xs arbitrary: i)
  case (Cons x xs)
  then show ?case by (cases i) auto
qed simp

text \<open>Composing two balances of what came in and what went out.\<close>

lemma balance_trans:
  fixes x y z :: "'a :: comm_monoid_add"
  assumes "x + s1 = y + a1" and "y + s = z + a"
  shows "x + (s + s1) = z + (a + a1)"
proof -
  have "x + (s + s1) = (x + s1) + s" by (simp add: ac_simps)
  also have "\<dots> = (y + a1) + s" by (simp only: assms(1))
  also have "\<dots> = (y + s) + a1" by (simp add: ac_simps)
  also have "\<dots> = (z + a) + a1" by (simp only: assms(2))
  also have "\<dots> = z + (a + a1)" by (simp add: ac_simps)
  finally show ?thesis .
qed

end
