(* ===== verification/Gofmt.thy ===== *)
theory Gofmt
  imports Prelude
begin

text \<open>
  Error values and the text \<^verbatim>\<open>fmt\<close> builds. A formatted text is the list of its pieces, one
  per literal stretch or verb of the format string: the piece keeps the argument of the verb,
  so two texts are equal exactly when the format and the arguments agree, and no rendering
  of the standard library (quoting of non-ASCII runes, decimal digits) has to be invented.

  An error is the value the code builds: \<open>New_error\<close> for \<^verbatim>\<open>errors.New\<close>, \<open>Errorf\<close>
  for \<^verbatim>\<open>fmt.Errorf\<close> with the error it wraps by \<^verbatim>\<open>%w\<close> if it does, \<open>Fiber_error\<close>
  for \<^verbatim>\<open>fiber.NewError\<close>, \<open>Pipeline_error\<close> for the type of package \<^verbatim>\<open>xlerr\<close>, and
  \<open>Lib_error\<close> for an error that code outside the repository returned.
\<close>

datatype lib_error =
    Json_syntax                \<comment> \<open>\<^verbatim>\<open>*json.SyntaxError\<close>\<close>
  | Json_unmarshal_type        \<comment> \<open>\<^verbatim>\<open>*json.UnmarshalTypeError\<close>\<close>
  | Json_marshaler             \<comment> \<open>\<^verbatim>\<open>*json.MarshalerError\<close>\<close>
  | Foreign bytes              \<comment> \<open>an error of the operating system or a package, by its text\<close>

datatype piece =
    Lit bytes                  \<comment> \<open>literal text, or a string argument printed by \<^verbatim>\<open>%s\<close>\<close>
  | Quoted bytes               \<comment> \<open>a string argument printed by \<^verbatim>\<open>%q\<close>\<close>
  | Dec int                    \<comment> \<open>an integer argument printed by \<^verbatim>\<open>%d\<close>\<close>
  | Duration int               \<comment> \<open>a \<^verbatim>\<open>time.Duration\<close> printed by \<^verbatim>\<open>%v\<close>\<close>
  | Lib_text lib_error         \<comment> \<open>the text of a foreign error printed by \<^verbatim>\<open>%v\<close> or \<^verbatim>\<open>%w\<close>\<close>

type_synonym msg = "piece list"

datatype error =
    New_error bytes
  | Errorf msg "error option"
  | Fiber_error int msg
  | Lib_error lib_error
  | Pipeline_error (pe_stage: bytes) (pe_code: bytes) (pe_source: bytes) (pe_err: "error option")

text \<open>\<^verbatim>\<open>%v\<close> of a nil error prints \<^verbatim>\<open><nil>\<close>.\<close>

abbreviation nil_text :: msg where
  "nil_text \<equiv> [Lit ''<nil>'']"

text \<open>The pieces of a text that name a string argument, used to state what a text mentions.\<close>

definition mentions :: "msg \<Rightarrow> bytes \<Rightarrow> bool" where
  "mentions m s \<longleftrightarrow> Quoted s \<in> set m"

lemma mentions_append [simp]: "mentions (m @ n) s \<longleftrightarrow> mentions m s \<or> mentions n s"
  by (auto simp: mentions_def)

end
