(* ===== verification/Xlerr.thy ===== *)
theory Xlerr
  imports Gofmt
begin

text \<open>
  Package \<^verbatim>\<open>internal/xlerr\<close>: the stages and codes of the pipeline, the error type
  \<^verbatim>\<open>PipelineError\<close> (the constructor \<open>Pipeline_error\<close> of \<open>error\<close>), its text,
  \<^verbatim>\<open>Unwrap\<close>, \<^verbatim>\<open>New\<close> and the nil-safe \<^verbatim>\<open>Wrap\<close>. An \<^verbatim>\<open>error\<close> interface value
  is an \<open>error option\<close>, with \<open>None\<close> for nil.
\<close>

section \<open>Stages and codes\<close>

type_synonym Stage = bytes
type_synonym Code = bytes

definition StageIngest :: Stage where "StageIngest = ''ingest''"
definition StageValidation :: Stage where "StageValidation = ''validation''"
definition StageDispatch :: Stage where "StageDispatch = ''dispatch''"
definition StageDLQ :: Stage where "StageDLQ = ''dlq''"

definition CodeValidation :: Code where "CodeValidation = ''validation_error''"
definition CodeTranslation :: Code where "CodeTranslation = ''translation_error''"
definition CodeBufferFull :: Code where "CodeBufferFull = ''buffer_full''"
definition CodePanic :: Code where "CodePanic = ''panic''"
definition CodeDLQWrite :: Code where "CodeDLQWrite = ''dlq_write_error''"
definition CodeSerialization :: Code where "CodeSerialization = ''serialization_error''"

lemmas stage_defs = StageIngest_def StageValidation_def StageDispatch_def StageDLQ_def
lemmas code_defs = CodeValidation_def CodeTranslation_def CodeBufferFull_def CodePanic_def
  CodeDLQWrite_def CodeSerialization_def

section \<open>Texts of errors\<close>

text \<open>
  \<open>err_text e\<close> is \<^verbatim>\<open>e.Error()\<close>. The case of \<open>Pipeline_error\<close> is the method
  \<^verbatim>\<open>(*PipelineError).Error\<close>; the others are the texts their constructors fix.
\<close>

definition pipeline_text :: "bytes \<Rightarrow> bytes \<Rightarrow> bytes \<Rightarrow> msg \<Rightarrow> msg" where
  "pipeline_text stage cod source inner =
     (if source \<noteq> []
      then [Lit ''['', Lit stage, Lit ''/'', Lit cod, Lit ''] source='', Quoted source,
            Lit '': ''] @ inner
      else [Lit ''['', Lit stage, Lit ''/'', Lit cod, Lit '']: ''] @ inner)"

fun err_text :: "error \<Rightarrow> msg" where
  "err_text (New_error s) = [Lit s]"
| "err_text (Errorf m w) = m"
| "err_text (Fiber_error c m) = m"
| "err_text (Lib_error l) = [Lib_text l]"
| "err_text (Pipeline_error stage cod source err) =
     pipeline_text stage cod source (case err of None \<Rightarrow> nil_text | Some e \<Rightarrow> err_text e)"

text \<open>\<open>errorf m e\<close> is \<^verbatim>\<open>fmt.Errorf\<close> whose format ends in \<^verbatim>\<open>%w\<close>.\<close>

definition errorf_w :: "msg \<Rightarrow> error \<Rightarrow> error" where
  "errorf_w m e = Errorf (m @ err_text e) (Some e)"

section \<open>Unwrapping\<close>

fun err_unwrap :: "error \<Rightarrow> error option" where
  "err_unwrap (Errorf m w) = w"
| "err_unwrap (Pipeline_error stage cod source err) = err"
| "err_unwrap _ = None"

text \<open>
  The chain \<^verbatim>\<open>errors.Is\<close> and \<^verbatim>\<open>errors.As\<close> walk: the error, then what it unwraps to, and
  so on until nil.
\<close>

fun err_chain :: "error \<Rightarrow> error list" where
  "err_chain (Errorf m w) = Errorf m w # (case w of None \<Rightarrow> [] | Some e \<Rightarrow> err_chain e)"
| "err_chain (Pipeline_error stage cod source err) =
     Pipeline_error stage cod source err # (case err of None \<Rightarrow> [] | Some e \<Rightarrow> err_chain e)"
| "err_chain e = [e]"

definition errors_Is :: "error option \<Rightarrow> error \<Rightarrow> bool" where
  "errors_Is e target \<longleftrightarrow> (case e of None \<Rightarrow> False | Some e' \<Rightarrow> target \<in> set (err_chain e'))"

text \<open>An error made of another by \<^verbatim>\<open>fmt.Errorf\<close>: its text ends in that of the cause, which it unwraps to.\<close>

definition wraps :: "error \<Rightarrow> msg \<Rightarrow> error \<Rightarrow> bool" where
  "wraps e m cause \<longleftrightarrow> err_text e = m @ err_text cause \<and> err_unwrap e = Some cause"

lemma wraps_errorf_w [simp]: "wraps (errorf_w m cause) m cause"
  by (simp add: wraps_def errorf_w_def)

fun is_fiber :: "error \<Rightarrow> bool" where
  "is_fiber (Fiber_error _ _) = True"
| "is_fiber _ = False"

definition as_fiber :: "error \<Rightarrow> error option" where
  "as_fiber e = find is_fiber (err_chain e)"

section \<open>Construction\<close>

definition xl_New :: "bytes \<Rightarrow> bytes \<Rightarrow> bytes \<Rightarrow> error option \<Rightarrow> error" where
  "xl_New stage cod source err = Pipeline_error stage cod source err"

definition xl_Wrap :: "error option \<Rightarrow> bytes \<Rightarrow> bytes \<Rightarrow> bytes \<Rightarrow> error option" where
  "xl_Wrap err stage cod source =
     (case err of None \<Rightarrow> None | Some e \<Rightarrow> Some (xl_New stage cod source (Some e)))"

section \<open>Lemmas\<close>

lemma err_chain_head: "err_chain e = e # (case err_unwrap e of None \<Rightarrow> [] | Some e' \<Rightarrow> err_chain e')"
  by (cases e) auto

lemma err_chain_self [simp]: "e \<in> set (err_chain e)"
  by (subst err_chain_head) simp

lemma err_chain_unwrap:
  "err_unwrap e = Some e' \<Longrightarrow> set (err_chain e') \<subseteq> set (err_chain e)"
  by (subst (2) err_chain_head) auto

lemma err_text_New [simp]:
  "err_text (xl_New stage cod source (Some e)) = pipeline_text stage cod source (err_text e)"
  by (simp add: xl_New_def)

lemma pipeline_text_mentions: "source \<noteq> [] \<Longrightarrow> mentions (pipeline_text stage cod source m) source"
  by (simp add: pipeline_text_def mentions_def)

lemma pipeline_text_inner: "\<exists>pre. pipeline_text stage cod source m = pre @ m"
  by (auto simp: pipeline_text_def)

text \<open>
  \<^verbatim>\<open>Wrap\<close> is nil-safe and transparent: it returns nil exactly for a nil error, and
  otherwise a \<^verbatim>\<open>PipelineError\<close> through which \<^verbatim>\<open>errors.Is\<close> finds exactly the wrapper
  itself and whatever it finds in the error that was wrapped.
\<close>

lemma wrap_transparent:
  "(xl_Wrap err stage cod source = None \<longleftrightarrow> err = None) \<and>
   (errors_Is (xl_Wrap err stage cod source) target \<longleftrightarrow>
      errors_Is err target \<or> Some target = xl_Wrap err stage cod source)"
  by (cases err) (auto simp: xl_Wrap_def xl_New_def errors_Is_def)

end
