(* ===== verification/Metrics.thy ===== *)
theory Metrics
  imports Gofmt
begin

text \<open>
  Package \<^verbatim>\<open>internal/metrics\<close>: the \<^verbatim>\<open>Provider\<close> interface, its two implementations and the
  package-level functions the pipeline calls. The Prometheus client is a third-party package;
  of it the model keeps what the code relies on: a counter child per label tuple, \<^verbatim>\<open>Inc\<close>
  and \<^verbatim>\<open>Set\<close>, and the documented panic of \<^verbatim>\<open>WithLabelValues\<close> on label values
  the client refuses. Which values it refuses is a parameter, the function \<open>label_error\<close>
  carried by the provider, which gives the text of the panic. \<^verbatim>\<open>MustRegister\<close> is a parameter
  too; what its documentation promises is \<open>registry_documented\<close>, under which the constructor
  never panics. Of an HTTP handler the model keeps which one it is and the registry it exposes; the
  text it answers with is the client's.

  The variable \<^verbatim>\<open>active\<close> and the other process-wide state a pipeline stage touches (the clock,
  the log) form the record \<open>env\<close>, which the stages thread through.
\<close>

section \<open>Providers\<close>

text \<open>Collectors by what they are created with: name, help text and label names.\<close>

datatype collector =
    CounterVec bytes bytes "bytes list"
  | Counter bytes bytes
  | Gauge bytes bytes
  | GoCollector
  | ProcessCollector

record counters =
  metrics_reg :: "collector list"
  eventsIngested :: "bytes \<Rightarrow> nat"
  eventsRejected :: "bytes \<times> bytes \<Rightarrow> nat"
  dlqEnqueued :: nat
  batcherFlushes :: nat
  workerPoolDepth :: int
  rateLimited :: "bytes \<Rightarrow> nat"
  panicsRecovered :: nat

datatype provider =
    nopProvider
  | PrometheusProvider (label_error: "bytes list \<Rightarrow> bytes option") (counters_of: counters)

definition NewNopProvider :: provider where
  "NewNopProvider = nopProvider"

text \<open>The collectors the constructor registers, in order, and the provider it returns.\<close>

definition xyllo_collectors :: "collector list" where
  "xyllo_collectors =
     [CounterVec ''xyllo_events_ingested_total'' ''Total number of events received by the ingestor.'' [''source''],
      CounterVec ''xyllo_events_rejected_total''
        ''Total number of events rejected by the validation middleware.'' [''source'', ''reason''],
      Counter ''xyllo_dlq_enqueued_total'' ''Total number of payloads routed to the Dead Letter Queue.'',
      Counter ''xyllo_batcher_flushes_total'' ''Total number of batch flushes sent to the upstream exporter.'',
      Gauge ''xyllo_worker_pool_buffer_depth'' ''Current number of payloads queued in the dispatcher buffer.'',
      CounterVec ''xyllo_rate_limited_requests_total''
        ''Total number of requests dropped by the per-source rate limiter.'' [''source''],
      Counter ''xyllo_worker_panics_recovered_total''
        ''Total number of panics recovered by the dispatcher worker pool.'',
      GoCollector, ProcessCollector]"

definition new_provider :: "(bytes list \<Rightarrow> bytes option) \<Rightarrow> collector list \<Rightarrow> provider" where
  "new_provider refuse registry = PrometheusProvider refuse
     \<lparr>metrics_reg = registry, eventsIngested = (\<lambda>_. 0), eventsRejected = (\<lambda>_. 0), dlqEnqueued = 0, batcherFlushes = 0,
      workerPoolDepth = 0, rateLimited = (\<lambda>_. 0), panicsRecovered = 0\<rparr>"

text \<open>\<open>must_register registry cs\<close> is the registry with \<open>cs\<close> added, or the panic.\<close>

definition NewPrometheusProvider ::
  "(collector list \<Rightarrow> collector list \<Rightarrow> collector list call) \<Rightarrow> (bytes list \<Rightarrow> bytes option) \<Rightarrow>
   provider call" where
  "NewPrometheusProvider must_register refuse =
     (case must_register [] xyllo_collectors of
        Panic m \<Rightarrow> Panic m
      | Ret registry \<Rightarrow> Ret (new_provider refuse registry))"

text \<open>Every recording method of the no-op provider has an empty body.\<close>

definition nop_record :: "provider call" where
  [simp]: "nop_record = Ret nopProvider"

text \<open>
  \<^verbatim>\<open>vec.WithLabelValues(vals...)\<close> followed by an update of the child it selects: the update is
  reached only when the client accepts the values.
\<close>

definition with_label_values ::
  "(bytes list \<Rightarrow> bytes option) \<Rightarrow> bytes list \<Rightarrow> counters \<Rightarrow> provider call" where
  "with_label_values refuse vals c' =
     (case refuse vals of Some m \<Rightarrow> Panic m | None \<Rightarrow> Ret (PrometheusProvider refuse c'))"

fun p_RecordEventIngested :: "provider \<Rightarrow> bytes \<Rightarrow> provider call" where
  "p_RecordEventIngested nopProvider source = nop_record"
| "p_RecordEventIngested (PrometheusProvider refuse c) source =
     with_label_values refuse [source]
       (c\<lparr>eventsIngested := (eventsIngested c)(source := Suc (eventsIngested c source))\<rparr>)"

fun p_RecordEventRejected :: "provider \<Rightarrow> bytes \<Rightarrow> bytes \<Rightarrow> provider call" where
  "p_RecordEventRejected nopProvider source reason = nop_record"
| "p_RecordEventRejected (PrometheusProvider refuse c) source reason =
     with_label_values refuse [source, reason]
       (c\<lparr>eventsRejected :=
            (eventsRejected c)((source, reason) := Suc (eventsRejected c (source, reason)))\<rparr>)"

fun p_RecordDLQEnqueued :: "provider \<Rightarrow> provider call" where
  "p_RecordDLQEnqueued nopProvider = nop_record"
| "p_RecordDLQEnqueued (PrometheusProvider refuse c) =
     Ret (PrometheusProvider refuse (c\<lparr>dlqEnqueued := Suc (dlqEnqueued c)\<rparr>))"

fun p_RecordBatcherFlush :: "provider \<Rightarrow> provider call" where
  "p_RecordBatcherFlush nopProvider = nop_record"
| "p_RecordBatcherFlush (PrometheusProvider refuse c) =
     Ret (PrometheusProvider refuse (c\<lparr>batcherFlushes := Suc (batcherFlushes c)\<rparr>))"

fun p_ObserveWorkerPoolDepth :: "provider \<Rightarrow> int \<Rightarrow> provider call" where
  "p_ObserveWorkerPoolDepth nopProvider n = nop_record"
| "p_ObserveWorkerPoolDepth (PrometheusProvider refuse c) n =
     Ret (PrometheusProvider refuse (c\<lparr>workerPoolDepth := n\<rparr>))"

fun p_RecordRateLimited :: "provider \<Rightarrow> bytes \<Rightarrow> provider call" where
  "p_RecordRateLimited nopProvider source = nop_record"
| "p_RecordRateLimited (PrometheusProvider refuse c) source =
     with_label_values refuse [source]
       (c\<lparr>rateLimited := (rateLimited c)(source := Suc (rateLimited c source))\<rparr>)"

fun p_RecordPanicRecovered :: "provider \<Rightarrow> provider call" where
  "p_RecordPanicRecovered nopProvider = nop_record"
| "p_RecordPanicRecovered (PrometheusProvider refuse c) =
     Ret (PrometheusProvider refuse (c\<lparr>panicsRecovered := Suc (panicsRecovered c)\<rparr>))"

text \<open>The HTTP handler of a provider: \<^verbatim>\<open>http.NotFoundHandler()\<close>, or one over its registry.\<close>

datatype http_handler = NotFoundHandler | HandlerFor "collector list"

fun p_Handler :: "provider \<Rightarrow> http_handler" where
  "p_Handler nopProvider = NotFoundHandler"
| "p_Handler (PrometheusProvider refuse c) = HandlerFor (metrics_reg c)"

section \<open>The package-level functions\<close>

record env =
  active :: provider
  clock :: int               \<comment> \<open>the monotonic clock, in nanoseconds\<close>
  log_lines :: "msg list"    \<comment> \<open>what was printed, oldest first\<close>

definition SetProvider :: "provider \<Rightarrow> 'z env_scheme \<Rightarrow> 'z env_scheme" where
  "SetProvider p s = s\<lparr>active := p\<rparr>"

definition log_Printf :: "msg \<Rightarrow> 'z env_scheme \<Rightarrow> 'z env_scheme" where
  "log_Printf m s = s\<lparr>log_lines := log_lines s @ [m]\<rparr>"

text \<open>A call of the active provider leaves the environment unchanged when it panics.\<close>

definition on_active :: "(provider \<Rightarrow> provider call) \<Rightarrow> 'z env_scheme \<Rightarrow> unit call \<times> 'z env_scheme" where
  "on_active f s = (case f (active s) of Ret p \<Rightarrow> (Ret (), s\<lparr>active := p\<rparr>) | Panic m \<Rightarrow> (Panic m, s))"

definition RecordEventIngested :: "bytes \<Rightarrow> 'z env_scheme \<Rightarrow> unit call \<times> 'z env_scheme" where
  "RecordEventIngested source = on_active (\<lambda>p. p_RecordEventIngested p source)"

definition RecordEventRejected :: "bytes \<Rightarrow> bytes \<Rightarrow> 'z env_scheme \<Rightarrow> unit call \<times> 'z env_scheme" where
  "RecordEventRejected source reason = on_active (\<lambda>p. p_RecordEventRejected p source reason)"

definition RecordDLQEnqueued :: "'z env_scheme \<Rightarrow> unit call \<times> 'z env_scheme" where
  "RecordDLQEnqueued = on_active p_RecordDLQEnqueued"

definition RecordBatcherFlush :: "'z env_scheme \<Rightarrow> unit call \<times> 'z env_scheme" where
  "RecordBatcherFlush = on_active p_RecordBatcherFlush"

definition ObserveWorkerPoolDepth :: "int \<Rightarrow> 'z env_scheme \<Rightarrow> unit call \<times> 'z env_scheme" where
  "ObserveWorkerPoolDepth n = on_active (\<lambda>p. p_ObserveWorkerPoolDepth p n)"

definition RecordRateLimited :: "bytes \<Rightarrow> 'z env_scheme \<Rightarrow> unit call \<times> 'z env_scheme" where
  "RecordRateLimited source = on_active (\<lambda>p. p_RecordRateLimited p source)"

definition RecordPanicRecovered :: "'z env_scheme \<Rightarrow> unit call \<times> 'z env_scheme" where
  "RecordPanicRecovered = on_active p_RecordPanicRecovered"

definition metrics_Handler :: "'z env_scheme \<Rightarrow> http_handler" where
  "metrics_Handler s = p_Handler (active s)"

lemmas metric_defs = RecordEventIngested_def RecordEventRejected_def RecordDLQEnqueued_def
  RecordBatcherFlush_def ObserveWorkerPoolDepth_def RecordRateLimited_def RecordPanicRecovered_def

section \<open>The interface the pipeline relies on\<close>

text \<open>
  What the stages need of a metrics call: it touches nothing but the active provider. A
  \<open>safe\<close> one never panics either; the recovery path of a worker uses only safe ones.
\<close>

locale metric_call =
  fixes emit :: "'z env_scheme \<Rightarrow> unit call \<times> 'z env_scheme"
  assumes emit_frame: "\<exists>p. snd (emit s) = s\<lparr>active := p\<rparr>"
begin

lemma emit_clock: "clock (snd (emit s)) = clock s"
  using emit_frame [of s] by auto

lemma emit_log: "log_lines (snd (emit s)) = log_lines s"
  using emit_frame [of s] by auto

lemma emit_more: "env.more (snd (emit s)) = env.more s"
  using emit_frame [of s] by auto

end

locale safe_metric_call = metric_call +
  assumes emit_returns: "fst (emit s) = Ret ()"
begin

lemma emit_unfold: "\<exists>p. emit s = (Ret (), s\<lparr>active := p\<rparr>)"
  using emit_frame [of s] emit_returns [of s] by (cases "emit s") auto

end

lemma on_active_frame: "\<exists>p. snd (on_active f s) = s\<lparr>active := p\<rparr>"
proof (cases "f (active s)")
  case (Ret p)
  then show ?thesis by (auto simp: on_active_def)
next
  case (Panic m)
  then have "snd (on_active f s) = s\<lparr>active := active s\<rparr>" by (simp add: on_active_def)
  then show ?thesis by blast
qed

lemma on_active_safe: "(\<And>p. returns (f p)) \<Longrightarrow> fst (on_active f s) = Ret ()"
  by (simp add: on_active_def returns_iff) (metis call.simps(5) fst_conv)

interpretation m_ingested: metric_call "RecordEventIngested source"
  by unfold_locales (simp add: RecordEventIngested_def on_active_frame)

interpretation m_rejected: metric_call "RecordEventRejected source reason"
  by unfold_locales (simp add: RecordEventRejected_def on_active_frame)

interpretation m_limited: metric_call "RecordRateLimited source"
  by unfold_locales (simp add: RecordRateLimited_def on_active_frame)

lemma unlabelled_return:
  "returns (p_RecordDLQEnqueued p)" "returns (p_RecordBatcherFlush p)"
  "returns (p_ObserveWorkerPoolDepth p n)" "returns (p_RecordPanicRecovered p)"
  by (cases p; simp)+

interpretation m_dlq: safe_metric_call RecordDLQEnqueued
  by unfold_locales
    (simp_all add: RecordDLQEnqueued_def on_active_frame on_active_safe unlabelled_return)

interpretation m_flush: safe_metric_call RecordBatcherFlush
  by unfold_locales
    (simp_all add: RecordBatcherFlush_def on_active_frame on_active_safe unlabelled_return)

interpretation m_depth: safe_metric_call "ObserveWorkerPoolDepth n"
  by unfold_locales
    (simp_all add: ObserveWorkerPoolDepth_def on_active_frame on_active_safe unlabelled_return)

interpretation m_panic: safe_metric_call RecordPanicRecovered
  by unfold_locales
    (simp_all add: RecordPanicRecovered_def on_active_frame on_active_safe unlabelled_return)

section \<open>Reading the counters\<close>

text \<open>\<open>metric f s\<close> is the value of a collector, when the active provider keeps any.\<close>

definition metric :: "(counters \<Rightarrow> 'a) \<Rightarrow> 'z env_scheme \<Rightarrow> 'a option" where
  "metric f s = (case active s of nopProvider \<Rightarrow> None | PrometheusProvider _ c \<Rightarrow> Some (f c))"

lemma metric_dlq [simp]:
  "metric dlqEnqueued (snd (RecordDLQEnqueued s)) = map_option Suc (metric dlqEnqueued s)"
  "metric dlqEnqueued (snd (RecordBatcherFlush s)) = metric dlqEnqueued s"
  "metric dlqEnqueued (snd (ObserveWorkerPoolDepth n s)) = metric dlqEnqueued s"
  "metric dlqEnqueued (snd (RecordPanicRecovered s)) = metric dlqEnqueued s"
  by (cases "active s"; simp add: metric_def metric_defs on_active_def)+

lemma metric_dlq_labelled [simp]:
  "metric dlqEnqueued (snd (RecordEventIngested source s)) = metric dlqEnqueued s"
  "metric dlqEnqueued (snd (RecordEventRejected source reason s)) = metric dlqEnqueued s"
  "metric dlqEnqueued (snd (RecordRateLimited source s)) = metric dlqEnqueued s"
  by (cases "active s";
      simp add: metric_def metric_defs on_active_def with_label_values_def split: option.split)+

section \<open>Registration\<close>

text \<open>
  The names of the metrics a collector describes; those of the two collectors of the client are
  parameters. The client documents that registering panics only for an invalid description or for
  one that is registered already.
\<close>

fun metric_names :: "bytes list \<Rightarrow> bytes list \<Rightarrow> collector \<Rightarrow> bytes list" where
  "metric_names go proc (CounterVec n h ls) = [n]"
| "metric_names go proc (Counter n h) = [n]"
| "metric_names go proc (Gauge n h) = [n]"
| "metric_names go proc GoCollector = go"
| "metric_names go proc ProcessCollector = proc"

definition metric_name_start :: "char \<Rightarrow> bool" where
  "metric_name_start c \<longleftrightarrow> c = CHR ''_'' \<or> c = CHR '':'' \<or>
     (97 \<le> byte c \<and> byte c \<le> 122) \<or> (65 \<le> byte c \<and> byte c \<le> 90)"

definition metric_name_ok :: "bytes \<Rightarrow> bool" where
  "metric_name_ok n \<longleftrightarrow> n \<noteq> [] \<and> metric_name_start (hd n) \<and>
     list_all (\<lambda>c. metric_name_start c \<or> (48 \<le> byte c \<and> byte c \<le> 57)) n"

definition registry_documented ::
  "bytes list \<Rightarrow> bytes list \<Rightarrow> (collector list \<Rightarrow> collector list \<Rightarrow> collector list call) \<Rightarrow> bool" where
  "registry_documented go proc must_register \<longleftrightarrow>
     (\<forall>old new. (let names = concat (map (metric_names go proc) (old @ new)) in
        distinct names \<and> list_all metric_name_ok names \<longrightarrow> must_register old new = Ret (old @ new)))"

lemma own_names:
  "concat (map (metric_names go proc) xyllo_collectors) =
     concat (map (metric_names [] []) xyllo_collectors) @ go @ proc"
  by (simp add: xyllo_collectors_def)

lemma own_names_ok:
  "distinct (concat (map (metric_names [] []) xyllo_collectors))"
  "list_all metric_name_ok (concat (map (metric_names [] []) xyllo_collectors))"
  "list_all (\<lambda>n. take 6 n = ''xyllo_'') (concat (map (metric_names [] []) xyllo_collectors))"
  by code_simp+

text \<open>The constructor returns: no metric of the program has the name of another.\<close>

lemma NewPrometheusProvider_returns:
  assumes "registry_documented go proc must_register"
    and "distinct (go @ proc)" and "list_all metric_name_ok (go @ proc)"
    and "list_all (\<lambda>n. take 6 n \<noteq> ''xyllo_'') (go @ proc)"
  shows "NewPrometheusProvider must_register refuse = Ret (new_provider refuse xyllo_collectors)"
proof -
  let ?own = "concat (map (metric_names [] []) xyllo_collectors)"
  have "set ?own \<inter> set (go @ proc) = {}"
    using own_names_ok(3) assms(4) unfolding list_all_iff by blast
  then have "distinct (?own @ go @ proc)" "list_all metric_name_ok (?own @ go @ proc)"
    using own_names_ok(1,2) assms(2,3) by (auto simp only: distinct_append list_all_append)
  then have "must_register [] xyllo_collectors = Ret xyllo_collectors"
    using assms(1) unfolding registry_documented_def Let_def own_names [symmetric]
    by (metis append_Nil)
  then show ?thesis by (simp add: NewPrometheusProvider_def)
qed

end
