(* ===== verification/Float64.thy ===== *)
theory Float64
  imports Complex_Main Prelude
begin

text \<open>
  Go's \<^verbatim>\<open>float64\<close>, for the finite values the rate limiter and the duration parser compute
  with. A value is the rational it stands for; each operation of the code is the exact operation
  on rationals followed by \<open>f64\<close>, the rounding of IEEE 754 binary64 to nearest, ties to even,
  with 53 significant bits and least exponent \<open>- 1074\<close>. Overflow to infinity is left out: the
  lemmas that matter bound the operands far below \<open>2 ^ 1024\<close>.
  The lemmas: \<open>f64\<close> is monotone, fixes exactly the representable values, and subtracting one
  from a representable value between 1 and \<open>2 ^ 53\<close> is exact.
\<close>

section \<open>Binary logarithm\<close>

function nlog2 :: "int \<Rightarrow> nat" where
  "nlog2 n = (if n < 2 then 0 else Suc (nlog2 (n div 2)))"
  by pat_completeness auto
termination
  by (relation "measure nat") auto

declare nlog2.simps [simp del]

lemma nlog2_bounds: "0 < n \<Longrightarrow> 2 ^ nlog2 n \<le> n \<and> n < 2 ^ Suc (nlog2 n)"
proof (induction n rule: nlog2.induct)
  case (1 n)
  show ?case
  proof (cases "n < 2")
    case True
    with "1.prems" show ?thesis by (simp add: nlog2.simps [of n])
  next
    case False
    then have "0 < n div 2" by simp
    with "1.IH" False have "2 ^ nlog2 (n div 2) \<le> n div 2 \<and> n div 2 < 2 ^ Suc (nlog2 (n div 2))"
      by blast
    moreover have "2 * (n div 2) \<le> n" "n < 2 * (n div 2) + 2" by linarith+
    moreover have "nlog2 n = Suc (nlog2 (n div 2))" using False by (simp add: nlog2.simps [of n])
    ultimately show ?thesis by simp
  qed
qed

definition ilog2 :: "rat \<Rightarrow> int" where
  "ilog2 x = (let (a, b) = quotient_of x; k = int (nlog2 a) - int (nlog2 b)
              in if 2 powi k \<le> x then k else k - 1)"

lemma two_powi_pos [simp]: "0 < (2::rat) powi k"
  by simp

lemma powi_of_nat_diff: "(2::rat) powi (int m - int n) = 2 ^ m / 2 ^ n"
  by (simp add: power_int_diff)

lemma two_powi_Suc: "(2::rat) powi (k + 1) = 2 * 2 powi k"
  by (simp add: power_int_add)

lemma ilog2_bounds:
  assumes "0 < x"
  shows "2 powi ilog2 x \<le> x" and "x < 2 powi (ilog2 x + 1)"
proof -
  obtain a b where q: "quotient_of x = (a, b)" by fastforce
  have b: "0 < b" using quotient_of_denom_pos [OF q] .
  have x: "x = of_int a / of_int b" using quotient_of_div [OF q] .
  with assms b have a: "0 < a" by (simp add: zero_less_divide_iff)
  define la lb where "la = nlog2 a" and "lb = nlog2 b"
  have A: "(2::int) ^ la \<le> a" "a < 2 ^ Suc la" using nlog2_bounds [OF a] by (simp_all add: la_def)
  have B: "(2::int) ^ lb \<le> b" "b < 2 ^ Suc lb" using nlog2_bounds [OF b] by (simp_all add: lb_def)
  have A': "(2::rat) ^ la \<le> of_int a" "of_int a < (2::rat) ^ Suc la"
    using A by (metis of_int_le_iff of_int_numeral of_int_power,
                metis of_int_less_iff of_int_numeral of_int_power)
  have B': "(2::rat) ^ lb \<le> of_int b" "of_int b < (2::rat) ^ Suc lb"
    using B by (metis of_int_le_iff of_int_numeral of_int_power,
                metis of_int_less_iff of_int_numeral of_int_power)
  define k where "k = int la - int lb"
  have pk: "(2::rat) powi k = 2 ^ la / 2 ^ lb" by (simp add: k_def powi_of_nat_diff)
  have up: "x < 2 powi (k + 1)"
  proof -
    have "of_int a * (2::rat) ^ lb < 2 ^ Suc la * of_int b"
      using A'(2) B'(1) a b by (intro mult_less_le_imp_less) auto
    with b show ?thesis unfolding two_powi_Suc pk x by (simp add: field_simps)
  qed
  have low: "2 powi (k - 1) < x"
  proof -
    have "(2::rat) ^ la * of_int b < of_int a * 2 ^ Suc lb"
      using A'(1) B'(2) a b by (intro mult_le_less_imp_less) auto
    then have "(2::rat) ^ la / 2 ^ Suc lb < of_int a / of_int b"
      using b by (simp add: divide_less_eq less_divide_eq mult.commute)
    moreover have "(2::rat) powi (k - 1) = 2 ^ la / 2 ^ Suc lb"
      using pk by (simp add: power_int_diff)
    ultimately show ?thesis unfolding x by (simp only:)
  qed
  have il: "ilog2 x = (if 2 powi k \<le> x then k else k - 1)"
    by (simp add: ilog2_def q k_def la_def lb_def Let_def)
  show "2 powi ilog2 x \<le> x" using low il by auto
  show "x < 2 powi (ilog2 x + 1)" using up il by auto
qed

lemma powi_less_cancel: "(2::rat) powi i < 2 powi j \<Longrightarrow> i < j"
  using power_int_increasing [of j i "2::rat"] by (cases "i < j") auto

lemma powi_mono: "i \<le> j \<Longrightarrow> (2::rat) powi i \<le> 2 powi j"
  by (rule power_int_increasing) auto

lemma ilog2_mono: "0 < x \<Longrightarrow> x \<le> y \<Longrightarrow> ilog2 x \<le> ilog2 y"
  using ilog2_bounds(1) [of x] ilog2_bounds(2) [of y] powi_less_cancel [of "ilog2 x" "ilog2 y + 1"]
  by linarith

section \<open>Rounding to an integer, ties to even\<close>

definition rne :: "rat \<Rightarrow> int" where
  "rne x = (let f = \<lfloor>x\<rfloor>; d = x - of_int f
            in if d < 1 / 2 then f else if 1 / 2 < d then f + 1 else if even f then f else f + 1)"

lemma rne_of_int [simp]: "rne (of_int n) = n"
  by (simp add: rne_def)

lemma rne_near: "\<bar>of_int (rne x) - x\<bar> \<le> 1 / 2"
proof -
  have "of_int \<lfloor>x\<rfloor> \<le> x" "x < of_int \<lfloor>x\<rfloor> + 1" by linarith+
  then show ?thesis unfolding rne_def Let_def by (auto simp: abs_le_iff field_simps)
qed

lemma rne_floor_cases: "rne x = \<lfloor>x\<rfloor> \<or> rne x = \<lfloor>x\<rfloor> + 1"
  by (simp add: rne_def Let_def)

lemma rne_mono:
  assumes "x \<le> y"
  shows "rne x \<le> rne y"
proof -
  have "\<lfloor>x\<rfloor> \<le> \<lfloor>y\<rfloor>" using assms by (rule floor_mono)
  then consider "\<lfloor>x\<rfloor> = \<lfloor>y\<rfloor>" | "\<lfloor>x\<rfloor> + 1 \<le> \<lfloor>y\<rfloor>" by linarith
  then show ?thesis
  proof cases
    case 1
    with assms show ?thesis by (auto simp: rne_def Let_def)
  next
    case 2
    with rne_floor_cases [of x] rne_floor_cases [of y] show ?thesis by linarith
  qed
qed

section \<open>Rounding to binary64\<close>

definition f64_exp :: "rat \<Rightarrow> int" where
  "f64_exp x = max (ilog2 \<bar>x\<bar> - 52) (- 1074)"

definition f64 :: "rat \<Rightarrow> rat" where
  "f64 x = (if x = 0 then 0
            else of_int (rne (x / 2 powi f64_exp x)) * 2 powi f64_exp x)"

definition is_f64 :: "rat \<Rightarrow> bool" where
  "is_f64 x \<longleftrightarrow> (\<exists>m e. x = of_int m * 2 powi e \<and> \<bar>m\<bar> \<le> 2 ^ 53 \<and> - 1074 \<le> e)"

lemma f64_0 [simp]: "f64 0 = 0"
  by (simp add: f64_def)

lemma is_f64_0 [simp]: "is_f64 0"
  unfolding is_f64_def by (rule exI [of _ 0], rule exI [of _ 0]) simp

lemma is_f64_of_int: "\<bar>n\<bar> \<le> 2 ^ 53 \<Longrightarrow> is_f64 (of_int n)"
  unfolding is_f64_def by (rule exI [of _ n], rule exI [of _ 0]) simp

lemma abs_less_powi: "x \<noteq> 0 \<Longrightarrow> \<bar>x\<bar> < 2 powi (f64_exp x + 53)"
proof -
  assume "x \<noteq> 0"
  then have "\<bar>x\<bar> < 2 powi (ilog2 \<bar>x\<bar> + 1)" by (intro ilog2_bounds(2)) simp
  also have "\<dots> \<le> 2 powi (f64_exp x + 53)" by (rule powi_mono) (simp add: f64_exp_def)
  finally show ?thesis .
qed

lemma powi_53: "(2::rat) powi (e + 53) = 2 ^ 53 * 2 powi e"
  by (simp add: power_int_add)

lemma rne_le_int: "x \<le> of_int n \<Longrightarrow> rne x \<le> n"
  using rne_mono [of x "of_int n"] by simp

lemma rne_ge_int: "of_int n \<le> x \<Longrightarrow> n \<le> rne x"
  using rne_mono [of "of_int n" x] by simp

lemma is_f64_f64 [simp]: "is_f64 (f64 x)"
proof (cases "x = 0")
  case False
  let ?e = "f64_exp x" and ?m = "rne (x / 2 powi f64_exp x)"
  from abs_less_powi [OF False] have "\<bar>x\<bar> < 2 ^ 53 * 2 powi ?e" by (simp only: powi_53)
  then have "x / 2 powi ?e \<le> of_int (2 ^ 53)" and "of_int (- (2 ^ 53)) \<le> x / 2 powi ?e"
    by (simp_all add: field_simps abs_less_iff)
  then have "?m \<le> 2 ^ 53" and "- (2 ^ 53) \<le> ?m"
    by (simp_all only: rne_le_int rne_ge_int)
  then have "\<bar>?m\<bar> \<le> 2 ^ 53" by linarith
  moreover have "- 1074 \<le> ?e" by (simp add: f64_exp_def)
  ultimately show ?thesis using False unfolding is_f64_def f64_def by auto
qed simp

lemma f64_exp_le:
  assumes x: "x = of_int m * 2 powi e" and m: "\<bar>m\<bar> < 2 ^ 53" and e: "- 1074 \<le> e" and "x \<noteq> 0"
  shows "f64_exp x \<le> e"
proof -
  have "(2::rat) powi ilog2 \<bar>x\<bar> \<le> \<bar>x\<bar>" using \<open>x \<noteq> 0\<close> by (intro ilog2_bounds(1)) simp
  also have "\<bar>x\<bar> = of_int \<bar>m\<bar> * 2 powi e" by (simp add: x abs_mult)
  also have "\<dots> < 2 ^ 53 * 2 powi e"
  proof -
    have "(of_int \<bar>m\<bar> :: rat) < of_int (2 ^ 53)" using m by (simp only: of_int_less_iff)
    then show ?thesis by (simp del: of_int_abs)
  qed
  also have "\<dots> = 2 powi (e + 53)" by (simp only: powi_53)
  finally have "ilog2 \<bar>x\<bar> < e + 53" by (rule powi_less_cancel)
  with e show ?thesis by (simp add: f64_exp_def)
qed

lemma f64_scaled:
  assumes "x = of_int m * 2 powi e" and "f64_exp x \<le> e" and "x \<noteq> 0"
  shows "f64 x = x"
proof -
  define n where "n = nat (e - f64_exp x)"
  have e: "e = f64_exp x + int n" using assms(2) by (simp add: n_def)
  have "x = of_int m * 2 powi (f64_exp x + int n)" using assms(1) unfolding e [symmetric] .
  moreover have "(2::rat) powi (f64_exp x + int n) = 2 powi f64_exp x * 2 ^ n"
    by (simp add: power_int_add)
  ultimately have "x = of_int m * (2 powi f64_exp x * 2 ^ n)" by metis
  then have q: "x / 2 powi f64_exp x = of_int (m * 2 ^ n)"
    by (simp add: field_simps)
  then have "rne (x / 2 powi f64_exp x) = m * 2 ^ n" by (simp only: rne_of_int)
  then have "f64 x = x / 2 powi f64_exp x * 2 powi f64_exp x"
    using q assms(3) by (simp only: f64_def if_False)
  then show ?thesis by simp
qed

lemma f64_id: "is_f64 x \<Longrightarrow> f64 x = x"
proof (cases "x = 0")
  case False
  assume "is_f64 x"
  then obtain m e where x: "x = of_int m * 2 powi e" "\<bar>m\<bar> \<le> 2 ^ 53" "- 1074 \<le> e"
    by (auto simp: is_f64_def)
  show ?thesis
  proof (cases "\<bar>m\<bar> < 2 ^ 53")
    case True
    with x False show ?thesis using f64_scaled f64_exp_le by blast
  next
    case False
    with x(2) have "m = 2 ^ 53 \<or> m = - (2 ^ 53)" by linarith
    then have "m = 2 * (2 ^ 52) \<or> m = 2 * (- (2 ^ 52))" by simp
    then obtain m' :: int where m': "m = 2 * m'" "\<bar>m'\<bar> < 2 ^ 53" by fastforce
    have "x = of_int m' * 2 powi (e + 1)" by (simp add: x(1) m'(1) two_powi_Suc)
    with m' x(3) \<open>x \<noteq> 0\<close> show ?thesis using f64_scaled f64_exp_le
      by (metis add.commute add_increasing zero_le_one)
  qed
qed simp

lemma f64_nonneg: "0 \<le> x \<Longrightarrow> 0 \<le> f64 x"
  by (simp add: f64_def rne_ge_int [of 0, simplified])

lemma f64_mono:
  assumes "0 \<le> x" and "x \<le> y"
  shows "f64 x \<le> f64 y"
proof (cases "x = 0")
  case True
  with assms show ?thesis by (simp add: f64_nonneg)
next
  case False
  with assms have pos: "0 < x" "0 < y" by simp_all
  have "f64_exp x \<le> f64_exp y"
    using ilog2_mono [OF pos(1) assms(2)] pos by (simp add: f64_exp_def)
  then consider "f64_exp x = f64_exp y" | "f64_exp x + 1 \<le> f64_exp y" by linarith
  then show ?thesis
  proof cases
    case 1
    then have "rne (x / 2 powi f64_exp x) \<le> rne (y / 2 powi f64_exp y)"
      using assms by (intro rne_mono) (simp add: divide_right_mono)
    with 1 pos show ?thesis by (simp add: f64_def mult_right_mono)
  next
    case 2
    let ?ex = "f64_exp x" and ?ey = "f64_exp y"
    have "rne (x / 2 powi ?ex) \<le> 2 ^ 53"
      using abs_less_powi [OF False] pos by (intro rne_le_int) (simp add: powi_53 field_simps)
    then have "(of_int (rne (x / 2 powi ?ex)) :: rat) \<le> of_int (2 ^ 53)" by (simp only: of_int_le_iff)
    then have "f64 x \<le> 2 ^ 53 * 2 powi ?ex" using False by (simp add: f64_def)
    also have "\<dots> = 2 ^ 52 * 2 powi (?ex + 1)" by (simp add: two_powi_Suc)
    also have "\<dots> \<le> 2 ^ 52 * 2 powi ?ey" using powi_mono [OF 2] by simp
    also have "\<dots> \<le> f64 y"
    proof -
      have "- 1074 < ?ey" using 2 by (simp add: f64_exp_def)
      then have "?ey = ilog2 y - 52" using pos by (simp add: f64_exp_def)
      then have "2 powi (?ey + 52) \<le> y" using ilog2_bounds(1) [OF pos(2)] by simp
      then have "of_int (2 ^ 52) \<le> y / 2 powi ?ey" by (simp add: power_int_add field_simps)
      then have "2 ^ 52 \<le> rne (y / 2 powi ?ey)" by (rule rne_ge_int)
      then have "of_int (2 ^ 52) \<le> (of_int (rne (y / 2 powi ?ey)) :: rat)" by (simp only: of_int_le_iff)
      with pos show ?thesis by (simp add: f64_def)
    qed
    finally show ?thesis .
  qed
qed

lemma is_f64_minus_one:
  assumes "is_f64 t" and "1 \<le> t" and "t \<le> 2 ^ 53"
  shows "is_f64 (t - 1)"
proof -
  obtain m e where t: "t = of_int m * 2 powi e" and m: "\<bar>m\<bar> \<le> 2 ^ 53" and e: "- 1074 \<le> e"
    using assms(1) by (auto simp: is_f64_def)
  show ?thesis
  proof (cases "e \<le> 0")
    case True
    define k where "k = nat (- e)"
    have pe: "(2::rat) powi e = 1 / 2 ^ k"
      using True by (simp add: k_def power_int_def inverse_eq_divide power_one_over)
    have eq: "t - 1 = of_int (m - 2 ^ k) * 2 powi e" unfolding t pe by (simp add: field_simps)
    have "(2::rat) ^ k \<le> of_int m" using assms(2) unfolding t pe by (simp add: field_simps)
    then have "of_int (2 ^ k) \<le> (of_int m :: rat)" by simp
    then have "2 ^ k \<le> m" by (simp only: of_int_le_iff)
    moreover have "(0::int) \<le> 2 ^ k" by simp
    ultimately have "\<bar>m - 2 ^ k\<bar> \<le> 2 ^ 53" using m by linarith
    with eq e show ?thesis unfolding is_f64_def by blast
  next
    case False
    then have "t = of_int (m * 2 ^ nat e)" by (simp add: t power_int_def)
    then obtain n where n: "t = of_int n" by blast
    with assms have "1 \<le> n" "of_int n \<le> (of_int (2 ^ 53) :: rat)" by simp_all
    then have "\<bar>n - 1\<bar> \<le> 2 ^ 53" by (simp only: of_int_le_iff)
    then have "is_f64 (of_int (n - 1))" by (rule is_f64_of_int)
    with n show ?thesis by simp
  qed
qed

text \<open>The error of one rounding, for zero and for values in the normal range.\<close>

lemma f64_near:
  assumes "x = 0 \<or> 1 / 2 ^ 1000 \<le> x"
  shows "\<bar>f64 x - x\<bar> \<le> x / 2 ^ 53"
proof (cases "x = 0")
  case False
  with assms have x: "1 / 2 ^ 1000 \<le> x" by simp
  have pos: "0 < x" by (rule less_le_trans [OF _ x]) simp
  have "(2::rat) powi (- 1000) < 2 powi (ilog2 x + 1)"
    using x ilog2_bounds(2) [OF pos] by (simp add: power_int_minus inverse_eq_divide)
  then have "- 1000 < ilog2 x + 1" by (rule powi_less_cancel)
  then have e: "f64_exp x = ilog2 x - 52" using pos by (simp add: f64_exp_def)
  let ?u = "(2::rat) powi f64_exp x"
  have u: "0 < ?u" "2 ^ 52 * ?u \<le> x"
    using ilog2_bounds(1) [OF pos] unfolding e by (simp_all add: power_int_diff)
  have "f64 x - x = (of_int (rne (x / ?u)) - x / ?u) * ?u"
    using u(1) False by (simp add: f64_def left_diff_distrib)
  then have "\<bar>f64 x - x\<bar> = \<bar>of_int (rne (x / ?u)) - x / ?u\<bar> * ?u" by (simp add: abs_mult)
  also have "\<dots> \<le> 1 / 2 * ?u" using rne_near [of "x / ?u"] by (intro mult_right_mono) simp_all
  also have "\<dots> \<le> x / 2 ^ 53" using u(2) by simp
  finally show ?thesis .
qed simp

lemma f64_rel:
  assumes "x = 0 \<or> 1 / 2 ^ 1000 \<le> x"
  shows "f64 x \<le> x * (1 + 1 / 2 ^ 53)" and "x * (1 - 1 / 2 ^ 53) \<le> f64 x"
proof -
  have "f64 x \<le> x + x / 2 ^ 53" "x - x / 2 ^ 53 \<le> f64 x" using f64_near [OF assms] by linarith+
  then show "f64 x \<le> x * (1 + 1 / 2 ^ 53)" "x * (1 - 1 / 2 ^ 53) \<le> f64 x"
    by (simp_all add: distrib_left right_diff_distrib)
qed

lemma f64_of_int: "\<bar>n\<bar> \<le> 2 ^ 53 \<Longrightarrow> f64 (of_int n) = of_int n"
  by (rule f64_id) (rule is_f64_of_int)

lemma f64_le: "0 \<le> x \<Longrightarrow> x \<le> c \<Longrightarrow> is_f64 c \<Longrightarrow> f64 x \<le> c"
  using f64_mono [of x c] f64_id [of c] by simp

lemma f64_ge: "0 \<le> c \<Longrightarrow> c \<le> x \<Longrightarrow> is_f64 c \<Longrightarrow> c \<le> f64 x"
  using f64_mono [of c x] f64_id [of c] by simp

end
