(* ===== verification/Duration.thy ===== *)
theory Duration
  imports Float64 Xlerr
begin

text \<open>
  \<^verbatim>\<open>time.ParseDuration\<close> of Go's standard library, which the YAML decoding of the batcher
  section calls: an optional sign, then a sequence of decimal numbers with an optional fraction
  and a unit. Intermediate values are \<^verbatim>\<open>uint64\<close>; the fraction goes through \<^verbatim>\<open>float64\<close>.
\<close>

definition two63 :: int where "two63 = 9223372036854775808"
definition two64 :: int where "two64 = 18446744073709551616"

text \<open>\<open>None\<close> is the overflow error of \<^verbatim>\<open>leadingInt\<close>.\<close>

fun leadingInt :: "int \<Rightarrow> bytes \<Rightarrow> (int \<times> bytes) option" where
  "leadingInt x [] = Some (x, [])"
| "leadingInt x (c # s) =
     (if \<not> is_digit c then Some (x, c # s)
      else if two63 div 10 < x then None
      else let y = 10 * x + int (digit_val c) in if two63 < y then None else leadingInt y s)"

fun leadingFraction :: "bool \<Rightarrow> int \<Rightarrow> rat \<Rightarrow> bytes \<Rightarrow> int \<times> rat \<times> bytes" where
  "leadingFraction overflow x scale [] = (x, scale, [])"
| "leadingFraction overflow x scale (c # s) =
     (if \<not> is_digit c then (x, scale, c # s)
      else if overflow then leadingFraction True x scale s
      else if (two63 - 1) div 10 < x then leadingFraction True x scale s
      else let y = 10 * x + int (digit_val c)
           in if two63 < y then leadingFraction True x scale s
              else leadingFraction False y (f64 (scale * 10)) s)"

definition unitMap :: "bytes \<Rightarrow> int option" where
  "unitMap = map_of
     [(''ns'', 1), (''us'', 1000), ([CHR 0xC2, CHR 0xB5, CHR ''s''], 1000),
      ([CHR 0xCE, CHR 0xBC, CHR ''s''], 1000), (''ms'', 1000000), (''s'', 1000000000),
      (''m'', 60000000000), (''h'', 3600000000000)]"

definition invalid_duration :: "bytes \<Rightarrow> error" where
  "invalid_duration orig = Errorf [Lit ''time: invalid duration '', Quoted orig] None"

text \<open>The value of one number with its unit: the whole part, the fraction, the overflow checks.\<close>

definition scaled_value :: "int \<Rightarrow> int \<Rightarrow> rat \<Rightarrow> int \<Rightarrow> int option" where
  "scaled_value v f scale u =
     (if two63 div u < v then None
      else let v1 = v * u;
               v2 = (if 0 < f then v1 + \<lfloor>f64 (f64 (of_int f) * f64 (f64 (of_int u) / scale))\<rfloor>
                     else v1)
           in if two63 < v2 then None else Some v2)"

definition not_number :: "char \<Rightarrow> bool" where
  "not_number c \<longleftrightarrow> c \<noteq> CHR ''.'' \<and> \<not> is_digit c"

text \<open>One iteration of the loop: a number with its unit, and what is left of the input.\<close>

definition duration_unit :: "bytes \<Rightarrow> int \<Rightarrow> int \<Rightarrow> rat \<Rightarrow> bytes \<Rightarrow> error + int \<times> bytes" where
  "duration_unit orig v f scale s =
     (let u = takeWhile not_number s; rest = dropWhile not_number s
      in if u = [] then Inl (Errorf [Lit ''time: missing unit in duration '', Quoted orig] None)
         else case unitMap u of
           None \<Rightarrow> Inl (Errorf [Lit ''time: unknown unit '', Quoted u, Lit '' in duration '',
                                Quoted orig] None)
         | Some unit \<Rightarrow>
             (case scaled_value v f scale unit of
                None \<Rightarrow> Inl (invalid_duration orig)
              | Some w \<Rightarrow> Inr (w, rest)))"

definition duration_term :: "bytes \<Rightarrow> bytes \<Rightarrow> error + int \<times> bytes" where
  "duration_term orig s =
     (if s = [] \<or> \<not> (hd s = CHR ''.'' \<or> is_digit (hd s)) then Inl (invalid_duration orig)
      else case leadingInt 0 s of
        None \<Rightarrow> Inl (invalid_duration orig)
      | Some (v, s1) \<Rightarrow>
          (let pre = length s \<noteq> length s1;
               dot = s1 \<noteq> [] \<and> hd s1 = CHR ''.'';
               (f, scale, s2) = (if dot then leadingFraction False 0 1 (tl s1) else (0, 1, s1));
               post = dot \<and> length (tl s1) \<noteq> length s2
           in if \<not> pre \<and> \<not> post then Inl (invalid_duration orig)
              else duration_unit orig v f scale s2))"

lemma leadingInt_length: "leadingInt x s = Some (v, r) \<Longrightarrow> length r \<le> length s"
  by (induction x s rule: leadingInt.induct) (auto simp: Let_def split: if_splits)

lemma leadingFraction_length: "leadingFraction ov x sc s = (v, sc', r) \<Longrightarrow> length r \<le> length s"
  by (induction ov x sc s rule: leadingFraction.induct) (auto simp: Let_def split: if_splits)

lemma duration_unit_length:
  "duration_unit orig v f scale s = Inr (w, r) \<Longrightarrow> length r < length s"
  using length_takeWhile_dropWhile [of not_number s]
  by (auto simp: duration_unit_def Let_def split: if_splits option.splits)
    (metis add_less_same_cancel2 gr_zeroI length_0_conv less_add_same_cancel2)

lemma duration_term_length: "duration_term orig s = Inr (w, r) \<Longrightarrow> length r < length s"
  by (auto simp: duration_term_def Let_def split: if_splits option.splits prod.splits
      dest!: duration_unit_length leadingInt_length leadingFraction_length)

function duration_loop :: "bytes \<Rightarrow> int \<Rightarrow> bytes \<Rightarrow> error + int" where
  "duration_loop orig d s =
     (if s = [] then Inr d
      else case duration_term orig s of
        Inl e \<Rightarrow> Inl e
      | Inr (v, rest) \<Rightarrow>
          (let d' = (d + v) mod two64
           in if two63 < d' then Inl (invalid_duration orig) else duration_loop orig d' rest))"
  by pat_completeness auto
termination
  by (relation "measure (\<lambda>(orig, d, s). length s)") (auto dest: duration_term_length)

declare duration_loop.simps [simp del]

definition ParseDuration :: "bytes \<Rightarrow> error + int" where
  "ParseDuration orig =
     (let neg = orig \<noteq> [] \<and> hd orig = CHR ''-'';
          s = (if orig \<noteq> [] \<and> (hd orig = CHR ''-'' \<or> hd orig = CHR ''+'') then tl orig else orig)
      in if s = ''0'' then Inr 0
         else if s = [] then Inl (invalid_duration orig)
         else case duration_loop orig 0 s of
           Inl e \<Rightarrow> Inl e
         | Inr d \<Rightarrow>
             (if neg then Inr (wrap64 (- wrap64 d))
              else if two63 - 1 < d then Inl (invalid_duration orig)
              else Inr d))"

lemma duration_loop_range:
  "0 \<le> d \<Longrightarrow> d \<le> two63 \<Longrightarrow> duration_loop orig d s = Inr r \<Longrightarrow> 0 \<le> r \<and> r \<le> two63"
proof (induction orig d s rule: duration_loop.induct)
  case (1 orig d s)
  show ?case
  proof (cases "s = []")
    case True
    with "1.prems" show ?thesis by (simp add: duration_loop.simps [of orig d "[]"])
  next
    case False
    with "1.prems" obtain v rest where t: "duration_term orig s = Inr (v, rest)"
      by (auto simp: duration_loop.simps [of orig d s] split: sum.splits)
    let ?d = "(d + v) mod two64"
    from False t "1.prems" have "\<not> two63 < ?d" and "duration_loop orig ?d rest = Inr r"
      by (auto simp: duration_loop.simps [of orig d s] Let_def split: if_splits)
    moreover have "0 \<le> ?d" by (simp add: two64_def)
    ultimately show ?thesis using "1.IH" [OF False t] by simp
  qed
qed

lemma ParseDuration_int64: "ParseDuration s = Inr d \<Longrightarrow> in_int64 d"
proof -
  assume "ParseDuration s = Inr d"
  then consider "d = 0" | x where "d = wrap64 x"
    | s' where "duration_loop s 0 s' = Inr d" "d \<le> two63 - 1"
    by (fastforce simp: ParseDuration_def Let_def split: if_splits sum.splits)
  then show ?thesis
  proof cases
    case 3
    with duration_loop_range [of 0 s s' d] show ?thesis
      by (simp add: in_int64_def int64_min_def int64_max_def two63_def)
  qed (simp add: in_int64_def int64_min_def int64_max_def, simp add: wrap64_in)
qed

end
