(* ===== verification/Config.thy ===== *)
theory Config
  imports Duration
begin

text \<open>
  Package \<^verbatim>\<open>config\<close>: the configuration structures as records, the built-in defaults, the
  environment overrides, the YAML method of the batcher section, \<^verbatim>\<open>validate\<close> and
  \<^verbatim>\<open>Load\<close>. The YAML package and the file system are outside the repository: \<open>Load\<close>
  takes the reader of files and the decoder. The decoder is given the method
  \<^verbatim>\<open>UnmarshalYAML\<close>, which it calls on the node of the batcher section, and the configuration
  to fill in; decoding a node into the two plain fields of the method is its own parameter.
\<close>

section \<open>The structures\<close>

record DispatcherConfig =
  Workers :: int
  BufferSize :: int

record BatcherConfig =
  MaxSize :: int
  FlushInterval :: int       \<comment> \<open>\<^verbatim>\<open>time.Duration\<close>, in nanoseconds\<close>

record DLQConfig =
  Backend :: bytes
  Target :: bytes

record ObservabilityConfig =
  MetricsPath :: bytes
  MetricsPort :: bytes

record TLSConfig =
  TLS_Enabled :: bool
  CertFile :: bytes
  KeyFile :: bytes

record AuthConfig =
  Mode :: bytes
  APIKey :: bytes
  JWTSecret :: bytes
  JWTIssuer :: bytes

record RateLimitConfig =
  RL_Enabled :: bool
  RequestsPerSecond :: int
  BurstSize :: int

record RedisConfig =
  Redis_Enabled :: bool
  Addr :: bytes
  Password :: bytes
  DB :: int
  StreamPrefix :: bytes
  ConsumerGroup :: bytes
  ConsumerName :: bytes
  Regions :: "bytes list"
  ReadBatchSize :: int
  ReadBlockMs :: int

record Config =
  Dispatcher :: DispatcherConfig
  Batcher :: BatcherConfig
  DLQ :: DLQConfig
  Observability :: ObservabilityConfig
  TLS :: TLSConfig
  Auth :: AuthConfig
  RateLimit :: RateLimitConfig
  Redis :: RedisConfig

definition time_Second :: int where "time_Second = 1000000000"
definition time_Millisecond :: int where "time_Millisecond = 1000000"

section \<open>Defaults\<close>

definition defaults :: Config where
  "defaults =
     \<lparr>Dispatcher = \<lparr>Workers = 8, BufferSize = 4096\<rparr>,
      Batcher = \<lparr>MaxSize = 500, FlushInterval = 2 * time_Second\<rparr>,
      DLQ = \<lparr>Backend = ''file'', Target = ''dlq.log''\<rparr>,
      Observability = \<lparr>MetricsPath = ''/metrics'', MetricsPort = ''''\<rparr>,
      TLS = \<lparr>TLS_Enabled = False, CertFile = '''', KeyFile = ''''\<rparr>,
      Auth = \<lparr>Mode = ''none'', APIKey = '''', JWTSecret = '''', JWTIssuer = ''''\<rparr>,
      RateLimit = \<lparr>RL_Enabled = True, RequestsPerSecond = 1000, BurstSize = 2000\<rparr>,
      Redis = \<lparr>Redis_Enabled = False, Addr = ''localhost:6379'', Password = '''', DB = 0,
               StreamPrefix = ''xyllo:stream'', ConsumerGroup = ''xyllo-consumers'',
               ConsumerName = ''xyllo-1'',
               Regions = [''us-east-1'', ''eu-west-1'', ''ap-southeast-1'', ''sa-east-1'',
                          ''af-south-1''],
               ReadBatchSize = 100, ReadBlockMs = 1000\<rparr>\<rparr>"

section \<open>The batcher section of the file\<close>

text \<open>
  \<open>decode node\<close> is \<^verbatim>\<open>value.Decode(&p)\<close>: the values of \<^verbatim>\<open>max_size\<close> and
  \<^verbatim>\<open>flush_interval\<close>, zero values where the section has no such key. The receiver keeps what
  was assigned to it before an error.
\<close>

definition invalid_flush_interval :: "bytes \<Rightarrow> error \<Rightarrow> error" where
  "invalid_flush_interval v e =
     errorf_w [Lit ''batcher.flush_interval: invalid duration '', Quoted v, Lit '': ''] e"

definition UnmarshalYAML ::
  "('node \<Rightarrow> error + int \<times> bytes) \<Rightarrow> 'node \<Rightarrow> BatcherConfig \<Rightarrow> error option \<times> BatcherConfig" where
  "UnmarshalYAML decode node b =
     (case decode node of
        Inl e \<Rightarrow> (Some e, b)
      | Inr (max_size, flush_interval) \<Rightarrow>
          (let b1 = b\<lparr>MaxSize := max_size\<rparr>
           in if flush_interval \<noteq> [] then
                (case ParseDuration flush_interval of
                   Inl e \<Rightarrow> (Some (invalid_flush_interval flush_interval e), b1)
                 | Inr d \<Rightarrow> (None, b1\<lparr>FlushInterval := d\<rparr>))
              else (None, b1)))"

section \<open>Validation\<close>

definition validDLQBackends :: "bytes list" where
  "validDLQBackends = ['''', ''file'', ''redis'', ''kafka'', ''log'']"

text \<open>
  \<open>None\<close> is a nil error. The checks stand in the order of the code, and each returns at once.
\<close>

definition validate_rate_limit :: "RateLimitConfig \<Rightarrow> error option" where
  "validate_rate_limit r =
     (if \<not> RL_Enabled r then None
      else if RequestsPerSecond r < 1 then
        Some (Errorf [Lit ''rate_limit.requests_per_second must be >= 1 when rate limiting is enabled, got '',
                      Dec (RequestsPerSecond r)] None)
      else if BurstSize r < 1 then
        Some (Errorf [Lit ''rate_limit.burst_size must be >= 1 when rate limiting is enabled, got '',
                      Dec (BurstSize r)] None)
      else None)"

definition validate_redis :: "RedisConfig \<Rightarrow> error option" where
  "validate_redis r =
     (if \<not> Redis_Enabled r then None
      else if Addr r = [] then
        Some (Errorf [Lit ''redis.addr must be set when redis is enabled''] None)
      else if ReadBatchSize r < 1 then
        Some (Errorf [Lit ''redis.read_batch_size must be >= 1, got '', Dec (ReadBatchSize r)] None)
      else None)"

definition validate_auth :: "AuthConfig \<Rightarrow> error option" where
  "validate_auth a =
     (if Mode a \<notin> {''none'', ''apikey'', ''jwt''} then
        Some (Errorf [Lit ''auth.mode must be one of [none apikey jwt], got '', Quoted (Mode a)] None)
      else if Mode a = ''apikey'' \<and> APIKey a = [] then
        Some (Errorf [Lit ''auth.api_key must be set when auth.mode is '', Quoted (Mode a)] None)
      else if Mode a = ''jwt'' \<and> JWTSecret a = [] then
        Some (Errorf [Lit ''auth.jwt_secret must be set when auth.mode is '', Quoted (Mode a)] None)
      else None)"

definition validate :: "Config \<Rightarrow> error option" where
  "validate cfg =
     (if Workers (Dispatcher cfg) < 1 then
        Some (Errorf [Lit ''dispatcher.workers must be >= 1, got '', Dec (Workers (Dispatcher cfg))] None)
      else if BufferSize (Dispatcher cfg) < 1 then
        Some (Errorf [Lit ''dispatcher.buffer_size must be >= 1, got '',
                      Dec (BufferSize (Dispatcher cfg))] None)
      else if MaxSize (Batcher cfg) < 1 then
        Some (Errorf [Lit ''batcher.max_size must be >= 1, got '', Dec (MaxSize (Batcher cfg))] None)
      else if FlushInterval (Batcher cfg) \<le> 0 then
        Some (Errorf [Lit ''batcher.flush_interval must be > 0, got '',
                      Duration (FlushInterval (Batcher cfg))] None)
      else first_error
        [validate_auth (Auth cfg),
         if Backend (DLQ cfg) \<notin> set validDLQBackends then
           Some (Errorf [Lit ''dlq.backend must be one of [file redis kafka log], got '',
                         Quoted (Backend (DLQ cfg))] None)
         else None,
         validate_rate_limit (RateLimit cfg),
         validate_redis (Redis cfg)])"

section \<open>Environment overrides and Load\<close>

text \<open>
  \<open>getenv v\<close> is \<^verbatim>\<open>os.Getenv\<close>: the empty string for a variable that is not set.
\<close>

definition override :: "bytes \<Rightarrow> (bytes \<Rightarrow> 'a \<Rightarrow> 'a) \<Rightarrow> 'a \<Rightarrow> 'a" where
  "override v set_field c = (if v \<noteq> [] then set_field v c else c)"

definition apply_env :: "(bytes \<Rightarrow> bytes) \<Rightarrow> Config \<Rightarrow> Config" where
  "apply_env getenv cfg =
     override (getenv ''XYLLO_REDIS_PASSWORD'') (\<lambda>v c. c\<lparr>Redis := (Redis c)\<lparr>Password := v\<rparr>\<rparr>)
     (override (getenv ''XYLLO_DLQ_TARGET'') (\<lambda>v c. c\<lparr>DLQ := (DLQ c)\<lparr>Target := v\<rparr>\<rparr>)
      (override (getenv ''XYLLO_JWT_SECRET'') (\<lambda>v c. c\<lparr>Auth := (Auth c)\<lparr>JWTSecret := v\<rparr>\<rparr>)
       (override (getenv ''XYLLO_API_KEY'') (\<lambda>v c. c\<lparr>Auth := (Auth c)\<lparr>APIKey := v\<rparr>\<rparr>) cfg)))"

definition validated :: "Config \<Rightarrow> error + Config" where
  "validated cfg = (case validate cfg of
       Some e \<Rightarrow> Inl (errorf_w [Lit ''config: validation failed: ''] e)
     | None \<Rightarrow> Inr cfg)"

type_synonym 'node yaml_decoder =
  "('node \<Rightarrow> BatcherConfig \<Rightarrow> error option \<times> BatcherConfig) \<Rightarrow> bytes \<Rightarrow> Config \<Rightarrow> error + Config"

definition Load ::
  "(bytes \<Rightarrow> error + bytes) \<Rightarrow> ('node \<Rightarrow> error + int \<times> bytes) \<Rightarrow> 'node yaml_decoder
   \<Rightarrow> (bytes \<Rightarrow> bytes) \<Rightarrow> bytes \<Rightarrow> error + Config" where
  "Load read_file decode yaml_unmarshal getenv path =
     (if path = [] then validated (apply_env getenv defaults)
      else case read_file path of
        Inl e \<Rightarrow> Inl (errorf_w [Lit ''config: read '', Quoted path, Lit '': ''] e)
      | Inr data \<Rightarrow>
         (case yaml_unmarshal (UnmarshalYAML decode) data defaults of
            Inl e \<Rightarrow> Inl (errorf_w [Lit ''config: parse '', Quoted path, Lit '': ''] e)
          | Inr cfg \<Rightarrow> validated (apply_env getenv cfg)))"

section \<open>What a validated configuration promises\<close>

definition auth_ok :: "AuthConfig \<Rightarrow> bool" where
  "auth_ok a \<longleftrightarrow> Mode a = ''none'' \<or> (Mode a = ''apikey'' \<and> APIKey a \<noteq> []) \<or>
                (Mode a = ''jwt'' \<and> JWTSecret a \<noteq> [])"

definition config_ok :: "Config \<Rightarrow> bool" where
  "config_ok cfg \<longleftrightarrow>
     1 \<le> Workers (Dispatcher cfg) \<and> 1 \<le> BufferSize (Dispatcher cfg) \<and>
     1 \<le> MaxSize (Batcher cfg) \<and> 0 < FlushInterval (Batcher cfg) \<and>
     auth_ok (Auth cfg) \<and>
     Backend (DLQ cfg) \<in> {'''', ''file'', ''redis'', ''kafka'', ''log''} \<and>
     (RL_Enabled (RateLimit cfg) \<longrightarrow>
        1 \<le> RequestsPerSecond (RateLimit cfg) \<and> 1 \<le> BurstSize (RateLimit cfg)) \<and>
     (Redis_Enabled (Redis cfg) \<longrightarrow> Addr (Redis cfg) \<noteq> [] \<and> 1 \<le> ReadBatchSize (Redis cfg))"

lemma validate_auth_None: "validate_auth a = None \<longleftrightarrow> auth_ok a"
  by (auto simp: validate_auth_def auth_ok_def)

lemma validate_rate_limit_None:
  "validate_rate_limit r = None \<longleftrightarrow>
     (RL_Enabled r \<longrightarrow> 1 \<le> RequestsPerSecond r \<and> 1 \<le> BurstSize r)"
  by (auto simp: validate_rate_limit_def)

lemma validate_redis_None:
  "validate_redis r = None \<longleftrightarrow> (Redis_Enabled r \<longrightarrow> Addr r \<noteq> [] \<and> 1 \<le> ReadBatchSize r)"
  by (auto simp: validate_redis_def)

lemma validate_None: "validate cfg = None \<longleftrightarrow> config_ok cfg"
proof -
  have "validate cfg = None \<longleftrightarrow>
      1 \<le> Workers (Dispatcher cfg) \<and> 1 \<le> BufferSize (Dispatcher cfg) \<and>
      1 \<le> MaxSize (Batcher cfg) \<and> 0 < FlushInterval (Batcher cfg) \<and>
      validate_auth (Auth cfg) = None \<and> Backend (DLQ cfg) \<in> set validDLQBackends \<and>
      validate_rate_limit (RateLimit cfg) = None \<and> validate_redis (Redis cfg) = None"
    by (simp add: validate_def first_error_None)
  then show ?thesis
    by (simp add: config_ok_def validate_auth_None validate_rate_limit_None validate_redis_None
        validDLQBackends_def)
qed

lemma apply_env_frame [frame_simps]:
  "Dispatcher (apply_env g cfg) = Dispatcher cfg" "Batcher (apply_env g cfg) = Batcher cfg"
  "RateLimit (apply_env g cfg) = RateLimit cfg" "Mode (Auth (apply_env g cfg)) = Mode (Auth cfg)"
  "Backend (DLQ (apply_env g cfg)) = Backend (DLQ cfg)"
  "Redis_Enabled (Redis (apply_env g cfg)) = Redis_Enabled (Redis cfg)"
  by (simp_all add: apply_env_def override_def)

lemma apply_env_fields:
  "APIKey (Auth (apply_env g cfg)) =
     (if g ''XYLLO_API_KEY'' \<noteq> [] then g ''XYLLO_API_KEY'' else APIKey (Auth cfg))"
  "JWTSecret (Auth (apply_env g cfg)) =
     (if g ''XYLLO_JWT_SECRET'' \<noteq> [] then g ''XYLLO_JWT_SECRET'' else JWTSecret (Auth cfg))"
  "Target (DLQ (apply_env g cfg)) =
     (if g ''XYLLO_DLQ_TARGET'' \<noteq> [] then g ''XYLLO_DLQ_TARGET'' else Target (DLQ cfg))"
  "Password (Redis (apply_env g cfg)) =
     (if g ''XYLLO_REDIS_PASSWORD'' \<noteq> [] then g ''XYLLO_REDIS_PASSWORD'' else Password (Redis cfg))"
  by (simp_all add: apply_env_def override_def)

text \<open>
  What a call gives before validation, said without the steps of the code: \<open>gives\<close> is what the
  defaults and the file come to, and \<open>with_secrets\<close> replaces the four fields whose variable is set.
\<close>

definition gives ::
  "(bytes \<Rightarrow> error + bytes) \<Rightarrow> (bytes \<Rightarrow> Config \<Rightarrow> error + Config) \<Rightarrow> bytes \<Rightarrow> Config \<Rightarrow> bool" where
  "gives read_file unmarshal path cfg \<longleftrightarrow>
     (if path = [] then cfg = defaults
      else case read_file path of Inl e \<Rightarrow> False | Inr data \<Rightarrow> unmarshal data defaults = Inr cfg)"

definition set_or :: "bytes \<Rightarrow> bytes \<Rightarrow> bytes" where
  "set_or v old = (if v = [] then old else v)"

definition with_secrets :: "(bytes \<Rightarrow> bytes) \<Rightarrow> Config \<Rightarrow> Config" where
  "with_secrets getenv cfg = cfg
     \<lparr>Auth := (Auth cfg)\<lparr>APIKey := set_or (getenv ''XYLLO_API_KEY'') (APIKey (Auth cfg)),
                      JWTSecret := set_or (getenv ''XYLLO_JWT_SECRET'') (JWTSecret (Auth cfg))\<rparr>,
      DLQ := (DLQ cfg)\<lparr>Target := set_or (getenv ''XYLLO_DLQ_TARGET'') (Target (DLQ cfg))\<rparr>,
      Redis := (Redis cfg)\<lparr>Password := set_or (getenv ''XYLLO_REDIS_PASSWORD'') (Password (Redis cfg))\<rparr>\<rparr>"

lemma apply_env_secrets: "apply_env g cfg = with_secrets g cfg"
  by (simp add: apply_env_def override_def with_secrets_def set_or_def)

lemma Load_Inr:
  "Load rd dc ym g path = Inr cfg \<Longrightarrow>
     \<exists>cfg0. gives rd (ym (UnmarshalYAML dc)) path cfg0 \<and> cfg = with_secrets g cfg0 \<and> config_ok cfg"
  by (auto simp: Load_def validated_def validate_None gives_def apply_env_secrets
      split: if_splits sum.splits option.splits)

lemma defaults_ok: "config_ok (apply_env g defaults)"
  by (simp add: config_ok_def auth_ok_def frame_simps defaults_def time_Second_def)

text \<open>
  C24: \<^verbatim>\<open>Load\<close> returns exactly the coherent configurations. One that it returns is what the file at
  the path, decoded over the defaults, or without a path the defaults alone, comes to with the four
  secrets of the environment that are set in place of its own, and nothing else changed; and it is
  coherent: at least one worker, one buffer slot and one payload per batch, a positive flush interval, a
  known authentication mode that has its secret, a known queue backend and usable limits. It fails only
  with a path, and the error says which of three reasons there was and wraps it: the file cannot be read,
  it cannot be decoded, or what it comes to is not coherent.
\<close>

theorem Load_coherent:
  "case Load read_file decode yaml_unmarshal getenv path of
     Inr cfg \<Rightarrow> config_ok cfg \<and>
       (\<exists>cfg0. gives read_file (yaml_unmarshal (UnmarshalYAML decode)) path cfg0 \<and> cfg = with_secrets getenv cfg0)
   | Inl e \<Rightarrow> path \<noteq> [] \<and>
       (case read_file path of
          Inl cause \<Rightarrow> wraps e [Lit ''config: read '', Quoted path, Lit '': ''] cause
        | Inr data \<Rightarrow>
            (case yaml_unmarshal (UnmarshalYAML decode) data defaults of
               Inl cause \<Rightarrow> wraps e [Lit ''config: parse '', Quoted path, Lit '': ''] cause
             | Inr cfg0 \<Rightarrow> \<not> config_ok (with_secrets getenv cfg0) \<and>
                 (\<exists>cause. validate (with_secrets getenv cfg0) = Some cause \<and>
                   wraps e [Lit ''config: validation failed: ''] cause)))"
proof (cases "Load read_file decode yaml_unmarshal getenv path")
  case (Inl e)
  have "Load read_file decode yaml_unmarshal getenv [] = Inr (apply_env getenv defaults)"
    using defaults_ok [of getenv] by (simp add: Load_def validated_def validate_None [THEN iffD2])
  with Inl have "path \<noteq> []" by auto
  with Inl show ?thesis
    by (auto simp: Load_def validated_def apply_env_secrets simp flip: validate_None
        split: sum.splits option.splits)
next
  case (Inr cfg)
  from Load_Inr [OF Inr] show ?thesis unfolding Inr by auto
qed

theorem Load_coherent_witness:
  "Load (\<lambda>p. if p = ''c'' then Inr ''x'' else Inl (New_error ''missing''))
     (\<lambda>_ :: unit. Inr (0, []))
     (\<lambda>um data cfg. Inr (cfg\<lparr>Dispatcher := \<lparr>Workers = 2, BufferSize = 3\<rparr>, DLQ := \<lparr>Backend = ''log'', Target = data\<rparr>\<rparr>))
     (\<lambda>v. if v = ''XYLLO_API_KEY'' then ''k'' else []) ''c'' =
   Inr (defaults\<lparr>Dispatcher := \<lparr>Workers = 2, BufferSize = 3\<rparr>, DLQ := \<lparr>Backend = ''log'', Target = ''x''\<rparr>,
     Auth := (Auth defaults)\<lparr>APIKey := ''k''\<rparr>\<rparr>)" (is "Load ?read ?decode ?um ?env _ = Inr ?cfg")
proof -
  have cfg: "with_secrets ?env (defaults\<lparr>Dispatcher := \<lparr>Workers = 2, BufferSize = 3\<rparr>,
      DLQ := \<lparr>Backend = ''log'', Target = ''x''\<rparr>\<rparr>) = ?cfg"
    by (simp add: with_secrets_def set_or_def)
  moreover have "config_ok ?cfg" by (simp add: config_ok_def auth_ok_def defaults_def time_Second_def)
  ultimately show ?thesis
    using Load_coherent [where path = "''c''" and read_file = ?read and decode = ?decode and
        yaml_unmarshal = ?um and getenv = ?env] by (auto simp: gives_def split: sum.splits)
qed

text \<open>
  C25: the batcher section is decoded into zero values and copied over the defaults: a file whose
  batcher section leaves \<^verbatim>\<open>max_size\<close> out does not keep the default of 500 payloads per
  batch; loading it fails in validation.
\<close>

theorem partial_batcher_section:
  assumes "path \<noteq> []" and "read_file path = Inr data"
    and "\<And>um c. yaml_unmarshal um data c =
          (case um node (Batcher c) of (Some e, b) \<Rightarrow> Inl e | (None, b) \<Rightarrow> Inr (c\<lparr>Batcher := b\<rparr>))"
    and "decode node = Inr (0, flush_interval)" and "ParseDuration flush_interval = Inr d"
  shows "\<exists>e. Load read_file decode yaml_unmarshal getenv path = Inl e \<and>
    err_text e = [Lit ''config: validation failed: '', Lit ''batcher.max_size must be >= 1, got '', Dec 0]"
proof -
  have "\<exists>b. UnmarshalYAML decode node (Batcher defaults) = (None, b) \<and> MaxSize b = 0"
    using assms(4,5) by (simp add: UnmarshalYAML_def Let_def)
  then obtain b where b: "UnmarshalYAML decode node (Batcher defaults) = (None, b)" "MaxSize b = 0"
    by blast
  have "validate (apply_env getenv (defaults\<lparr>Batcher := b\<rparr>)) =
      Some (Errorf [Lit ''batcher.max_size must be >= 1, got '', Dec 0] None)"
    using b(2) by (simp add: validate_def frame_simps) (simp add: defaults_def)
  then show ?thesis
    using assms(1-3) b(1) by (simp add: Load_def validated_def errorf_w_def)
qed

theorem partial_batcher_section_witness:
  "\<exists>e. Load (\<lambda>_. Inr ''x'') (\<lambda>_. Inr (0, ''5s''))
        (\<lambda>um data c. case um () (Batcher c) of (Some e, b) \<Rightarrow> Inl e | (None, b) \<Rightarrow> Inr (c\<lparr>Batcher := b\<rparr>))
        (\<lambda>_. []) ''c'' = Inl e \<and>
    err_text e = [Lit ''config: validation failed: '', Lit ''batcher.max_size must be >= 1, got '', Dec 0]"
proof -
  have "ParseDuration ''5s'' = Inr 5000000000" by code_simp
  then show ?thesis by (intro partial_batcher_section [where node = "()"]) simp_all
qed

end
