(* ===== verification/Middleware.thy ===== *)
theory Middleware
  imports Metrics Xlerr
begin

text \<open>
  Package \<^verbatim>\<open>internal/middleware\<close>, file \<^verbatim>\<open>middleware.go\<close>, the chain: the \<^verbatim>\<open>Result\<close> that
  travels along it and the sequential run of the handlers. A handler is any function the caller
  supplies: it may change the result it is given, touch the process state and panic. The
  validators of the same file are in theory \<open>Schema\<close>, the rate limiter in theory \<open>Ratelimit\<close>.
\<close>

section \<open>Results, handlers, chains\<close>

record Result =
  Source :: bytes
  Data :: bytes
  Errors :: "bytes list"

type_synonym 'z handler = "Result \<Rightarrow> 'z env_scheme \<Rightarrow> error option call \<times> Result \<times> 'z env_scheme"

record 'z Chain =
  handlers :: "'z handler list"

definition NewChain :: "'z handler list \<Rightarrow> 'z Chain" where
  "NewChain hs = \<lparr>handlers = hs\<rparr>"

text \<open>The loop of \<^verbatim>\<open>Run\<close>: it stops at the first error, and a panic leaves it at once.\<close>

fun run_handlers :: "'z handler list \<Rightarrow> 'z handler" where
  "run_handlers [] r s = (Ret None, r, s)"
| "run_handlers (h # hs) r s =
     (case h r s of
        (Ret None, r', s') \<Rightarrow> run_handlers hs r' s'
      | (Ret (Some e), r', s') \<Rightarrow> (Ret (Some e), r', s')
      | (Panic m, r', s') \<Rightarrow> (Panic m, r', s'))"

definition Run :: "'z Chain \<Rightarrow> 'z handler" where
  "Run c = run_handlers (handlers c)"

section \<open>What a run does\<close>

lemma run_handlers_append:
  "run_handlers (hs @ ks) r s =
     (case run_handlers hs r s of
        (Ret None, r', s') \<Rightarrow> run_handlers ks r' s'
      | out \<Rightarrow> out)"
  by (induction hs arbitrary: r s) (auto split: prod.split call.split option.split)

text \<open>
  \<open>passes h r s\<close>: the handler lets the result through. The characteristic equations below
  replace the case analysis on its three outcomes.
\<close>

definition passes :: "'z handler \<Rightarrow> Result \<Rightarrow> 'z env_scheme \<Rightarrow> bool" where
  "passes h r s \<longleftrightarrow> fst (h r s) = Ret None"

lemma run_handlers_pass [step_simps]:
  "passes h r s \<Longrightarrow> run_handlers (h # hs) r s = run_handlers hs (fst (snd (h r s))) (snd (snd (h r s)))"
  by (cases "h r s") (auto simp: passes_def)

lemma run_handlers_stop [step_simps]: "\<not> passes h r s \<Longrightarrow> run_handlers (h # hs) r s = h r s"
  by (cases "h r s") (auto simp: passes_def split: call.split option.split)

lemma run_passes_iff:
  "passes (run_handlers (hs @ ks)) r s \<longleftrightarrow>
     passes (run_handlers hs) r s \<and>
     passes (run_handlers ks) (fst (snd (run_handlers hs r s))) (snd (snd (run_handlers hs r s)))"
  by (simp add: passes_def run_handlers_append split: prod.split call.split option.split)

text \<open>
  A pure handler: its verdict depends on the result only and it changes nothing. The two
  validators are pure; a chain of pure handlers reports the first complaint in order.
\<close>

definition pure_handler :: "(Result \<Rightarrow> error option) \<Rightarrow> 'z handler" where
  "pure_handler f r s = (Ret (f r), r, s)"

lemma run_pure:
  "run_handlers (map pure_handler fs) r s =
     (Ret (case find (\<lambda>f. f r \<noteq> None) fs of None \<Rightarrow> None | Some f \<Rightarrow> f r), r, s)"
  by (induction fs) (auto simp: pure_handler_def split: option.split)

text \<open>
  C20: the chain stops at the first handler that does not pass: the handlers before it have run,
  in order, each on the result and state the one before left, it has run, and none after it; the
  outcome of the run is its outcome. With no such handler every handler has run and the run
  returns nil.
\<close>

theorem chain_first_failure:
  "(passes (run_handlers hs) r s \<longrightarrow>
      run_handlers (hs @ h # ks) r s =
        (let r' = fst (snd (run_handlers hs r s)); s' = snd (snd (run_handlers hs r s))
         in if passes h r' s' then run_handlers ks (fst (snd (h r' s'))) (snd (snd (h r' s')))
            else h r' s')) \<and>
   (\<not> passes (run_handlers hs) r s \<longrightarrow> run_handlers (hs @ h # ks) r s = run_handlers hs r s)"
proof (intro conjI impI)
  assume "passes (run_handlers hs) r s"
  then obtain r' s' where "run_handlers hs r s = (Ret None, r', s')"
    by (cases "run_handlers hs r s") (auto simp: passes_def)
  then show "run_handlers (hs @ h # ks) r s =
        (let r' = fst (snd (run_handlers hs r s)); s' = snd (snd (run_handlers hs r s))
         in if passes h r' s' then run_handlers ks (fst (snd (h r' s'))) (snd (snd (h r' s')))
            else h r' s')"
    by (simp add: run_handlers_append run_handlers_pass run_handlers_stop Let_def
        del: run_handlers.simps)
next
  assume "\<not> passes (run_handlers hs) r s"
  then show "run_handlers (hs @ h # ks) r s = run_handlers hs r s"
    by (cases "run_handlers hs r s")
      (auto simp: run_handlers_append passes_def split: call.split option.split)
qed

theorem chain_first_failure_witness:
  "let h0 = pure_handler (\<lambda>_. None); h1 = pure_handler (\<lambda>_. Some (New_error ''bad''));
       h2 = (\<lambda>r s. (Panic ''never reached'', r, s));
       r = \<lparr>Source = ''src'', Data = ''{}'', Errors = []\<rparr>;
       s = \<lparr>active = nopProvider, clock = 0, log_lines = []\<rparr>
   in run_handlers [h0, h1, h2] r s = (Ret (Some (New_error ''bad'')), r, s)"
proof -
  let ?h0 = "pure_handler (\<lambda>_. None)" and ?h1 = "pure_handler (\<lambda>_. Some (New_error ''bad''))"
  let ?h2 = "\<lambda>r s. (Panic ''never reached'', r, s)"
  let ?r = "\<lparr>Source = ''src'', Data = ''{}'', Errors = []\<rparr>"
  let ?s = "\<lparr>active = nopProvider, clock = 0, log_lines = []\<rparr>"
  have "passes (run_handlers [?h0]) ?r ?s" by (simp add: passes_def pure_handler_def)
  with chain_first_failure [of "[?h0]" ?r ?s ?h1 "[?h2]"] show ?thesis
    by (simp add: pure_handler_def passes_def Let_def)
qed

end
