(* ===== verification/Ratelimit.thy ===== *)
theory Ratelimit
  imports Middleware Config Float64
begin

text \<open>
  Package \<^verbatim>\<open>internal/middleware\<close>, file \<^verbatim>\<open>ratelimit.go\<close>: a token bucket per source. The
  \<^verbatim>\<open>float64\<close> fields of a bucket are rationals and every arithmetic operation of the code is
  followed by the rounding \<open>f64\<close>; times are readings of the monotonic clock in nanoseconds. The
  buckets of the limiter are part of the process state the handlers thread (\<open>rl_env\<close>), since
  the handler \<^verbatim>\<open>Middleware\<close> returns is a closure over the limiter.
\<close>

section \<open>Buckets\<close>

record bucket =
  tokens :: rat
  capacity :: rat
  rate :: rat
  lastFill :: int

definition newBucket :: "RateLimitConfig \<Rightarrow> int \<Rightarrow> bucket" where
  "newBucket cfg now =
     (let cap = f64 (of_int (BurstSize cfg))
      in \<lparr>tokens = cap, capacity = cap, rate = f64 (of_int (RequestsPerSecond cfg)),
          lastFill = now\<rparr>)"

text \<open>\<^verbatim>\<open>Time.Sub\<close> saturates, \<^verbatim>\<open>Duration.Seconds\<close> splits off the whole seconds first.\<close>

definition time_Sub :: "int \<Rightarrow> int \<Rightarrow> int" where
  "time_Sub t u = max int64_min (min int64_max (t - u))"

definition duration_Seconds :: "int \<Rightarrow> rat" where
  "duration_Seconds d =
     f64 (f64 (of_int (go_div d time_Second)) +
          f64 (f64 (of_int (go_mod d time_Second)) / 1000000000))"

definition refill :: "bucket \<Rightarrow> int \<Rightarrow> rat" where
  "refill b now =
     (let elapsed = duration_Seconds (time_Sub now (lastFill b));
          t = f64 (tokens b + f64 (elapsed * rate b))
      in if capacity b < t then capacity b else t)"

definition allow :: "bucket \<Rightarrow> int \<Rightarrow> bool \<times> bucket" where
  "allow b now =
     (let t = refill b now
      in if t < 1 then (False, b\<lparr>lastFill := now, tokens := t\<rparr>)
         else (True, b\<lparr>lastFill := now, tokens := f64 (t - 1)\<rparr>))"

section \<open>The limiter\<close>

record rl_env = env +
  buckets :: "bytes \<rightharpoonup> bucket"

definition NewRateLimiter :: "'z rl_env_scheme \<Rightarrow> 'z rl_env_scheme" where
  "NewRateLimiter s = s\<lparr>buckets := Map.empty\<rparr>"

definition bucketFor ::
  "RateLimitConfig \<Rightarrow> bytes \<Rightarrow> int \<Rightarrow> (bytes \<rightharpoonup> bucket) \<Rightarrow> bucket \<times> (bytes \<rightharpoonup> bucket)" where
  "bucketFor cfg source now m =
     (case m source of
        Some b \<Rightarrow> (b, m)
      | None \<Rightarrow> (let b = newBucket cfg now in (b, m(source \<mapsto> b))))"

text \<open>
  \<open>take_token\<close> is the first half of the handler: the bucket of the source, then \<^verbatim>\<open>allow\<close> on
  it, which changes the bucket the map points to.
\<close>

definition take_token ::
  "RateLimitConfig \<Rightarrow> bytes \<Rightarrow> int \<Rightarrow> (bytes \<rightharpoonup> bucket) \<Rightarrow> bool \<times> (bytes \<rightharpoonup> bucket)" where
  "take_token cfg source now m =
     (let (b, m1) = bucketFor cfg source now m; (ok, b') = allow b now
      in (ok, m1(source \<mapsto> b')))"

definition rate_limited_error :: "bytes \<Rightarrow> error" where
  "rate_limited_error source = Errorf [Lit ''rate limit exceeded for source '', Quoted source] None"

definition rl_Middleware :: "RateLimitConfig \<Rightarrow> Result \<Rightarrow> 'z rl_env_scheme \<Rightarrow>
    error option call \<times> Result \<times> 'z rl_env_scheme" where
  "rl_Middleware cfg r s =
     (let (ok, m) = take_token cfg (Source r) (clock s) (buckets s); s1 = s\<lparr>buckets := m\<rparr>
      in if \<not> ok then
           (case RecordRateLimited (Source r) s1 of
              (Ret _, s2) \<Rightarrow> (Ret (Some (rate_limited_error (Source r))), r, s2)
            | (Panic e, s2) \<Rightarrow> (Panic e, r, s2))
         else (Ret None, r, s1))"

section \<open>The invariant of a bucket\<close>

definition bucket_ok :: "RateLimitConfig \<Rightarrow> bucket \<Rightarrow> bool" where
  "bucket_ok cfg b \<longleftrightarrow>
     0 \<le> tokens b \<and> tokens b \<le> capacity b \<and> is_f64 (tokens b) \<and>
     capacity b = f64 (of_int (BurstSize cfg)) \<and> rate b = f64 (of_int (RequestsPerSecond cfg))"

definition limits_ok :: "RateLimitConfig \<Rightarrow> bool" where
  "limits_ok cfg \<longleftrightarrow> 1 \<le> RequestsPerSecond cfg \<and> 1 \<le> BurstSize cfg"

lemma time_Sub_nonneg: "u \<le> t \<Longrightarrow> 0 \<le> time_Sub t u"
  by (simp add: time_Sub_def int64_max_def)

lemma duration_Seconds_nonneg: "0 \<le> d \<Longrightarrow> 0 \<le> duration_Seconds d"
  by (simp add: duration_Seconds_def go_div_nonneg go_mod_nonneg time_Second_def f64_nonneg
      pos_imp_zdiv_nonneg_iff)

lemma duration_Seconds_0 [simp]: "duration_Seconds 0 = 0"
  by (simp add: duration_Seconds_def go_div_def go_mod_def)

lemma newBucket_ok [inv_intros]: "limits_ok cfg \<Longrightarrow> bucket_ok cfg (newBucket cfg now)"
  by (simp add: bucket_ok_def newBucket_def limits_ok_def f64_nonneg Let_def)

lemma newBucket_lastFill [simp]: "lastFill (newBucket cfg now) = now"
  by (simp add: newBucket_def Let_def)

lemma refill_ok:
  assumes "bucket_ok cfg b" and "limits_ok cfg" and "lastFill b \<le> now"
  shows "tokens b \<le> refill b now" and "refill b now \<le> capacity b" and "is_f64 (refill b now)"
proof -
  have "0 \<le> rate b" using assms by (simp add: bucket_ok_def limits_ok_def f64_nonneg)
  then have "0 \<le> f64 (duration_Seconds (time_Sub now (lastFill b)) * rate b)"
    using assms by (simp add: f64_nonneg duration_Seconds_nonneg time_Sub_nonneg)
  then show "tokens b \<le> refill b now" "refill b now \<le> capacity b" "is_f64 (refill b now)"
    using assms(1) by (auto simp: refill_def Let_def bucket_ok_def intro: f64_ge)
qed

lemma allow_ok [inv_intros]:
  assumes "bucket_ok cfg b" and "limits_ok cfg" and "lastFill b \<le> now"
  shows "bucket_ok cfg (snd (allow b now))"
proof -
  note r = refill_ok [OF assms]
  have "0 \<le> refill b now" using r(1) assms(1) by (simp add: bucket_ok_def)
  moreover have "f64 (refill b now - 1) \<le> capacity b" if "1 \<le> refill b now"
    using that r(2) assms(1) by (intro f64_le) (simp_all add: bucket_ok_def)
  ultimately show ?thesis
    using r assms(1) by (auto simp: allow_def Let_def bucket_ok_def f64_nonneg)
qed

lemma allow_lastFill [simp]: "lastFill (snd (allow b now)) = now"
  by (simp add: allow_def Let_def)

text \<open>The buckets of a limiter at a time: every one is sound and was last filled in the past.\<close>

definition limiter_ok :: "RateLimitConfig \<Rightarrow> int \<Rightarrow> (bytes \<rightharpoonup> bucket) \<Rightarrow> bool" where
  "limiter_ok cfg now m \<longleftrightarrow> (\<forall>src b. m src = Some b \<longrightarrow> bucket_ok cfg b \<and> lastFill b \<le> now)"

lemma limiter_ok_empty [inv_intros]: "limiter_ok cfg now Map.empty"
  by (simp add: limiter_ok_def)

lemma limiter_ok_later [inv_intros]: "limiter_ok cfg t m \<Longrightarrow> t \<le> u \<Longrightarrow> limiter_ok cfg u m"
  by (fastforce simp: limiter_ok_def)

definition bucket_of :: "RateLimitConfig \<Rightarrow> bytes \<Rightarrow> int \<Rightarrow> (bytes \<rightharpoonup> bucket) \<Rightarrow> bucket" where
  "bucket_of cfg source now m = (case m source of Some b \<Rightarrow> b | None \<Rightarrow> newBucket cfg now)"

lemma bucket_of_empty [simp]: "bucket_of cfg source now Map.empty = newBucket cfg now"
  by (simp add: bucket_of_def)

lemma take_token_eq [step_simps]:
  "take_token cfg source now m =
     (fst (allow (bucket_of cfg source now m) now),
      m(source \<mapsto> snd (allow (bucket_of cfg source now m) now)))"
  by (simp add: take_token_def bucketFor_def bucket_of_def Let_def split_beta split: option.split)

lemma bucket_of_ok:
  "limiter_ok cfg now m \<Longrightarrow> limits_ok cfg \<Longrightarrow>
     bucket_ok cfg (bucket_of cfg source now m) \<and> lastFill (bucket_of cfg source now m) \<le> now"
  by (auto simp: limiter_ok_def bucket_of_def newBucket_ok split: option.split)

lemma take_token_ok [inv_intros]:
  "limiter_ok cfg now m \<Longrightarrow> limits_ok cfg \<Longrightarrow> limiter_ok cfg now (snd (take_token cfg source now m))"
  using bucket_of_ok [of cfg now m source] allow_ok [of cfg "bucket_of cfg source now m" now]
  by (auto simp: take_token_eq limiter_ok_def)

section \<open>Sequences of requests\<close>

text \<open>
  \<open>allow_many b ts\<close>: the verdicts of one bucket asked at the times \<open>ts\<close>. \<open>rl_run\<close>: those of
  the limiter for a sequence of requests, each a source and a time.
\<close>

fun allow_many :: "bucket \<Rightarrow> int list \<Rightarrow> bool list" where
  "allow_many b [] = []"
| "allow_many b (t # ts) = fst (allow b t) # allow_many (snd (allow b t)) ts"

fun rl_run :: "RateLimitConfig \<Rightarrow> (bytes \<times> int) list \<Rightarrow> (bytes \<rightharpoonup> bucket) \<Rightarrow> bool list \<times> (bytes \<rightharpoonup> bucket)" where
  "rl_run cfg [] m = ([], m)"
| "rl_run cfg ((source, now) # reqs) m =
     (let (ok, m') = take_token cfg source now m; (oks, m'') = rl_run cfg reqs m'
      in (ok # oks, m''))"

fun verdicts_for :: "bytes \<Rightarrow> (bytes \<times> int) list \<Rightarrow> bool list \<Rightarrow> bool list" where
  "verdicts_for source ((src, now) # reqs) (ok # oks) =
     (if src = source then ok # verdicts_for source reqs oks else verdicts_for source reqs oks)"
| "verdicts_for source _ _ = []"

definition times_of :: "bytes \<Rightarrow> (bytes \<times> int) list \<Rightarrow> int list" where
  "times_of source reqs = map snd (filter (\<lambda>r. fst r = source) reqs)"

lemma rl_run_ok:
  "limiter_ok cfg t m \<Longrightarrow> limits_ok cfg \<Longrightarrow> sorted (map snd reqs) \<Longrightarrow> \<forall>r \<in> set reqs. t \<le> snd r \<Longrightarrow>
   u = (if reqs = [] then t else snd (last reqs)) \<Longrightarrow> limiter_ok cfg u (snd (rl_run cfg reqs m))"
proof (induction reqs arbitrary: t m)
  case (Cons r reqs)
  obtain source now where r: "r = (source, now)" by fastforce
  have "limiter_ok cfg now (snd (take_token cfg source now m))"
    using Cons.prems r by (auto intro: take_token_ok limiter_ok_later)
  from Cons.IH [OF this Cons.prems(2)] Cons.prems r show ?case
    by (auto simp: split_beta Let_def)
qed simp

lemma verdicts_own_bucket:
  "verdicts_for source reqs (fst (rl_run cfg reqs m)) =
     (case times_of source reqs of
        [] \<Rightarrow> []
      | t # ts \<Rightarrow> allow_many (bucket_of cfg source t m) (t # ts))"
proof (induction reqs arbitrary: m)
  case Nil
  then show ?case by (simp add: times_of_def)
next
  case (Cons r reqs)
  obtain src now where r: "r = (src, now)" by fastforce
  define b where "b = bucket_of cfg src now m"
  define m' where "m' = m(src \<mapsto> snd (allow b now))"
  have run: "fst (rl_run cfg (r # reqs) m) = fst (allow b now) # fst (rl_run cfg reqs m')"
    by (simp add: r split_beta Let_def take_token_eq b_def m'_def)
  show ?case
  proof (cases "src = source")
    case True
    then have "bucket_of cfg source t m' = snd (allow b now)" for t
      by (simp add: m'_def bucket_of_def)
    with True Cons.IH [of m'] show ?thesis
      unfolding run by (auto simp: r times_of_def b_def split: list.splits)
  next
    case False
    then have "bucket_of cfg source t m' = bucket_of cfg source t m" for t
      by (simp add: m'_def bucket_of_def)
    with False Cons.IH [of m'] show ?thesis unfolding run
      by (auto simp: r times_of_def split: list.split)
  qed
qed

lemma limiter_run_own:
  "\<forall>r \<in> set reqs. fst r = source \<Longrightarrow>
   fst (rl_run cfg reqs Map.empty) =
     (case map snd reqs of [] \<Rightarrow> [] | t # ts \<Rightarrow> allow_many (newBucket cfg t) (t # ts))"
proof -
  assume own: "\<forall>r \<in> set reqs. fst r = source"
  have all: "length oks = length rs \<Longrightarrow> \<forall>r \<in> set rs. fst r = source \<Longrightarrow>
      verdicts_for source rs oks = oks" for rs oks
    by (induction source rs oks rule: verdicts_for.induct) auto
  have len: "length (fst (rl_run cfg rs m)) = length rs" for rs m
    by (induction rs arbitrary: m) (auto simp: split_beta Let_def)
  have "times_of source reqs = map snd reqs" using own by (simp add: times_of_def)
  with verdicts_own_bucket [of source reqs cfg Map.empty] all [OF len own] show ?thesis
    by (simp split: list.split)
qed

text \<open>Without time passing, a bucket with \<open>k\<close> whole tokens lets exactly \<open>k\<close> requests through.\<close>

lemma refill_now:
  "bucket_ok cfg b \<Longrightarrow> lastFill b = now \<Longrightarrow> refill b now = tokens b"
  by (simp add: refill_def bucket_ok_def Let_def time_Sub_def int64_max_def int64_min_def f64_id)

lemma allow_many_burst:
  assumes "bucket_ok cfg b" and "limits_ok cfg" and "lastFill b = now"
    and "tokens b = of_int k" and "0 \<le> k" and "k \<le> 2 ^ 53"
  shows "allow_many b (replicate n now) =
           replicate (min n (nat k)) True @ replicate (n - nat k) False"
  using assms
proof (induction n arbitrary: b k)
  case (Suc n)
  have t: "refill b now = of_int k" using refill_now [OF Suc.prems(1,3)] Suc.prems(4) by simp
  have ok: "bucket_ok cfg (snd (allow b now))" using allow_ok [OF Suc.prems(1,2)] Suc.prems(3) by simp
  show ?case
  proof (cases "k = 0")
    case True
    with t have "allow b now = (False, b\<lparr>lastFill := now, tokens := 0\<rparr>)" by (simp add: allow_def)
    with Suc.IH [of "snd (allow b now)" 0] ok Suc.prems True show ?thesis by simp
  next
    case False
    with Suc.prems have k: "1 \<le> k" by linarith
    have "f64 (of_int k - 1) = of_int (k - 1)"
      using f64_of_int [of "k - 1"] Suc.prems k by simp
    with t k have "allow b now = (True, b\<lparr>lastFill := now, tokens := of_int (k - 1)\<rparr>)"
      by (simp add: allow_def)
    moreover have "nat k = Suc (nat (k - 1))" using k by simp
    ultimately show ?thesis
      using Suc.IH [of "snd (allow b now)" "k - 1"] ok Suc.prems k by simp
  qed
qed simp

text \<open>
  Over a span of time. \<open>eps\<close> is the relative error of one rounding; an elapsed time goes through
  three of them before it is a number of tokens, and the sum through one more, which the cap keeps
  below \<open>capacity * eps\<close>.
\<close>

definition eps :: rat where "eps = 1 / 2 ^ 53"

lemma eps_pos: "0 < eps" "eps \<le> 1"
  by (simp_all add: eps_def)

lemma f64_rel_eps:
  assumes "x = 0 \<or> 1 / 2 ^ 30 \<le> x"
  shows "f64 x \<le> x * (1 + eps)" and "x * (1 - eps) \<le> f64 x"
proof -
  have "x = 0 \<or> 1 / 2 ^ 1000 \<le> x" using assms by (auto intro: order_trans [of _ "1 / 2 ^ 30"])
  from f64_rel [OF this] show "f64 x \<le> x * (1 + eps)" "x * (1 - eps) \<le> f64 x" by (simp_all add: eps_def)
qed

lemma is_f64_2_30: "is_f64 (1 / 2 ^ 30)"
  unfolding is_f64_def
  by (rule exI [of _ 1], rule exI [of _ "- 30"]) (simp add: power_int_minus inverse_eq_divide)

lemma f64_ge_2_30: "1 / 2 ^ 30 \<le> x \<Longrightarrow> 1 / 2 ^ 30 \<le> f64 x"
  using f64_ge [OF _ _ is_f64_2_30] by simp

lemma seconds_bound:
  assumes "0 < d" and "d \<le> int64_max"
  shows "1 / 2 ^ 30 \<le> duration_Seconds d"
    and "duration_Seconds d \<le> of_int d / 1000000000 * (1 + eps) ^ 2"
    and "of_int d / 1000000000 * (1 - eps) ^ 2 \<le> duration_Seconds d"
proof -
  define sec ns where "sec = d div time_Second" and "ns = d mod time_Second"
  have d: "d = 1000000000 * sec + ns" "0 \<le> sec" "0 \<le> ns" "ns < 1000000000"
    using assms by (auto simp: sec_def ns_def time_Second_def pos_imp_zdiv_nonneg_iff)
  have exact: "f64 (of_int sec) = of_int sec" "f64 (of_int ns) = of_int ns"
    using d assms by (auto simp: int64_max_def intro!: f64_of_int)
  define q where "q = f64 (of_int ns / 1000000000)"
  have s: "duration_Seconds d = f64 (of_int sec + q)"
    using assms by (simp add: duration_Seconds_def go_div_nonneg go_mod_nonneg time_Second_def
        sec_def ns_def q_def exact [unfolded sec_def ns_def time_Second_def])
  have ns0: "ns = 0 \<or> (1 / 2 ^ 30 :: rat) \<le> of_int ns / 1000000000"
  proof (cases "ns = 0")
    case False
    with d have "(1::rat) \<le> of_int ns" by simp
    then show ?thesis by simp
  qed simp
  then have q: "q \<le> of_int ns / 1000000000 * (1 + eps)" "of_int ns / 1000000000 * (1 - eps) \<le> q"
    unfolding q_def by (intro f64_rel_eps; auto)+
  have q_low: "ns = 0 \<or> 1 / 2 ^ 30 \<le> q" using ns0 f64_ge_2_30 by (auto simp: q_def)
  have q0: "0 \<le> q" unfolding q_def using d by (intro f64_nonneg) simp
  have low: "1 / 2 ^ 30 \<le> of_int sec + q"
  proof (cases "sec = 0")
    case True
    with d assms q_low show ?thesis by simp
  next
    case False
    with d have "(1::rat) \<le> of_int sec" by simp
    moreover have "(1 / 2 ^ 30 :: rat) \<le> 1" by simp
    ultimately show ?thesis using q0 by linarith
  qed
  then show "1 / 2 ^ 30 \<le> duration_Seconds d" unfolding s by (rule f64_ge_2_30)
  have split: "(of_int d :: rat) / 1000000000 = of_int sec + of_int ns / 1000000000" using d(1) by simp
  have sec: "of_int sec \<le> of_int sec * (1 + eps)" "of_int sec * (1 - eps) \<le> of_int sec"
    using d eps_pos by (simp_all add: algebra_simps)
  have sum: "of_int sec + q \<le> of_int d / 1000000000 * (1 + eps)"
      "of_int d / 1000000000 * (1 - eps) \<le> of_int sec + q"
    using q sec unfolding split distrib_right by linarith+
  have "duration_Seconds d \<le> (of_int sec + q) * (1 + eps)"
    unfolding s using low by (intro f64_rel_eps) simp
  also have "\<dots> \<le> of_int d / 1000000000 * (1 + eps) * (1 + eps)"
    using sum(1) eps_pos by (intro mult_right_mono) simp_all
  finally show "duration_Seconds d \<le> of_int d / 1000000000 * (1 + eps) ^ 2"
    by (simp add: power2_eq_square mult.assoc)
  have "of_int d / 1000000000 * (1 - eps) * (1 - eps) \<le> (of_int sec + q) * (1 - eps)"
    using sum(2) eps_pos by (intro mult_right_mono) simp_all
  also have "\<dots> \<le> duration_Seconds d" unfolding s using low by (intro f64_rel_eps) simp
  finally show "of_int d / 1000000000 * (1 - eps) ^ 2 \<le> duration_Seconds d"
    by (simp add: power2_eq_square mult.assoc)
qed

lemma rate_ge_1:
  assumes "bucket_ok cfg b" and "limits_ok cfg"
  shows "1 \<le> rate b"
proof -
  have "(1::rat) \<le> of_int (RequestsPerSecond cfg)" using assms(2) by (simp add: limits_ok_def)
  then have "1 \<le> f64 (of_int (RequestsPerSecond cfg))"
    using f64_ge [of 1] is_f64_of_int [of 1] by simp
  then show ?thesis using assms(1) by (simp add: bucket_ok_def)
qed

text \<open>What a refill adds before the cap.\<close>

lemma amount_bound:
  assumes "0 \<le> d" and "d \<le> int64_max" and "1 \<le> q"
  shows "f64 (duration_Seconds d * q) \<le> of_int d / 1000000000 * q * (1 + eps) ^ 3"
    and "of_int d / 1000000000 * q * (1 - eps) ^ 3 \<le> f64 (duration_Seconds d * q)"
    and "f64 (duration_Seconds d * q) = 0 \<or> 1 / 2 ^ 30 \<le> f64 (duration_Seconds d * q)"
proof (atomize (full), cases "d = 0")
  case False
  with assms have sb: "1 / 2 ^ 30 \<le> duration_Seconds d"
      "duration_Seconds d \<le> of_int d / 1000000000 * (1 + eps) ^ 2"
      "of_int d / 1000000000 * (1 - eps) ^ 2 \<le> duration_Seconds d"
    using seconds_bound [of d] by simp_all
  have low: "1 / 2 ^ 30 * 1 \<le> duration_Seconds d * q"
    using sb(1) assms(3) by (intro mult_mono) auto
  have "f64 (duration_Seconds d * q) \<le> duration_Seconds d * q * (1 + eps)"
    using low by (intro f64_rel_eps) simp
  also have "\<dots> \<le> of_int d / 1000000000 * (1 + eps) ^ 2 * q * (1 + eps)"
    using sb(2) assms(3) eps_pos by (intro mult_right_mono) auto
  finally have up: "f64 (duration_Seconds d * q) \<le> of_int d / 1000000000 * q * (1 + eps) ^ 3"
    by (simp add: power2_eq_square power3_eq_cube mult_ac)
  have "of_int d / 1000000000 * (1 - eps) ^ 2 * q * (1 - eps) \<le> duration_Seconds d * q * (1 - eps)"
    using sb(3) assms(3) eps_pos by (intro mult_right_mono) auto
  also have "\<dots> \<le> f64 (duration_Seconds d * q)" using low by (intro f64_rel_eps) simp
  finally have "of_int d / 1000000000 * q * (1 - eps) ^ 3 \<le> f64 (duration_Seconds d * q)"
    by (simp add: power2_eq_square power3_eq_cube mult_ac)
  with up low show "f64 (duration_Seconds d * q) \<le> of_int d / 1000000000 * q * (1 + eps) ^ 3 \<and>
      of_int d / 1000000000 * q * (1 - eps) ^ 3 \<le> f64 (duration_Seconds d * q) \<and>
      (f64 (duration_Seconds d * q) = 0 \<or> 1 / 2 ^ 30 \<le> f64 (duration_Seconds d * q))"
    using f64_ge_2_30 by simp
qed simp

text \<open>
  What a bucket gains between its last refill and a time, in exact arithmetic, and the tokens it has
  after the refill: the old ones and the gain, up to the roundings, but never more than its capacity.
\<close>

definition gained :: "bucket \<Rightarrow> int \<Rightarrow> rat" where
  "gained b now = of_int (min int64_max (now - lastFill b)) / 1000000000 * rate b"

lemma refill_near:
  assumes ok: "bucket_ok cfg b" and lim: "limits_ok cfg" and past: "lastFill b \<le> now"
  shows "refill b now \<le> min (capacity b) ((tokens b + gained b now * (1 + eps) ^ 3) * (1 + eps))"
    and "min (capacity b) ((tokens b + gained b now * (1 - eps) ^ 3) * (1 - eps)) \<le> refill b now"
proof -
  define d where "d = time_Sub now (lastFill b)"
  define r where "r = f64 (duration_Seconds d * rate b)"
  have d: "0 \<le> d" "d \<le> int64_max"
    using past by (auto simp: d_def time_Sub_def int64_max_def int64_min_def)
  have g: "gained b now = of_int d / 1000000000 * rate b"
    using past by (simp add: gained_def d_def time_Sub_def int64_max_def int64_min_def)
  note r = amount_bound [OF d rate_ge_1 [OF ok lim], folded r_def g]
  have t: "0 \<le> tokens b" using ok by (simp add: bucket_ok_def)
  have ref: "refill b now = min (capacity b) (f64 (tokens b + r))"
    by (simp add: refill_def Let_def r_def d_def)
  have near: "f64 (tokens b + r) \<le> (tokens b + r) * (1 + eps) \<and> (tokens b + r) * (1 - eps) \<le> f64 (tokens b + r)"
  proof (cases "r = 0")
    case True
    with ok t eps_pos show ?thesis by (simp add: bucket_ok_def f64_id algebra_simps)
  next
    case False
    with r(3) t have "1 / 2 ^ 30 \<le> tokens b + r" by simp
    then show ?thesis by (simp add: f64_rel_eps)
  qed
  have "(tokens b + r) * (1 + eps) \<le> (tokens b + gained b now * (1 + eps) ^ 3) * (1 + eps)"
    using r(1) eps_pos by (intro mult_right_mono) simp_all
  moreover have "(tokens b + gained b now * (1 - eps) ^ 3) * (1 - eps) \<le> (tokens b + r) * (1 - eps)"
    using r(2) eps_pos by (intro mult_right_mono) simp_all
  ultimately show "refill b now \<le> min (capacity b) ((tokens b + gained b now * (1 + eps) ^ 3) * (1 + eps))"
      "min (capacity b) ((tokens b + gained b now * (1 - eps) ^ 3) * (1 - eps)) \<le> refill b now"
    using near unfolding ref by linarith+
qed

lemma refill_bound:
  assumes ok: "bucket_ok cfg b" and lim: "limits_ok cfg" and past: "lastFill b \<le> now"
  shows "refill b now \<le> tokens b + of_int (now - lastFill b) / 1000000000 * rate b * (1 + eps) ^ 3
           + capacity b * eps"
proof -
  define y where "y = tokens b + gained b now * (1 + eps) ^ 3"
  have "refill b now \<le> min (capacity b) (y * (1 + eps))"
    unfolding y_def by (rule refill_near [OF assms])
  also have "\<dots> \<le> y + capacity b * eps"
  proof (cases "y \<le> capacity b")
    case True
    then have "y * eps \<le> capacity b * eps" using eps_pos by (intro mult_right_mono) simp_all
    then show ?thesis by (simp add: distrib_left min_le_iff_disj)
  next
    case False
    have "0 \<le> capacity b * eps" using ok eps_pos by (simp add: bucket_ok_def)
    with False show ?thesis by (simp add: min_le_iff_disj)
  qed
  also have "y \<le> tokens b + of_int (now - lastFill b) / 1000000000 * rate b * (1 + eps) ^ 3"
  proof -
    have "(of_int (min int64_max (now - lastFill b)) :: rat) \<le> of_int (now - lastFill b)" by simp
    then show ?thesis
      using rate_ge_1 [OF ok lim] eps_pos unfolding y_def gained_def
      by (intro add_left_mono mult_right_mono divide_right_mono) auto
  qed
  finally show ?thesis by simp
qed

lemma allow_eq:
  assumes "bucket_ok cfg b" and "limits_ok cfg" and "lastFill b \<le> now" and "capacity b \<le> 2 ^ 53"
  shows "allow b now = (1 \<le> refill b now,
    b\<lparr>lastFill := now, tokens := (if 1 \<le> refill b now then refill b now - 1 else refill b now)\<rparr>)"
proof -
  note r = refill_ok [OF assms(1-3)]
  have "f64 (refill b now - 1) = refill b now - 1" if "1 \<le> refill b now"
    using that r assms(4) by (intro f64_id is_f64_minus_one) auto
  then show ?thesis by (simp add: allow_def Let_def)
qed

lemma allow_spends:
  assumes "bucket_ok cfg b" and "limits_ok cfg" and "lastFill b \<le> now" and "capacity b \<le> 2 ^ 53"
  shows "tokens (snd (allow b now)) + (if fst (allow b now) then 1 else 0) = refill b now"
  by (simp add: allow_eq [OF assms])

lemma allow_many_bound:
  assumes "bucket_ok cfg b" and "limits_ok cfg" and "BurstSize cfg \<le> 2 ^ 53"
    and "sorted (lastFill b # ts)"
  shows "of_nat (length (filter id (allow_many b ts))) \<le>
           tokens b + of_int (last (lastFill b # ts) - lastFill b) / 1000000000 * rate b * (1 + eps) ^ 3
           + of_nat (length ts) * (capacity b * eps)"
  using assms
proof (induction ts arbitrary: b)
  case Nil
  then show ?case by (simp add: bucket_ok_def)
next
  case (Cons t ts)
  let ?b = "snd (allow b t)" and ?K = "(1 + eps) ^ 3"
  have past: "lastFill b \<le> t" using Cons.prems(4) by simp
  have ok: "bucket_ok cfg ?b" by (rule allow_ok [OF Cons.prems(1,2) past])
  have same: "rate ?b = rate b" "capacity ?b = capacity b" by (simp_all add: allow_def Let_def)
  have cap: "capacity b \<le> 2 ^ 53"
    using Cons.prems(1-3) f64_of_int [of "BurstSize cfg"] by (simp add: bucket_ok_def limits_ok_def)
  have srt: "sorted (lastFill ?b # ts)" using Cons.prems(4) by simp
  have span: "(of_int (last (t # ts) - lastFill b) :: rat) =
      of_int (t - lastFill b) + of_int (last (t # ts) - t)" by simp
  have "of_nat (length (filter id (allow_many b (t # ts)))) =
      (if fst (allow b t) then 1 else 0) + of_nat (length (filter id (allow_many ?b ts)))" by simp
  also have "\<dots> \<le> (if fst (allow b t) then 1 else 0) + (tokens ?b +
      of_int (last (t # ts) - t) / 1000000000 * rate b * ?K + of_nat (length ts) * (capacity b * eps))"
    using Cons.IH [OF ok Cons.prems(2,3) srt] unfolding same allow_lastFill by linarith
  also have "\<dots> = refill b t +
      of_int (last (t # ts) - t) / 1000000000 * rate b * ?K + of_nat (length ts) * (capacity b * eps)"
    using allow_spends [OF Cons.prems(1,2) past cap] by linarith
  also have "\<dots> \<le> tokens b + of_int (t - lastFill b) / 1000000000 * rate b * ?K + capacity b * eps +
      of_int (last (t # ts) - t) / 1000000000 * rate b * ?K + of_nat (length ts) * (capacity b * eps)"
    using refill_bound [OF Cons.prems(1,2) past] by linarith
  also have "\<dots> = tokens b + of_int (last (t # ts) - lastFill b) / 1000000000 * rate b * ?K +
      of_nat (length (t # ts)) * (capacity b * eps)"
  proof -
    have e: "(x + y) / 1000000000 * r * k = x / 1000000000 * r * k + y / 1000000000 * r * k"
      for x y r k :: rat by (simp add: add_divide_distrib distrib_right)
    have n: "of_nat (length (t # ts)) * c = c + of_nat (length ts) * c" for c :: rat
      by (simp add: distrib_right)
    show ?thesis unfolding span e n by (simp only: add_ac)
  qed
  finally show ?case unfolding last_ConsR [OF list.distinct(2)] .
qed

section \<open>One request\<close>

lemma exact_limits:
  assumes "limits_ok cfg" and "BurstSize cfg \<le> 2 ^ 53" and "RequestsPerSecond cfg \<le> 2 ^ 53"
  shows "f64 (of_int (BurstSize cfg)) = of_int (BurstSize cfg)"
    and "f64 (of_int (RequestsPerSecond cfg)) = of_int (RequestsPerSecond cfg)"
  using assms by (auto simp: limits_ok_def intro: f64_of_int)

text \<open>The level of a source: the tokens it may count on at a time, within the roundings.\<close>

definition level_near :: "RateLimitConfig \<Rightarrow> int \<Rightarrow> bucket option \<Rightarrow> rat \<Rightarrow> bool" where
  "level_near cfg now ob level \<longleftrightarrow>
     (case ob of
        None \<Rightarrow> level = of_int (BurstSize cfg)
      | Some b \<Rightarrow>
          (let gain = of_int (min int64_max (now - lastFill b)) / 1000000000 * of_int (RequestsPerSecond cfg)
           in min (of_int (BurstSize cfg)) ((tokens b + gain * (1 - eps) ^ 3) * (1 - eps)) \<le> level \<and>
              level \<le> min (of_int (BurstSize cfg)) ((tokens b + gain * (1 + eps) ^ 3) * (1 + eps))))"

lemma take_token_near:
  assumes "limits_ok cfg" and "BurstSize cfg \<le> 2 ^ 53" and "RequestsPerSecond cfg \<le> 2 ^ 53"
    and "limiter_ok cfg now m"
  shows "\<exists>level. level_near cfg now (m source) level \<and>
    take_token cfg source now m = (1 \<le> level,
      m(source \<mapsto> \<lparr>tokens = (if 1 \<le> level then level - 1 else level), capacity = of_int (BurstSize cfg),
         rate = of_int (RequestsPerSecond cfg), lastFill = now\<rparr>))"
proof -
  define b where "b = bucket_of cfg source now m"
  note exact = exact_limits [OF assms(1-3)]
  have ok: "bucket_ok cfg b" and past: "lastFill b \<le> now"
    using bucket_of_ok [OF assms(4,1)] by (simp_all add: b_def)
  then have fields: "capacity b = of_int (BurstSize cfg)" "rate b = of_int (RequestsPerSecond cfg)"
    by (simp_all add: bucket_ok_def exact)
  have "(of_int (BurstSize cfg) :: rat) \<le> of_int (2 ^ 53)" using assms(2) by (simp only: of_int_le_iff)
  then have cap: "capacity b \<le> 2 ^ 53" by (simp add: fields)
  have "take_token cfg source now m = (1 \<le> refill b now,
      m(source \<mapsto> \<lparr>tokens = (if 1 \<le> refill b now then refill b now - 1 else refill b now),
         capacity = of_int (BurstSize cfg), rate = of_int (RequestsPerSecond cfg), lastFill = now\<rparr>))"
    using allow_eq [OF ok assms(1) past cap] fields
    by (simp add: take_token_eq flip: b_def) (cases b; simp)
  moreover have "level_near cfg now (m source) (refill b now)"
  proof (cases "m source")
    case None
    with ok have "refill b now = of_int (BurstSize cfg)"
      using refill_now [OF ok] by (simp add: b_def bucket_of_def newBucket_def Let_def exact)
    with None show ?thesis by (simp add: level_near_def)
  next
    case (Some b')
    then have "b' = b" by (simp add: b_def bucket_of_def)
    with Some refill_near [OF ok assms(1) past] show ?thesis
      by (simp add: level_near_def gained_def fields Let_def)
  qed
  ultimately show ?thesis by blast
qed

text \<open>The answer to a client over its limit: an error that names it.\<close>

definition rejects_source :: "error option call \<Rightarrow> bytes \<Rightarrow> bool" where
  "rejects_source out source \<longleftrightarrow>
     (\<exists>e. out = Ret (Some e) \<and> err_text e = [Lit ''rate limit exceeded for source '', Quoted source])"

lemma limited_cases:
  "case active s of
     nopProvider \<Rightarrow> RecordRateLimited source s = (Ret (), s)
   | PrometheusProvider refuse c \<Rightarrow>
       (case refuse [source] of
          Some m \<Rightarrow> RecordRateLimited source s = (Panic m, s)
        | None \<Rightarrow> RecordRateLimited source s = (Ret (), s\<lparr>active := PrometheusProvider refuse
            (c\<lparr>rateLimited := (rateLimited c)(source := Suc (rateLimited c source))\<rparr>)\<rparr>))"
  by (cases "active s")
    (auto simp: RecordRateLimited_def on_active_def with_label_values_def split: option.split)

section \<open>Properties\<close>

text \<open>
  In every run of the limiter over requests whose times do not go back, each bucket of each
  source keeps between zero and its capacity tokens, its capacity and rate are those of the
  configuration, and it was last filled no later than the last request.
\<close>

lemma limiter_invariant:
  assumes "limits_ok cfg" and "sorted (map snd (reqs @ [(source, now)]))"
  shows "limiter_ok cfg now (snd (rl_run cfg (reqs @ [(source, now)]) Map.empty))"
proof (rule rl_run_ok [OF _ assms(1,2), where t = "snd (hd (reqs @ [(source, now)]))"])
  show "\<forall>r \<in> set (reqs @ [(source, now)]). snd (hd (reqs @ [(source, now)])) \<le> snd r"
    using assms(2) by (cases reqs) (auto simp: sorted_append)
qed (simp_all add: limiter_ok_empty)

text \<open>
  C22: sources are independent: among any interleaving of requests, the verdicts one source gets
  are those it would get if its requests were the only ones.
\<close>

theorem limiter_isolation:
  "verdicts_for source reqs (fst (rl_run cfg reqs Map.empty)) =
   fst (rl_run cfg (filter (\<lambda>r. fst r = source) reqs) Map.empty)"
  using limiter_run_own [of "filter (\<lambda>r. fst r = source) reqs" source cfg]
  by (simp add: verdicts_own_bucket times_of_def split: list.split)

text \<open>
  A burst: of \<open>n\<close> requests of one source at one instant on a fresh limiter, exactly the
  first \<open>BurstSize\<close> pass.
\<close>

lemma limiter_burst:
  assumes "limits_ok cfg" and "BurstSize cfg \<le> 2 ^ 53"
  shows "fst (rl_run cfg (replicate n (source, now)) Map.empty) =
    replicate (min n (nat (BurstSize cfg))) True @ replicate (n - nat (BurstSize cfg)) False"
proof -
  let ?b = "newBucket cfg now"
  have "fst (rl_run cfg (replicate n (source, now)) Map.empty) = allow_many ?b (replicate n now)"
    using limiter_run_own [of "replicate n (source, now)" source cfg] by (cases n) simp_all
  moreover have "tokens ?b = of_int (BurstSize cfg)"
    using assms f64_of_int [of "BurstSize cfg"] by (simp add: newBucket_def Let_def limits_ok_def)
  ultimately show ?thesis
    using allow_many_burst [OF newBucket_ok [OF assms(1)] assms(1)] assms by (simp add: limits_ok_def)
qed

text \<open>
  The steady rate: of any sequence of \<open>n\<close> requests of a source between two times, at most
  the burst plus the rate times the elapsed seconds pass, up to the rounding of \<^verbatim>\<open>float64\<close>:
  a factor of three roundings on the refill and one rounding of the capacity per request.
\<close>

lemma limiter_rate_bound:
  assumes "limits_ok cfg" and "BurstSize cfg \<le> 2 ^ 53" and "RequestsPerSecond cfg \<le> 2 ^ 53"
    and "sorted (now # ts)"
  shows "of_nat (length (filter id (fst (rl_run cfg (map (Pair source) (now # ts)) Map.empty)))) \<le>
    (of_int (BurstSize cfg) :: rat) +
    of_int (last (now # ts) - now) / 1000000000 * of_int (RequestsPerSecond cfg) * (1 + eps) ^ 3 +
    of_nat (length (now # ts)) * (of_int (BurstSize cfg) * eps)"
proof -
  let ?b = "newBucket cfg now"
  note exact = exact_limits [OF assms(1-3)]
  have fields: "tokens ?b = of_int (BurstSize cfg)" "capacity ?b = of_int (BurstSize cfg)"
      "rate ?b = of_int (RequestsPerSecond cfg)" "lastFill ?b = now"
    by (simp_all add: newBucket_def Let_def exact)
  have "fst (rl_run cfg (map (Pair source) (now # ts)) Map.empty) = allow_many ?b (now # ts)"
    using limiter_run_own [of "map (Pair source) (now # ts)" source cfg] by (simp add: comp_def)
  moreover have "sorted (lastFill ?b # now # ts)" using assms(4) fields by simp
  ultimately show ?thesis
    using allow_many_bound [OF newBucket_ok [OF assms(1)] assms(1,2), of now "now # ts"]
    unfolding fields by simp
qed

text \<open>
  C23: one request at the handler, with the arithmetic written out. The source has its full burst when
  it is new, and otherwise what its bucket held plus the configured rate times the seconds since its
  last request, never more than the burst, up to four roundings of \<^verbatim>\<open>float64\<close>. With at least one token the
  request passes, one token is gone and nothing else has changed; with less it is refused with an error
  that names the source, counted once for that source when metrics are on, and charged nothing. Either
  way the bucket of this source is stored with the time of the request, that of no other source has
  changed, nor has the result that is passed along, and the limiter stays in order. The handler panics
  exactly when the metrics client refuses the source of a refused request as a label.
\<close>

theorem rate_limit_handler:
  assumes "limits_ok cfg" and "BurstSize cfg \<le> 2 ^ 53" and "RequestsPerSecond cfg \<le> 2 ^ 53"
    and "limiter_ok cfg (clock s) (buckets s)" and "rl_Middleware cfg r s = (out, r', s')"
  shows "limiter_ok cfg (clock s') (buckets s') \<and> r' = r \<and>
    (\<exists>level p. level_near cfg (clock s) (buckets s (Source r)) level \<and>
      s' = s\<lparr>active := p, buckets := (buckets s)(Source r \<mapsto>
        \<lparr>tokens = (if 1 \<le> level then level - 1 else level), capacity = of_int (BurstSize cfg),
         rate = of_int (RequestsPerSecond cfg), lastFill = clock s\<rparr>)\<rparr> \<and>
      (if 1 \<le> level then out = Ret None \<and> p = active s
       else case active s of
         nopProvider \<Rightarrow> rejects_source out (Source r) \<and> p = active s
       | PrometheusProvider refuse c \<Rightarrow>
           (case refuse [Source r] of
              Some m \<Rightarrow> out = Panic m \<and> p = active s
            | None \<Rightarrow> rejects_source out (Source r) \<and> p = PrometheusProvider refuse
                (c\<lparr>rateLimited := (rateLimited c)(Source r := Suc (rateLimited c (Source r)))\<rparr>))))"
proof -
  obtain level m where level: "level_near cfg (clock s) (buckets s (Source r)) level"
    and t: "take_token cfg (Source r) (clock s) (buckets s) = (1 \<le> level, m)"
    and m: "m = (buckets s)(Source r \<mapsto> \<lparr>tokens = (if 1 \<le> level then level - 1 else level),
      capacity = of_int (BurstSize cfg), rate = of_int (RequestsPerSecond cfg), lastFill = clock s\<rparr>)"
    using take_token_near [OF assms(1-4), of "Source r"] by blast
  have ok: "limiter_ok cfg (clock s) m" using take_token_ok [OF assms(4,1), of "Source r"] t by simp
  have err: "rejects_source (Ret (Some (rate_limited_error (Source r)))) (Source r)"
    by (simp add: rejects_source_def rate_limited_error_def)
  have step: "rl_Middleware cfg r s = (if 1 \<le> level then (Ret None, r, s\<lparr>buckets := m\<rparr>)
      else case RecordRateLimited (Source r) (s\<lparr>buckets := m\<rparr>) of
          (Ret _, s2) \<Rightarrow> (Ret (Some (rate_limited_error (Source r))), r, s2)
        | (Panic e, s2) \<Rightarrow> (Panic e, r, s2))"
    using t by (simp add: rl_Middleware_def Let_def)
  show ?thesis
    using limited_cases [of "Source r" "s\<lparr>buckets := m\<rparr>"] step assms(5) ok level err m
    by (intro conjI exI [of _ level] exI [of _ "active s'"]; cases s)
      (auto split: if_splits provider.splits option.splits)
qed

section \<open>The properties at concrete limits\<close>

abbreviation limits_2_1 :: RateLimitConfig where
  "limits_2_1 \<equiv> \<lparr>RL_Enabled = True, RequestsPerSecond = 1, BurstSize = 2\<rparr>"

lemma limiter_invariant_example:
  "limiter_ok limits_2_1 7 (snd (rl_run limits_2_1 ([(''a'', 3), (''b'', 5)] @ [(''a'', 7)]) Map.empty))"
  by (rule limiter_invariant) (simp_all add: limits_ok_def)

lemma limiter_burst_example:
  "fst (rl_run limits_2_1 (replicate 3 (''a'', 7)) Map.empty) = [True, True, False]"
  by (subst limiter_burst) (simp_all add: limits_ok_def numeral_2_eq_2)

lemma limiter_rate_bound_example:
  "of_nat (length (filter id (fst (rl_run limits_2_1
      (map (Pair ''a'') (0 # [500000000, 1000000000])) Map.empty)))) \<le>
    (of_int 2 :: rat) + of_int (1000000000 - 0) / 1000000000 * of_int 1 * (1 + eps) ^ 3 +
    of_nat 3 * (of_int 2 * eps)"
  using limiter_rate_bound [of limits_2_1 0 "[500000000, 1000000000]" "''a''"]
  by (simp add: limits_ok_def)

text \<open>
  A client that used its burst up an instant ago, on a limiter of one event per second: it is
  refused by name, counted, and stays without tokens.
\<close>

abbreviation spent_bucket :: bucket where
  "spent_bucket \<equiv> \<lparr>tokens = 0, capacity = 2, rate = 1, lastFill = 5\<rparr>"

lemma spent_ok: "limiter_ok limits_2_1 5 [''a'' \<mapsto> spent_bucket]"
proof -
  have "f64 2 = 2" "f64 1 = 1" using f64_of_int [of 2] f64_of_int [of 1] by simp_all
  then show ?thesis by (simp add: limiter_ok_def bucket_ok_def)
qed

theorem rate_limit_handler_witness:
  "let r = \<lparr>Source = ''a'', Data = ''{}'', Errors = []\<rparr>;
       s = \<lparr>active = new_provider (\<lambda>_. None) [], clock = 5, log_lines = [], buckets = [''a'' \<mapsto> spent_bucket]\<rparr>;
       (out, r', s') = rl_Middleware limits_2_1 r s
   in rejects_source out ''a'' \<and> metric (\<lambda>c. rateLimited c ''a'') s' = Some 1 \<and>
      buckets s' = [''a'' \<mapsto> spent_bucket]"
proof -
  let ?r = "\<lparr>Source = ''a'', Data = ''{}'', Errors = []\<rparr>"
  let ?s = "\<lparr>active = new_provider (\<lambda>_. None) [], clock = 5, log_lines = [], buckets = [''a'' \<mapsto> spent_bucket]\<rparr>"
  obtain out r' s' where run: "rl_Middleware limits_2_1 ?r ?s = (out, r', s')"
    using prod_cases3 by blast
  have none: "level_near limits_2_1 5 (Some spent_bucket) level \<longleftrightarrow> level = 0" for level
    by (auto simp: level_near_def int64_max_def)
  from rate_limit_handler [OF _ _ _ _ run] spent_ok run show ?thesis
    by (auto simp: none limits_ok_def metric_def new_provider_def)
qed

end
