(* ===== verification/Limiter_steps.thy ===== *)
theory Limiter_steps
  imports Ratelimit
begin

text \<open>
  The rate limiter as the workers share it: \<^verbatim>\<open>ratelimit.go\<close> statement by statement, with the
  mutex of the limiter, the mutexes of the buckets, and the map as a map to addresses of buckets in a
  store. The theory \<open>Ratelimit\<close> takes a request as one step, \<open>take_token\<close>; here any number of callers
  interleave between any two statements, and the verdicts are still those of \<open>take_token\<close> for the
  requests in the order in which they read the clock.
\<close>

section \<open>State\<close>

text \<open>Where a caller of the handler is: before which statement, with the values of its variables.\<close>

datatype place =
    Wants_map                 \<comment> \<open>\<^verbatim>\<open>rl.mu.Lock()\<close>\<close>
  | In_map                    \<comment> \<open>\<^verbatim>\<open>rl.buckets[source]\<close>, or \<^verbatim>\<open>newBucket\<close>\<close>
  | Adding bucket             \<comment> \<open>\<^verbatim>\<open>rl.buckets[source] = b\<close>\<close>
  | Leaving nat               \<comment> \<open>the deferred \<^verbatim>\<open>rl.mu.Unlock()\<close>\<close>
  | Wants_bucket nat          \<comment> \<open>\<^verbatim>\<open>b.mu.Lock()\<close>\<close>
  | In_bucket nat             \<comment> \<open>\<^verbatim>\<open>now := time.Now()\<close>\<close>
  | Timed nat int             \<comment> \<open>\<^verbatim>\<open>elapsed\<close> and \<^verbatim>\<open>b.lastFill = now\<close>\<close>
  | Elapsed nat rat           \<comment> \<open>\<^verbatim>\<open>b.tokens += elapsed * b.rate\<close>\<close>
  | Filled nat                \<comment> \<open>the cap\<close>
  | Capped nat                \<comment> \<open>the comparison with 1, and \<^verbatim>\<open>b.tokens--\<close>\<close>
  | Unlocking nat bool        \<comment> \<open>the deferred \<^verbatim>\<open>b.mu.Unlock()\<close>\<close>
  | Returned bool

record limiting =
  l_heap :: "bucket list"
  l_table :: "bytes \<rightharpoonup> nat"
  l_mu :: "nat option"
  l_bmu :: "nat \<Rightarrow> nat option"
  l_clock :: int
  l_at :: "nat \<Rightarrow> place"

definition limiting_init :: "int \<Rightarrow> limiting" where
  "limiting_init t =
     \<lparr>l_heap = [], l_table = Map.empty, l_mu = None, l_bmu = (\<lambda>_. None), l_clock = t, l_at = (\<lambda>_. Wants_map)\<rparr>"

section \<open>Steps\<close>

datatype llabel = Tick | Ran nat | Took nat int

abbreviation go :: "nat \<Rightarrow> place \<Rightarrow> limiting \<Rightarrow> limiting" where
  "go k pl w \<equiv> w\<lparr>l_at := (l_at w)(k := pl)\<rparr>"

abbreviation poke :: "nat \<Rightarrow> bucket \<Rightarrow> limiting \<Rightarrow> limiting" where
  "poke a b w \<equiv> w\<lparr>l_heap := (l_heap w)[a := b]\<rparr>"

definition bucketFor_step :: "RateLimitConfig \<Rightarrow> bytes \<Rightarrow> nat \<Rightarrow> limiting \<Rightarrow> limiting option" where
  "bucketFor_step cfg source k w =
     (case l_at w k of
        Wants_map \<Rightarrow> if l_mu w = None then Some (go k In_map (w\<lparr>l_mu := Some k\<rparr>)) else None
      | In_map \<Rightarrow>
          (case l_table w source of
             Some a \<Rightarrow> Some (go k (Leaving a) w)
           | None \<Rightarrow> Some (go k (Adding (newBucket cfg (l_clock w))) w))
      | Adding b \<Rightarrow>
          Some (go k (Leaving (length (l_heap w)))
            (w\<lparr>l_heap := l_heap w @ [b], l_table := (l_table w)(source \<mapsto> length (l_heap w))\<rparr>))
      | Leaving a \<Rightarrow> Some (go k (Wants_bucket a) (w\<lparr>l_mu := None\<rparr>))
      | _ \<Rightarrow> None)"

definition allow_step :: "nat \<Rightarrow> limiting \<Rightarrow> (llabel \<times> limiting) option" where
  "allow_step k w =
     (case l_at w k of
        Wants_bucket a \<Rightarrow>
          if l_bmu w a = None then Some (Ran k, go k (In_bucket a) (w\<lparr>l_bmu := (l_bmu w)(a \<mapsto> k)\<rparr>)) else None
      | In_bucket a \<Rightarrow> Some (Took k (l_clock w), go k (Timed a (l_clock w)) w)
      | Timed a now \<Rightarrow>
          (let b = l_heap w ! a in
           Some (Ran k, go k (Elapsed a (duration_Seconds (time_Sub now (lastFill b)))) (poke a (b\<lparr>lastFill := now\<rparr>) w)))
      | Elapsed a elapsed \<Rightarrow>
          (let b = l_heap w ! a in
           Some (Ran k, go k (Filled a) (poke a (b\<lparr>tokens := f64 (tokens b + f64 (elapsed * rate b))\<rparr>) w)))
      | Filled a \<Rightarrow>
          (let b = l_heap w ! a in
           Some (Ran k, go k (Capped a) (if capacity b < tokens b then poke a (b\<lparr>tokens := capacity b\<rparr>) w else w)))
      | Capped a \<Rightarrow>
          (let b = l_heap w ! a in
           if tokens b < 1 then Some (Ran k, go k (Unlocking a False) w)
           else Some (Ran k, go k (Unlocking a True) (poke a (b\<lparr>tokens := f64 (tokens b - 1)\<rparr>) w)))
      | Unlocking a ok \<Rightarrow> Some (Ran k, go k (Returned ok) (w\<lparr>l_bmu := (l_bmu w)(a := None)\<rparr>))
      | _ \<Rightarrow> None)"

text \<open>All callers, each with the source of its request; between steps time may pass.\<close>

inductive lstep :: "RateLimitConfig \<Rightarrow> (nat \<Rightarrow> bytes) \<Rightarrow> limiting \<Rightarrow> llabel \<Rightarrow> limiting \<Rightarrow> bool" for cfg src where
  finding: "bucketFor_step cfg (src k) k w = Some w' \<Longrightarrow> lstep cfg src w (Ran k) w'"
| allowing: "allow_step k w = Some (l, w') \<Longrightarrow> lstep cfg src w l w'"
| ticking: "l_clock w \<le> t \<Longrightarrow> lstep cfg src w Tick (w\<lparr>l_clock := t\<rparr>)"

inductive lruns :: "RateLimitConfig \<Rightarrow> (nat \<Rightarrow> bytes) \<Rightarrow> limiting \<Rightarrow> llabel list \<Rightarrow> limiting \<Rightarrow> bool"
  for cfg src w where
  lruns_nil: "lruns cfg src w [] w"
| lruns_snoc: "lruns cfg src w tr w' \<Longrightarrow> lstep cfg src w' l w'' \<Longrightarrow> lruns cfg src w (tr @ [l]) w''"

section \<open>The locks\<close>

fun in_map_section :: "place \<Rightarrow> bool" where
  "in_map_section In_map = True"
| "in_map_section (Adding b) = True"
| "in_map_section (Leaving a) = True"
| "in_map_section _ = False"

fun held :: "place \<Rightarrow> nat option" where
  "held (In_bucket a) = Some a"
| "held (Timed a now) = Some a"
| "held (Elapsed a e) = Some a"
| "held (Filled a) = Some a"
| "held (Capped a) = Some a"
| "held (Unlocking a ok) = Some a"
| "held _ = None"

fun pointer :: "place \<Rightarrow> nat option" where
  "pointer (Leaving a) = Some a"
| "pointer (Wants_bucket a) = Some a"
| "pointer pl = held pl"

text \<open>
  The contract of a mutex in a state that is \<open>ok\<close>: whoever is inside its critical section is its owner.
  So there is at most one, and one who finds it taken waits for somebody else, who is inside.
\<close>

locale mutex =
  fixes ok :: "'s \<Rightarrow> bool"
    and inside :: "'s \<Rightarrow> nat \<Rightarrow> bool"
    and owner :: "'s \<Rightarrow> nat option"
  assumes inside_iff: "ok w \<Longrightarrow> inside w k \<longleftrightarrow> owner w = Some k"
begin

lemma exclusive: "ok w \<Longrightarrow> inside w k \<Longrightarrow> inside w k' \<Longrightarrow> k' = k"
  by (simp add: inside_iff)

lemma holder: "ok w \<Longrightarrow> owner w = Some k' \<Longrightarrow> \<not> inside w k \<Longrightarrow> k' \<noteq> k \<and> inside w k'"
  by (auto simp: inside_iff)

end

text \<open>The mutex of the limiter and those of the buckets; the steps keep \<open>locks_ok\<close>.\<close>

definition locks_ok :: "limiting \<Rightarrow> bool" where
  "locks_ok w \<longleftrightarrow>
     (\<forall>k. in_map_section (l_at w k) \<longleftrightarrow> l_mu w = Some k) \<and>
     (\<forall>k a. held (l_at w k) = Some a \<longleftrightarrow> l_bmu w a = Some k)"

definition fresh_bucket :: "RateLimitConfig \<Rightarrow> limiting \<Rightarrow> bucket \<Rightarrow> bool" where
  "fresh_bucket cfg w b \<longleftrightarrow> (\<exists>t \<le> l_clock w. b = newBucket cfg t)"

text \<open>Every source has its own bucket, for good.\<close>

definition table_ok :: "RateLimitConfig \<Rightarrow> (nat \<Rightarrow> bytes) \<Rightarrow> limiting \<Rightarrow> bool" where
  "table_ok cfg src w \<longleftrightarrow>
     (\<forall>k a. pointer (l_at w k) = Some a \<longrightarrow> l_table w (src k) = Some a) \<and>
     (\<forall>s a. l_table w s = Some a \<longrightarrow> a < length (l_heap w)) \<and>
     (\<forall>s s' a. l_table w s = Some a \<longrightarrow> l_table w s' = Some a \<longrightarrow> s = s') \<and>
     (\<forall>k b. l_at w k = Adding b \<longrightarrow> l_table w (src k) = None \<and> fresh_bucket cfg w b)"

lemma locks_okD:
  "locks_ok w \<Longrightarrow> in_map_section (l_at w k) \<longleftrightarrow> l_mu w = Some k"
  "locks_ok w \<Longrightarrow> held (l_at w k) = Some a \<longleftrightarrow> l_bmu w a = Some k"
  by (auto simp: locks_ok_def)

interpretation map_mutex: mutex locks_ok "\<lambda>w k. in_map_section (l_at w k)" l_mu
  by unfold_locales (rule locks_okD(1))

interpretation bucket_mutex: mutex locks_ok "\<lambda>w k. held (l_at w k) = Some a" "\<lambda>w. l_bmu w a" for a
  by unfold_locales (rule locks_okD(2))

lemma bucketFor_step_locks:
  assumes "bucketFor_step cfg s k w = Some w'" and ok: "locks_ok w"
  shows "locks_ok w'"
  unfolding locks_ok_def
proof (intro conjI allI)
  fix k' a
  note me = locks_okD [OF ok, of k] and other = locks_okD [OF ok, of k']
  show "in_map_section (l_at w' k') \<longleftrightarrow> l_mu w' = Some k'"
    using assms(1) me(1) other(1)
    by (cases "k' = k") (auto simp: bucketFor_step_def split: place.splits option.splits if_splits)
  show "held (l_at w' k') = Some a \<longleftrightarrow> l_bmu w' a = Some k'"
    using assms(1) me(2) other(2)
    by (cases "k' = k") (auto simp: bucketFor_step_def split: place.splits option.splits if_splits)
qed

lemma allow_step_locks:
  assumes "allow_step k w = Some (l, w')" and ok: "locks_ok w"
  shows "locks_ok w'"
  unfolding locks_ok_def
proof (intro conjI allI)
  fix k' a
  note me = locks_okD [OF ok, of k] and other = locks_okD [OF ok, of k']
  show "in_map_section (l_at w' k') \<longleftrightarrow> l_mu w' = Some k'"
    using assms(1) me(1) other(1)
    by (cases "k' = k") (auto simp: allow_step_def Let_def split: place.splits if_splits)
  show "held (l_at w' k') = Some a \<longleftrightarrow> l_bmu w' a = Some k'"
  proof (cases "k' = k")
    case True
    then show ?thesis using assms(1)
      by (auto simp: allow_step_def Let_def locks_okD(2) [OF ok, symmetric] split: place.splits if_splits)
  next
    case False
    have "l_at w' k' = l_at w k'" using assms(1) False
      by (auto simp: allow_step_def Let_def split: place.splits if_splits)
    moreover have "l_bmu w' a = l_bmu w a \<or> l_bmu w a = None \<and> l_bmu w' a = Some k \<or> held (l_at w k) = Some a \<and> l_bmu w' a = None"
      using assms(1) by (auto simp: allow_step_def Let_def split: place.splits if_splits)
    ultimately show ?thesis using False me(2) [of a] other(2) [of a] by auto
  qed
qed

lemma table_okD:
  "table_ok cfg src w \<Longrightarrow> pointer (l_at w k) = Some a \<Longrightarrow> l_table w (src k) = Some a"
  "table_ok cfg src w \<Longrightarrow> l_table w s = Some a \<Longrightarrow> a < length (l_heap w)"
  "table_ok cfg src w \<Longrightarrow> l_table w s = Some a \<Longrightarrow> l_table w s' = Some a \<Longrightarrow> s = s'"
  "table_ok cfg src w \<Longrightarrow> l_at w k = Adding b \<Longrightarrow> l_table w (src k) = None \<and> fresh_bucket cfg w b"
  unfolding table_ok_def by blast+

text \<open>A step of \<^verbatim>\<open>allow\<close> moves no bucket.\<close>

lemma allow_step_table:
  assumes "allow_step k w = Some (l, w')" and "table_ok cfg src w"
  shows "table_ok cfg src w'"
proof -
  have same: "l_table w' = l_table w" "length (l_heap w') = length (l_heap w)" "l_clock w' = l_clock w"
    using assms(1) by (auto simp: allow_step_def Let_def split: place.splits if_splits)
  have pl: "pointer (l_at w' k') = Some a \<Longrightarrow> pointer (l_at w k') = Some a"
      "l_at w' k' = Adding b \<Longrightarrow> l_at w k' = Adding b" for k' a b
    using assms(1) by (auto simp: allow_step_def Let_def split: place.splits if_splits)
  show ?thesis
    using assms(2) pl unfolding table_ok_def fresh_bucket_def same by blast
qed

lemma bucketFor_step_table:
  assumes "bucketFor_step cfg (src k) k w = Some w'" and locks: "locks_ok w" and table: "table_ok cfg src w"
  shows "table_ok cfg src w'"
proof (cases "\<exists>b. l_at w k = Adding b")
  case True
  then obtain b where b: "l_at w k = Adding b" by blast
  note t = table_okD [OF table]
  from assms(1) b have w': "w' = go k (Leaving (length (l_heap w)))
      (w\<lparr>l_heap := l_heap w @ [b], l_table := (l_table w)(src k \<mapsto> length (l_heap w))\<rparr>)"
    by (simp add: bucketFor_step_def)
  have none: "l_table w (src k) = None" using t(4) [OF b] by simp
  have alone: "l_at w k' \<noteq> Adding b'" if "k' \<noteq> k" for k' b'
    using map_mutex.exclusive [OF locks, of k k'] b that by auto
  show ?thesis
    unfolding table_ok_def
  proof (intro conjI allI impI)
    fix k' a assume p: "pointer (l_at w' k') = Some a"
    show "l_table w' (src k') = Some a"
    proof (cases "k' = k")
      case False
      then have "l_table w (src k') = Some a" using p t(1) [of k' a] by (simp add: w')
      with none show ?thesis by (auto simp: w')
    qed (use p in \<open>simp add: w'\<close>)
  next
    fix s a assume "l_table w' s = Some a"
    then show "a < length (l_heap w')" using t(2) [of s a] by (auto simp: w' split: if_splits)
  next
    fix s s' a assume "l_table w' s = Some a" "l_table w' s' = Some a"
    then show "s = s'" using t(2) [of s a] t(2) [of s' a] t(3) [of s a s'] by (auto simp: w' split: if_splits)
  next
    fix k' b' assume "l_at w' k' = Adding b'"
    then show "l_table w' (src k') = None" "fresh_bucket cfg w' b'" using alone [of k' b'] by (auto simp: w' split: if_splits)
  qed
next
  case False
  have same: "l_table w' = l_table w" "l_heap w' = l_heap w" "l_clock w' = l_clock w"
    using assms(1) False by (auto simp: bucketFor_step_def split: place.splits option.splits if_splits)
  have pl: "pointer (l_at w' k') = Some a \<Longrightarrow> pointer (l_at w k') = Some a \<or> l_table w (src k') = Some a" for k' a
    using assms(1) False by (auto simp: bucketFor_step_def split: place.splits option.splits if_splits)
  have ad: "l_at w' k' = Adding b \<Longrightarrow> l_at w k' = Adding b \<or> l_table w (src k') = None \<and> b = newBucket cfg (l_clock w)" for k' b
    using assms(1) False by (auto simp: bucketFor_step_def split: place.splits option.splits if_splits)
  show ?thesis
    using table pl ad unfolding table_ok_def fresh_bucket_def same by blast
qed

lemma ticking_ok: "locks_ok w \<Longrightarrow> locks_ok (w\<lparr>l_clock := t\<rparr>)"
  "table_ok cfg src w \<Longrightarrow> l_clock w \<le> t \<Longrightarrow> table_ok cfg src (w\<lparr>l_clock := t\<rparr>)"
proof -
  assume t: "table_ok cfg src w" "l_clock w \<le> t"
  have "fresh_bucket cfg w b \<Longrightarrow> fresh_bucket cfg (w\<lparr>l_clock := t\<rparr>) b" for b
    using t(2) unfolding fresh_bucket_def by (auto intro: order_trans)
  with t(1) show "table_ok cfg src (w\<lparr>l_clock := t\<rparr>)" unfolding table_ok_def by simp
qed (simp add: locks_ok_def)

section \<open>The verdicts\<close>

text \<open>What \<^verbatim>\<open>allow\<close> will have made of the bucket, and its verdict, once the clock is read.\<close>

definition take_from :: "bucket \<Rightarrow> bool \<times> bucket" where
  "take_from b = (if tokens b < 1 then (False, b) else (True, b\<lparr>tokens := f64 (tokens b - 1)\<rparr>))"

definition cap_tokens :: "bucket \<Rightarrow> bucket" where
  "cap_tokens b = (if capacity b < tokens b then b\<lparr>tokens := capacity b\<rparr> else b)"

definition add_tokens :: "rat \<Rightarrow> bucket \<Rightarrow> bucket" where
  "add_tokens elapsed b = b\<lparr>tokens := f64 (tokens b + f64 (elapsed * rate b))\<rparr>"

fun outcome :: "place \<Rightarrow> bucket \<Rightarrow> (bool \<times> bucket) option" where
  "outcome (Timed a now) b = Some (allow b now)"
| "outcome (Elapsed a elapsed) b = Some (take_from (cap_tokens (add_tokens elapsed b)))"
| "outcome (Filled a) b = Some (take_from (cap_tokens b))"
| "outcome (Capped a) b = Some (take_from b)"
| "outcome (Unlocking a ok) b = Some (ok, b)"
| "outcome _ b = None"

fun asked :: "place \<Rightarrow> bool" where
  "asked (Returned ok) = True"
| "asked pl \<longleftrightarrow> outcome pl undefined \<noteq> None"

lemma asked_outcome: "asked pl \<longleftrightarrow> (\<exists>ok. pl = Returned ok) \<or> outcome pl b \<noteq> None"
  by (cases pl) simp_all

lemma allow_statements:
  "allow b now =
     take_from (cap_tokens (add_tokens (duration_Seconds (time_Sub now (lastFill b))) (b\<lparr>lastFill := now\<rparr>)))"
  by (simp add: allow_def refill_def take_from_def cap_tokens_def add_tokens_def Let_def)

text \<open>A bucket nobody has asked yet answers as if it were created at the time it is asked.\<close>

lemma allow_fresh:
  assumes "limits_ok cfg" and "t \<le> now"
  shows "allow (newBucket cfg t) now = allow (newBucket cfg now) now"
proof -
  have full: "refill (newBucket cfg u) now = capacity (newBucket cfg now)" if "u \<le> now" for u
    using refill_ok(1,2) [OF newBucket_ok [OF assms(1), of u] assms(1), of now] that
    by (simp add: newBucket_def Let_def)
  show ?thesis unfolding allow_def full [OF assms(2)] full [OF order_refl]
    by (simp add: newBucket_def Let_def)
qed

text \<open>
  \<open>m\<close> is the map of \<open>take_token\<close> after the requests asked so far, \<open>vs\<close> their verdicts. A bucket
  that nobody is working on is the one of \<open>m\<close>, or still fresh; one that somebody is working on will be.
\<close>

definition verdicts_ok ::
  "RateLimitConfig \<Rightarrow> (nat \<Rightarrow> bytes) \<Rightarrow> limiting \<Rightarrow> (nat \<rightharpoonup> bool) \<Rightarrow> (bytes \<rightharpoonup> bucket) \<Rightarrow> bool" where
  "verdicts_ok cfg src w vs m \<longleftrightarrow>
     (\<forall>s. m s \<noteq> None \<longrightarrow> l_table w s \<noteq> None) \<and>
     (\<forall>s a. l_table w s = Some a \<longrightarrow> (\<forall>k. l_bmu w a = Some k \<longrightarrow> \<not> asked (l_at w k)) \<longrightarrow>
        (case m s of Some b \<Rightarrow> l_heap w ! a = b | None \<Rightarrow> fresh_bucket cfg w (l_heap w ! a))) \<and>
     (\<forall>k a. held (l_at w k) = Some a \<longrightarrow> asked (l_at w k) \<longrightarrow>
        (\<exists>ok b. outcome (l_at w k) (l_heap w ! a) = Some (ok, b) \<and> m (src k) = Some b \<and> vs k = Some ok)) \<and>
     (\<forall>k ok. l_at w k = Returned ok \<longrightarrow> vs k = Some ok) \<and>
     (\<forall>k. vs k \<noteq> None \<longleftrightarrow> asked (l_at w k))"

text \<open>The effect of a label on the verdicts and on the map.\<close>

fun settle :: "RateLimitConfig \<Rightarrow> (nat \<Rightarrow> bytes) \<Rightarrow> llabel \<Rightarrow> (nat \<rightharpoonup> bool) \<times> (bytes \<rightharpoonup> bucket) \<Rightarrow>
    (nat \<rightharpoonup> bool) \<times> (bytes \<rightharpoonup> bucket)" where
  "settle cfg src Tick g = g"
| "settle cfg src (Ran k) g = g"
| "settle cfg src (Took k now) (vs, m) =
     (let (ok, m') = take_token cfg (src k) now m in (vs(k \<mapsto> ok), m'))"

lemma verdicts_okD:
  assumes "verdicts_ok cfg src w vs m"
  shows "m s \<noteq> None \<Longrightarrow> l_table w s \<noteq> None"
    and "l_table w s = Some a \<Longrightarrow> (\<And>k. l_bmu w a = Some k \<Longrightarrow> \<not> asked (l_at w k)) \<Longrightarrow>
      (case m s of Some b \<Rightarrow> l_heap w ! a = b | None \<Rightarrow> fresh_bucket cfg w (l_heap w ! a))"
    and "held (l_at w k) = Some a \<Longrightarrow> asked (l_at w k) \<Longrightarrow>
      \<exists>ok b. outcome (l_at w k) (l_heap w ! a) = Some (ok, b) \<and> m (src k) = Some b \<and> vs k = Some ok"
    and "l_at w k = Returned ok \<Longrightarrow> vs k = Some ok"
    and "vs k \<noteq> None \<longleftrightarrow> asked (l_at w k)"
  using assms unfolding verdicts_ok_def by blast+

text \<open>Nothing changes for the verdicts when no bucket, no entry and no caller past the clock does.\<close>

lemma verdicts_same:
  assumes v: "verdicts_ok cfg src w vs m"
    and same: "l_table w' = l_table w" "l_heap w' = l_heap w" "l_clock w \<le> l_clock w'"
    and places: "\<And>k. asked (l_at w' k) = asked (l_at w k)" "\<And>k. asked (l_at w k) \<Longrightarrow> l_at w' k = l_at w k"
    and locked: "\<And>a k. l_bmu w a = Some k \<Longrightarrow> l_bmu w' a = Some k"
  shows "verdicts_ok cfg src w' vs m"
  unfolding verdicts_ok_def same(1,2) places(1)
proof (intro conjI allI impI)
  fix s a assume t: "l_table w s = Some a" "\<forall>k. l_bmu w' a = Some k \<longrightarrow> \<not> asked (l_at w k)"
  then have "\<And>k. l_bmu w a = Some k \<Longrightarrow> \<not> asked (l_at w k)" using locked by blast
  from verdicts_okD(2) [OF v t(1) this] same(3)
  show "case m s of Some b \<Rightarrow> l_heap w ! a = b | None \<Rightarrow> fresh_bucket cfg w' (l_heap w ! a)"
    by (auto simp: fresh_bucket_def split: option.splits intro: order_trans)
next
  fix k a assume h: "held (l_at w' k) = Some a" "asked (l_at w k)"
  show "\<exists>ok b. outcome (l_at w' k) (l_heap w ! a) = Some (ok, b) \<and> m (src k) = Some b \<and> vs k = Some ok"
    using verdicts_okD(3) [OF v, of k a] h unfolding places(2) [OF h(2)] by simp
next
  fix k ok assume r: "l_at w' k = Returned ok"
  then have "asked (l_at w k)" using places(1) [of k] by simp
  with places(2) [OF this] r show "vs k = Some ok" using verdicts_okD(4) [OF v, of k ok] by simp
qed (use verdicts_okD(1,5) [OF v] in auto)

lemma bucketFor_step_cases:
  assumes "bucketFor_step cfg s k w = Some w'"
  obtains (adding) b where "l_at w k = Adding b"
      "w' = go k (Leaving (length (l_heap w))) (w\<lparr>l_heap := l_heap w @ [b], l_table := (l_table w)(s \<mapsto> length (l_heap w))\<rparr>)"
  | (looking) pl where "l_at w' = (l_at w)(k := pl)" "l_table w' = l_table w" "l_heap w' = l_heap w"
      "l_bmu w' = l_bmu w" "l_clock w' = l_clock w" "\<not> asked pl" "held pl = None"
      "\<not> asked (l_at w k)" "held (l_at w k) = None"
  using assms by (auto simp: bucketFor_step_def split: place.splits option.splits if_splits)

lemma bucketFor_step_verdicts:
  assumes "bucketFor_step cfg (src k) k w = Some w'" and locks: "locks_ok w" and table: "table_ok cfg src w"
    and v: "verdicts_ok cfg src w vs m"
  shows "verdicts_ok cfg src w' vs m"
  using assms(1)
proof (cases rule: bucketFor_step_cases)
  case (adding b)
  have new: "l_table w (src k) = None" "fresh_bucket cfg w b" using table_okD(4) [OF table adding(1)] by simp_all
  have none: "m (src k) = None" using verdicts_okD(1) [OF v, of "src k"] new(1) by (cases "m (src k)") auto
  have at_w': "held (l_at w' k') = held (l_at w k')" "asked (l_at w' k') = asked (l_at w k')"
      "outcome (l_at w' k') = outcome (l_at w k')" "l_at w' k' = Returned ok \<longleftrightarrow> l_at w k' = Returned ok" for k' ok
    using adding by (auto simp: fun_eq_iff)
  have old: "l_heap w' ! a = l_heap w ! a" if "l_table w s = Some a" for s a
    using table_okD(2) [OF table that] by (simp add: adding(2) nth_append)
  have of_held: "l_heap w' ! a = l_heap w ! a" if "held (l_at w k') = Some a" for k' a
    using old table_okD(1) [OF table, of k' a] that by (cases "l_at w k'") auto
  show ?thesis
    unfolding verdicts_ok_def at_w'
  proof (intro conjI allI impI)
    fix s a assume t: "l_table w' s = Some a" "\<forall>k. l_bmu w' a = Some k \<longrightarrow> \<not> asked (l_at w k)"
    show "case m s of Some b \<Rightarrow> l_heap w' ! a = b | None \<Rightarrow> fresh_bucket cfg w' (l_heap w' ! a)"
    proof (cases "s = src k")
      case True
      with t(1) none new(2) show ?thesis by (auto simp: adding(2) fresh_bucket_def)
    next
      case False
      then have "l_table w s = Some a" using t(1) by (simp add: adding(2))
      with verdicts_okD(2) [OF v this] t(2) old [OF this] show ?thesis
        by (simp add: adding(2) fresh_bucket_def split: option.splits)
    qed
  next
    fix k' a assume h: "held (l_at w k') = Some a" "asked (l_at w k')"
    show "\<exists>ok b. outcome (l_at w k') (l_heap w' ! a) = Some (ok, b) \<and> m (src k') = Some b \<and> vs k' = Some ok"
      unfolding of_held [OF h(1)] by (rule verdicts_okD(3) [OF v h])
  qed (use verdicts_okD(1,4,5) [OF v] in \<open>auto simp: adding(2)\<close>)
next
  case (looking pl)
  then show ?thesis by (intro verdicts_same [OF v]) (auto split: if_splits)
qed

text \<open>A statement of \<^verbatim>\<open>allow\<close> between the reading of the clock and the release keeps the outcome.\<close>

lemma working_verdicts:
  assumes locks: "locks_ok w" and table: "table_ok cfg src w" and v: "verdicts_ok cfg src w vs m"
    and "held (l_at w k) = Some a" and "held pl = Some a" and "asked (l_at w k)" and "asked pl"
    and "outcome pl b = outcome (l_at w k) (l_heap w ! a)"
  shows "verdicts_ok cfg src (go k pl (poke a b w)) vs m"
proof -
  have mine: "l_bmu w a = Some k" using locks_okD(2) [OF locks] assms(4) by simp
  have "pointer (l_at w k) = Some a" using assms(4) by (cases "l_at w k") simp_all
  from table_okD(2) [OF table table_okD(1) [OF table this]] have len: "a < length (l_heap w)" .
  let ?w = "go k pl (poke a b w)"
  have other: "l_heap ?w ! a' = l_heap w ! a'" if "a' \<noteq> a" for a' using that by simp
  have ret: "\<not> (\<exists>ok. pl = Returned ok)" using assms(5) by auto
  show ?thesis
    unfolding verdicts_ok_def
  proof (intro conjI allI impI)
    fix s a'
    assume t: "l_table ?w s = Some a'" "\<forall>k'. l_bmu ?w a' = Some k' \<longrightarrow> \<not> asked (l_at ?w k')"
    with mine assms(7) have "a' \<noteq> a" by auto
    moreover have "\<not> asked (l_at w k')" if "l_bmu w a' = Some k'" for k'
      using t(2) that assms(7) by (auto split: if_splits)
    ultimately show "case m s of Some b \<Rightarrow> l_heap ?w ! a' = b | None \<Rightarrow> fresh_bucket cfg ?w (l_heap ?w ! a')"
      using verdicts_okD(2) [OF v, of s a'] t(1) by (simp add: fresh_bucket_def split: option.splits)
  next
    fix k' a'
    assume h: "held (l_at ?w k') = Some a'" "asked (l_at ?w k')"
    show "\<exists>ok b. outcome (l_at ?w k') (l_heap ?w ! a') = Some (ok, b) \<and> m (src k') = Some b \<and> vs k' = Some ok"
    proof (cases "k' = k")
      case True
      with h(1) assms(5) have "a' = a" by simp
      with True verdicts_okD(3) [OF v assms(4,6)] assms(8) len show ?thesis by simp
    next
      case False
      then have "held (l_at w k') = Some a'" "asked (l_at w k')" using h by simp_all
      moreover have "a' \<noteq> a" using locks_okD(2) [OF locks, of k' a'] mine False calculation(1) by auto
      ultimately show ?thesis using verdicts_okD(3) [OF v, of k' a'] False by simp
    qed
  qed (use verdicts_okD(1,4,5) [OF v] ret assms(6,7) in \<open>auto split: if_splits\<close>)
qed

lemma poke_same: "poke a (l_heap w ! a) w = w"
  by simp

text \<open>The clock is read: the verdict is fixed, and it is the one of \<open>take_token\<close> now.\<close>

lemma asking_verdicts:
  assumes limits: "limits_ok cfg" and locks: "locks_ok w" and table: "table_ok cfg src w" and v: "verdicts_ok cfg src w vs m"
    and pc: "l_at w k = In_bucket a" and "settle cfg src (Took k (l_clock w)) (vs, m) = (vs', m')"
  shows "verdicts_ok cfg src (go k (Timed a (l_clock w)) w) vs' m'"
proof -
  let ?now = "l_clock w" and ?w = "go k (Timed a (l_clock w)) w"
  have mine: "l_bmu w a = Some k" using locks_okD(2) [OF locks, of k a] pc by simp
  have entry: "l_table w (src k) = Some a" using table_okD(1) [OF table, of k a] pc by simp
  have "\<not> asked (l_at w k')" if "l_bmu w a = Some k'" for k' using that mine pc by simp
  note settled = verdicts_okD(2) [OF v entry this]
  have bucket: "allow (bucket_of cfg (src k) ?now m) ?now = allow (l_heap w ! a) ?now"
  proof (cases "m (src k)")
    case None
    with settled obtain t where "t \<le> ?now" "l_heap w ! a = newBucket cfg t" by (auto simp: fresh_bucket_def)
    with None allow_fresh [OF limits, of t ?now] show ?thesis by (simp add: bucket_of_def)
  qed (use settled in \<open>simp add: bucket_of_def\<close>)
  obtain ok b where o: "allow (l_heap w ! a) ?now = (ok, b)" by fastforce
  have g: "vs' = vs(k \<mapsto> ok)" "m' = m(src k \<mapsto> b)"
    using assms(6) by (simp_all add: take_token_eq bucket o)
  show ?thesis
    unfolding verdicts_ok_def
  proof (intro conjI allI impI)
    fix s assume "m' s \<noteq> None"
    then show "l_table ?w s \<noteq> None" using verdicts_okD(1) [OF v, of s] entry by (auto simp: g split: if_splits)
  next
    fix s a' assume t: "l_table ?w s = Some a'" "\<forall>k'. l_bmu ?w a' = Some k' \<longrightarrow> \<not> asked (l_at ?w k')"
    then have "a' \<noteq> a" using mine by auto
    then have "s \<noteq> src k" using t(1) entry by auto
    moreover have "\<not> asked (l_at w k')" if "l_bmu w a' = Some k'" for k'
      using t(2) that pc by (auto split: if_splits)
    ultimately show "case m' s of Some b \<Rightarrow> l_heap ?w ! a' = b | None \<Rightarrow> fresh_bucket cfg ?w (l_heap ?w ! a')"
      using verdicts_okD(2) [OF v, of s a'] t(1) by (simp add: g fresh_bucket_def split: option.splits)
  next
    fix k' a' assume h: "held (l_at ?w k') = Some a'" "asked (l_at ?w k')"
    show "\<exists>ok b. outcome (l_at ?w k') (l_heap ?w ! a') = Some (ok, b) \<and> m' (src k') = Some b \<and> vs' k' = Some ok"
    proof (cases "k' = k")
      case True
      with h(1) o show ?thesis by (simp add: g)
    next
      case False
      then have h': "held (l_at w k') = Some a'" "asked (l_at w k')" using h by simp_all
      have "pointer (l_at w k') = Some a'" using h'(1) by (cases "l_at w k'") simp_all
      from table_okD(1) [OF table this] have "l_table w (src k') = Some a'" .
      moreover have "a' \<noteq> a" using bucket_mutex.exclusive [OF locks, of k a k'] pc h'(1) False by auto
      ultimately have "src k' \<noteq> src k" using entry by auto
      with verdicts_okD(3) [OF v h'] False show ?thesis by (simp add: g)
    qed
  qed (use verdicts_okD(4,5) [OF v] in \<open>auto simp: g split: if_splits\<close>)
qed

text \<open>The release hands the bucket back settled.\<close>

lemma releasing_verdicts:
  assumes locks: "locks_ok w" and table: "table_ok cfg src w" and v: "verdicts_ok cfg src w vs m"
    and pc: "l_at w k = Unlocking a ok"
  shows "verdicts_ok cfg src (go k (Returned ok) (w\<lparr>l_bmu := (l_bmu w)(a := None)\<rparr>)) vs m"
proof -
  let ?w = "go k (Returned ok) (w\<lparr>l_bmu := (l_bmu w)(a := None)\<rparr>)"
  have mine: "l_bmu w a = Some k" using locks_okD(2) [OF locks, of k a] pc by simp
  have entry: "l_table w (src k) = Some a" using table_okD(1) [OF table, of k a] pc by simp
  have final: "m (src k) = Some (l_heap w ! a)" "vs k = Some ok" using verdicts_okD(3) [OF v, of k a] pc by simp_all
  show ?thesis
    unfolding verdicts_ok_def
  proof (intro conjI allI impI)
    fix s a' assume t: "l_table ?w s = Some a'" "\<forall>k'. l_bmu ?w a' = Some k' \<longrightarrow> \<not> asked (l_at ?w k')"
    show "case m s of Some b \<Rightarrow> l_heap ?w ! a' = b | None \<Rightarrow> fresh_bucket cfg ?w (l_heap ?w ! a')"
    proof (cases "a' = a")
      case True
      then have "s = src k" using table_okD(3) [OF table entry] t(1) by simp
      with final True show ?thesis by simp
    next
      case False
      have "\<not> asked (l_at w k')" if "l_bmu w a' = Some k'" for k'
        using t(2) that False mine locks_okD(2) [OF locks, of k a'] pc by (auto split: if_splits)
      with verdicts_okD(2) [OF v, of s a'] t(1) show ?thesis by (simp add: fresh_bucket_def split: option.splits)
    qed
  next
    fix k' a' assume h: "held (l_at ?w k') = Some a'" "asked (l_at ?w k')"
    then have "held (l_at w k') = Some a'" "asked (l_at w k')" "k' \<noteq> k" by (auto split: if_splits)
    with verdicts_okD(3) [OF v this(1,2)]
    show "\<exists>ok b. outcome (l_at ?w k') (l_heap ?w ! a') = Some (ok, b) \<and> m (src k') = Some b \<and> vs k' = Some ok" by simp
  qed (use verdicts_okD(1,4,5) [OF v] final pc in \<open>auto split: if_splits\<close>)
qed

section \<open>Runs\<close>

definition limiting_ok ::
  "RateLimitConfig \<Rightarrow> (nat \<Rightarrow> bytes) \<Rightarrow> limiting \<Rightarrow> (nat \<rightharpoonup> bool) \<times> (bytes \<rightharpoonup> bucket) \<Rightarrow> bool" where
  "limiting_ok cfg src w g \<longleftrightarrow> locks_ok w \<and> table_ok cfg src w \<and> verdicts_ok cfg src w (fst g) (snd g)"

lemma allow_step_verdicts:
  assumes "limits_ok cfg" and "allow_step k w = Some (l, w')" and ok: "limiting_ok cfg src w (vs, m)"
  shows "verdicts_ok cfg src w' (fst (settle cfg src l (vs, m))) (snd (settle cfg src l (vs, m)))"
proof -
  have locks: "locks_ok w" and table: "table_ok cfg src w" and v: "verdicts_ok cfg src w vs m"
    using ok by (simp_all add: limiting_ok_def)
  note work = working_verdicts [OF locks table v, of k]
  show ?thesis
  proof (cases "l_at w k")
    case (Wants_bucket a)
    then have "verdicts_ok cfg src w' vs m"
      using assms(2) by (intro verdicts_same [OF v]) (auto simp: allow_step_def split: if_splits)
    with Wants_bucket assms(2) show ?thesis by (auto simp: allow_step_def split: if_splits)
  next
    case (In_bucket a)
    then have "w' = go k (Timed a (l_clock w)) w" "l = Took k (l_clock w)" using assms(2) by (simp_all add: allow_step_def)
    with asking_verdicts [OF assms(1) locks table v In_bucket] show ?thesis by (simp add: split_beta)
  next
    case (Timed a now)
    with work [of a "Elapsed a (duration_Seconds (time_Sub now (lastFill (l_heap w ! a))))" "(l_heap w ! a)\<lparr>lastFill := now\<rparr>"]
      assms(2) show ?thesis by (auto simp: allow_step_def Let_def allow_statements)
  next
    case (Elapsed a elapsed)
    with work [of a "Filled a" "add_tokens elapsed (l_heap w ! a)"] assms(2) show ?thesis
      by (auto simp: allow_step_def Let_def add_tokens_def)
  next
    case (Filled a)
    with work [of a "Capped a" "cap_tokens (l_heap w ! a)"] assms(2) show ?thesis
      by (auto simp: allow_step_def Let_def cap_tokens_def)
  next
    case (Capped a)
    with work [of a "Unlocking a False" "l_heap w ! a"]
      work [of a "Unlocking a True" "(l_heap w ! a)\<lparr>tokens := f64 (tokens (l_heap w ! a) - 1)\<rparr>"] assms(2)
    show ?thesis by (auto simp: allow_step_def Let_def take_from_def split: if_splits)
  next
    case (Unlocking a b)
    with releasing_verdicts [OF locks table v Unlocking] assms(2) show ?thesis by (auto simp: allow_step_def)
  qed (use assms(2) in \<open>simp_all add: allow_step_def\<close>)
qed

lemma lstep_ok:
  assumes "limits_ok cfg" and "lstep cfg src w l w'" and ok: "limiting_ok cfg src w g"
  shows "limiting_ok cfg src w' (settle cfg src l g)"
  using assms(2)
proof (cases rule: lstep.cases)
  case (finding k)
  have parts: "locks_ok w" "table_ok cfg src w" "verdicts_ok cfg src w (fst g) (snd g)" using ok by (simp_all add: limiting_ok_def)
  note step = finding(2)
  show ?thesis
    using bucketFor_step_locks [OF step parts(1)] bucketFor_step_table [OF step parts(1,2)]
      bucketFor_step_verdicts [OF step parts] finding(1) by (simp add: limiting_ok_def)
next
  case (allowing k)
  then show ?thesis
    using ok allow_step_locks [OF allowing(1)] allow_step_table [OF allowing(1)]
      allow_step_verdicts [OF assms(1) allowing(1), of src "fst g" "snd g"]
    by (simp add: limiting_ok_def)
next
  case (ticking t)
  have v: "verdicts_ok cfg src w (fst g) (snd g)" and parts: "locks_ok w" "table_ok cfg src w"
    using ok by (simp_all add: limiting_ok_def)
  have "verdicts_ok cfg src (w\<lparr>l_clock := t\<rparr>) (fst g) (snd g)"
    by (rule verdicts_same [OF v]) (use ticking(3) in simp_all)
  with ticking_ok(1) [OF parts(1)] ticking_ok(2) [OF parts(2) ticking(3)] show ?thesis
    by (simp add: ticking(1,2) limiting_ok_def)
qed

text \<open>The requests in the order in which they read the clock, and their verdicts one after another.\<close>

fun took1 :: "llabel \<Rightarrow> (nat \<times> int) list" where
  "took1 (Took k now) = [(k, now)]"
| "took1 l = []"

abbreviation took :: "llabel list \<Rightarrow> (nat \<times> int) list" where
  "took tr \<equiv> concat (map took1 tr)"

definition asked_reqs :: "(nat \<Rightarrow> bytes) \<Rightarrow> llabel list \<Rightarrow> (bytes \<times> int) list" where
  "asked_reqs src tr = map (\<lambda>(k, now). (src k, now)) (took tr)"

definition verdict_of :: "RateLimitConfig \<Rightarrow> (nat \<Rightarrow> bytes) \<Rightarrow> llabel list \<Rightarrow> nat \<rightharpoonup> bool" where
  "verdict_of cfg src tr = map_of (zip (map fst (took tr)) (fst (rl_run cfg (asked_reqs src tr) Map.empty)))"

lemma rl_run_snoc:
  "rl_run cfg (reqs @ [(source, now)]) m =
     (let (oks, m') = rl_run cfg reqs m; (ok, m'') = take_token cfg source now m' in (oks @ [ok], m''))"
  by (induction reqs arbitrary: m) (auto simp: Let_def split: prod.splits)

lemma rl_run_length: "length (fst (rl_run cfg reqs m)) = length reqs"
  by (induction reqs arbitrary: m) (auto simp: split_beta Let_def)

lemma dom_verdict_of: "dom (verdict_of cfg src tr) = fst ` set (took tr)"
  by (simp add: verdict_of_def dom_map_of_zip rl_run_length asked_reqs_def)

lemma finite_verdicts: "finite (dom (verdict_of cfg src tr))"
  by (simp add: dom_verdict_of)

lemma settle_snoc:
  assumes "\<And>k now. l = Took k now \<Longrightarrow> verdict_of cfg src tr k = None"
  shows "settle cfg src l (verdict_of cfg src tr, snd (rl_run cfg (asked_reqs src tr) Map.empty)) =
    (verdict_of cfg src (tr @ [l]), snd (rl_run cfg (asked_reqs src (tr @ [l])) Map.empty))"
proof (cases l)
  case (Took k now)
  let ?run = "rl_run cfg (asked_reqs src tr) Map.empty"
  obtain ok m where t: "take_token cfg (src k) now (snd ?run) = (ok, m)" by fastforce
  have reqs: "asked_reqs src (tr @ [l]) = asked_reqs src tr @ [(src k, now)]" by (simp add: asked_reqs_def Took)
  have len: "length (map fst (took tr)) = length (fst ?run)" by (simp add: rl_run_length asked_reqs_def)
  have run: "rl_run cfg (asked_reqs src (tr @ [l])) Map.empty = (fst ?run @ [ok], m)"
    using t by (simp add: reqs rl_run_snoc split_beta)
  have "verdict_of cfg src (tr @ [l]) = [k \<mapsto> ok] ++ verdict_of cfg src tr"
    unfolding verdict_of_def run using len by (simp add: Took)
  also have "\<dots> = (verdict_of cfg src tr)(k \<mapsto> ok)"
    using assms [OF Took] by (auto simp: map_add_def fun_eq_iff split: option.split)
  finally have "verdict_of cfg src (tr @ [l]) = (verdict_of cfg src tr)(k \<mapsto> ok)" .
  with t run show ?thesis by (simp add: Took)
qed (simp_all add: verdict_of_def asked_reqs_def)

lemma limiting_init_ok: "limiting_ok cfg src (limiting_init t) (Map.empty, Map.empty)"
  by (simp add: limiting_ok_def limiting_init_def locks_ok_def table_ok_def verdicts_ok_def)

lemma lstep_takes:
  "lstep cfg src w (Took k now) w' \<Longrightarrow> now = l_clock w \<and> \<not> asked (l_at w k)"
  by (auto elim!: lstep.cases simp: allow_step_def Let_def split: place.splits if_splits)

lemma lstep_clock: "lstep cfg src w l w' \<Longrightarrow> l_clock w \<le> l_clock w'"
  by (auto elim!: lstep.cases simp: bucketFor_step_def allow_step_def Let_def split: place.splits if_splits option.splits)

lemma lruns_ok:
  assumes "lruns cfg src (limiting_init t) tr w" and "limits_ok cfg"
  shows "limiting_ok cfg src w (verdict_of cfg src tr, snd (rl_run cfg (asked_reqs src tr) Map.empty)) \<and>
    sorted (map snd (took tr)) \<and> (\<forall>r \<in> set (took tr). t \<le> snd r \<and> snd r \<le> l_clock w) \<and> t \<le> l_clock w \<and>
    distinct (map fst (took tr))"
  using assms(1)
proof (induction rule: lruns.induct)
  case lruns_nil
  then show ?case using limiting_init_ok [of cfg src t]
    by (simp add: verdict_of_def asked_reqs_def limiting_init_def)
next
  case (lruns_snoc tr w' l w'')
  have new: "verdict_of cfg src tr k = None" if "l = Took k now" for k now
  proof -
    have "verdicts_ok cfg src w' (verdict_of cfg src tr) (snd (rl_run cfg (asked_reqs src tr) Map.empty))"
      using lruns_snoc.IH by (simp add: limiting_ok_def)
    moreover have "\<not> asked (l_at w' k)" using lstep_takes lruns_snoc.hyps(2) that by blast
    ultimately show ?thesis using verdicts_okD(5) by blast
  qed
  have "limiting_ok cfg src w'' (verdict_of cfg src (tr @ [l]), snd (rl_run cfg (asked_reqs src (tr @ [l])) Map.empty))"
    using lstep_ok [OF assms(2) lruns_snoc.hyps(2) conjunct1 [OF lruns_snoc.IH]] settle_snoc [OF new] by simp
  moreover have "l_clock w' \<le> l_clock w''" by (rule lstep_clock [OF lruns_snoc.hyps(2)])
  moreover have "k \<notin> fst ` set (took tr) \<and> now = l_clock w'" if "l = Took k now" for k now
    using new [OF that] dom_verdict_of [of cfg src tr] lstep_takes [of cfg src w' k now w''] lruns_snoc.hyps(2) that
    by (auto simp: domIff)
  ultimately show ?case
    using lruns_snoc.IH by (cases l) (auto simp: sorted_append intro: order_trans)
qed

section \<open>Linearizability\<close>

text \<open>
  C16: the limiter under concurrency is the sequential one: however the callers interleave between the
  statements of \<^verbatim>\<open>bucketFor\<close> and \<^verbatim>\<open>allow\<close>, and whatever time passes in between, the verdict every
  caller returns with is the one \<open>take_token\<close> gives its request when the requests are handled one by
  one in the order in which they read the clock; in that order the readings do not go back, and every
  caller past the reading is in it exactly once.
\<close>

theorem limiter_linearizable:
  assumes "limits_ok cfg" and "lruns cfg src (limiting_init t) tr w"
  shows "(\<forall>k ok. l_at w k = Returned ok \<longrightarrow> verdict_of cfg src tr k = Some ok) \<and>
    sorted (map snd (took tr)) \<and> distinct (map fst (took tr)) \<and> (\<forall>k. k \<in> fst ` set (took tr) \<longleftrightarrow> asked (l_at w k))"
proof -
  note run = lruns_ok [OF assms(2,1)]
  then have v: "verdicts_ok cfg src w (verdict_of cfg src tr) (snd (rl_run cfg (asked_reqs src tr) Map.empty))"
    by (simp add: limiting_ok_def)
  have "k \<in> fst ` set (took tr) \<longleftrightarrow> asked (l_at w k)" for k
    using verdicts_okD(5) [OF v, of k] dom_verdict_of [of cfg src tr] by (simp add: domIff set_eq_iff)
  with run verdicts_okD(4) [OF v] show ?thesis by simp
qed

section \<open>The rate under concurrency\<close>

lemma verdict_cards:
  assumes "length xs = length oks" and "distinct (map fst xs)"
  shows "card {k. src k = s \<and> (\<exists>ok. map_of (zip (map fst xs) oks) k = Some ok \<and> P ok)} =
    length (filter P (verdicts_for s (map (\<lambda>(k, now). (src k, now)) xs) oks))"
  using assms
proof (induction xs oks rule: list_induct2)
  case (Cons x xs ok oks)
  obtain k now where x: "x = (k, now)" by fastforce
  let ?m = "map_of (zip (map fst xs) oks)"
  let ?S = "{k. src k = s \<and> (\<exists>ok. ?m k = Some ok \<and> P ok)}"
  have dom: "dom ?m = fst ` set xs" using Cons.hyps by (simp add: dom_map_of_zip)
  then have fin: "finite ?S" by (intro finite_subset [of ?S "dom ?m"]) auto
  have none: "?m k = None" using Cons.prems dom x by (auto simp: domIff set_eq_iff)
  have "{k'. src k' = s \<and> (\<exists>ok'. (?m(k \<mapsto> ok)) k' = Some ok' \<and> P ok')} =
      (if src k = s \<and> P ok then insert k ?S else ?S)"
    using none by (auto split: if_splits)
  moreover have "k \<notin> ?S" using none by simp
  ultimately show ?case using Cons fin by (simp add: x)
qed simp

lemma bound_mono:
  "x \<le> y \<Longrightarrow> 0 \<le> r \<Longrightarrow> 0 \<le> e \<Longrightarrow>
     b + x / 1000000000 * r * (1 + e) ^ 3 + c \<le> b + y / 1000000000 * r * (1 + e) ^ 3 + (c :: rat)"
  by (intro add_mono mult_right_mono divide_right_mono) simp_all

text \<open>The bound for one source of the sequential limiter, over requests between two times.\<close>

lemma own_rate:
  assumes limits: "limits_ok cfg" "BurstSize cfg \<le> 2 ^ 53" "RequestsPerSecond cfg \<le> 2 ^ 53"
    and ordered: "sorted (map snd reqs)" and between: "\<And>r. r \<in> set reqs \<Longrightarrow> t \<le> snd r \<and> snd r \<le> u" and "t \<le> u"
    and mine: "mine = verdicts_for s reqs (fst (rl_run cfg reqs Map.empty))"
  shows "of_nat (length (filter id mine)) \<le>
    (of_int (BurstSize cfg) :: rat) + of_int (u - t) / 1000000000 * of_int (RequestsPerSecond cfg) * (1 + eps) ^ 3 +
    of_nat (length mine) * (of_int (BurstSize cfg) * eps)"
proof -
  have pos: "0 \<le> (of_int (BurstSize cfg) :: rat)" "0 \<le> (of_int (RequestsPerSecond cfg) :: rat)"
    using limits(1) by (simp_all add: limits_ok_def)
  show ?thesis
  proof (cases "times_of s reqs")
    case Nil
    then have "mine = []" by (simp add: mine verdicts_own_bucket)
    with assms(6) pos eps_pos(1) show ?thesis by simp
  next
    case (Cons now ts)
    then have "mine = allow_many (newBucket cfg now) (now # ts)" by (simp add: mine verdicts_own_bucket)
    then have same: "mine = fst (rl_run cfg (map (Pair s) (now # ts)) Map.empty)"
      using limiter_run_own [of "map (Pair s) (now # ts)" s cfg] by (simp add: comp_def)
    have "sorted (times_of s reqs)" using sorted_filter [OF ordered] by (simp add: times_of_def)
    moreover have "t \<le> u'" "u' \<le> u" if "u' \<in> set (times_of s reqs)" for u'
      using that between by (auto simp: times_of_def)
    ultimately have within: "sorted (now # ts)" "t \<le> now" "last (now # ts) \<le> u"
      unfolding Cons using last_in_set [of "now # ts"] by auto
    have len: "length (now # ts) = length mine" by (simp add: same rl_run_length del: rl_run.simps)
    have "(of_int (last (now # ts) - now) :: rat) \<le> of_int (u - t)" using within by (simp only: of_int_le_iff)
    from bound_mono [OF this pos(2) less_imp_le [OF eps_pos(1)]]
      limiter_rate_bound [OF limits within(1), of s, folded same, unfolded len]
    show ?thesis by (rule order_trans [rotated])
  qed
qed

text \<open>The callers past the reading of the clock, and those let through, counted by the verdicts.\<close>

lemma verdict_counts:
  assumes "lruns cfg src (limiting_init t) tr w" and "limits_ok cfg"
    and mine: "mine = verdicts_for s (asked_reqs src tr) (fst (rl_run cfg (asked_reqs src tr) Map.empty))"
  shows "card {k. src k = s \<and> asked (l_at w k)} = length mine"
    and "card {k. src k = s \<and> l_at w k = Returned True} \<le> length (filter id mine)"
proof -
  note run = lruns_ok [OF assms(1,2)]
  then have v: "verdicts_ok cfg src w (verdict_of cfg src tr) (snd (rl_run cfg (asked_reqs src tr) Map.empty))"
    by (simp add: limiting_ok_def)
  have cards: "card {k. src k = s \<and> (\<exists>ok. verdict_of cfg src tr k = Some ok \<and> P ok)} = length (filter P mine)" for P
    unfolding verdict_of_def mine asked_reqs_def
    by (rule verdict_cards) (use run in \<open>simp_all add: rl_run_length asked_reqs_def\<close>)
  have "{k. src k = s \<and> asked (l_at w k)} = {k. src k = s \<and> (\<exists>ok. verdict_of cfg src tr k = Some ok \<and> True)}"
    using verdicts_okD(5) [OF v] by auto
  with cards [of "\<lambda>_. True"] show "card {k. src k = s \<and> asked (l_at w k)} = length mine" by simp
  have "{k. src k = s \<and> l_at w k = Returned True} \<subseteq> {k. src k = s \<and> (\<exists>ok. verdict_of cfg src tr k = Some ok \<and> id ok)}"
    using verdicts_okD(4) [OF v] by auto
  moreover have "finite {k. src k = s \<and> (\<exists>ok. verdict_of cfg src tr k = Some ok \<and> id ok)}"
    by (rule finite_subset [OF _ finite_verdicts [of cfg src tr]]) auto
  ultimately show "card {k. src k = s \<and> l_at w k = Returned True} \<le> length (filter id mine)"
    unfolding cards [of id, symmetric] by (rule card_mono [rotated])
qed

text \<open>
  C17: the rate under concurrency: of all callers with one source, whatever their interleaving, at most
  the burst plus the rate times the seconds since the start has been let through, up to the rounding
  of \<^verbatim>\<open>float64\<close>: a factor of three roundings on the refill and one of the capacity per request.
\<close>

theorem limiter_concurrent_rate:
  assumes "limits_ok cfg" and "BurstSize cfg \<le> 2 ^ 53" and "RequestsPerSecond cfg \<le> 2 ^ 53"
    and "lruns cfg src (limiting_init t) tr w"
  shows "of_nat (card {k. src k = s \<and> l_at w k = Returned True}) \<le>
    (of_int (BurstSize cfg) :: rat) +
    of_int (l_clock w - t) / 1000000000 * of_int (RequestsPerSecond cfg) * (1 + eps) ^ 3 +
    of_nat (card {k. src k = s \<and> asked (l_at w k)}) * (of_int (BurstSize cfg) * eps)"
proof -
  define mine where "mine = verdicts_for s (asked_reqs src tr) (fst (rl_run cfg (asked_reqs src tr) Map.empty))"
  note counts = verdict_counts [OF assms(4,1) mine_def]
  note run = lruns_ok [OF assms(4,1)]
  have "map snd (asked_reqs src tr) = map snd (took tr)" by (simp add: asked_reqs_def comp_def split_beta)
  with run have "sorted (map snd (asked_reqs src tr))" by metis
  moreover have "t \<le> snd r \<and> snd r \<le> l_clock w" if "r \<in> set (asked_reqs src tr)" for r
    using run that by (force simp: asked_reqs_def)
  moreover have "t \<le> l_clock w" using run by blast
  ultimately have "of_nat (length (filter id mine)) \<le>
      (of_int (BurstSize cfg) :: rat) + of_int (l_clock w - t) / 1000000000 * of_int (RequestsPerSecond cfg) * (1 + eps) ^ 3 +
      of_nat (length mine) * (of_int (BurstSize cfg) * eps)"
    by (rule own_rate [OF assms(1-3) _ _ _ mine_def])
  moreover have "(of_nat (card {k. src k = s \<and> l_at w k = Returned True}) :: rat) \<le> of_nat (length (filter id mine))"
    using counts(2) by simp
  ultimately show ?thesis unfolding counts(1) by (rule order_trans [rotated])
qed

section \<open>Progress\<close>

text \<open>Who a caller waits for, and whether it can go on.\<close>

definition waits_for :: "limiting \<Rightarrow> nat \<Rightarrow> nat option" where
  "waits_for w k = (case l_at w k of Wants_map \<Rightarrow> l_mu w | Wants_bucket a \<Rightarrow> l_bmu w a | _ \<Rightarrow> None)"

definition can_go_on :: "RateLimitConfig \<Rightarrow> (nat \<Rightarrow> bytes) \<Rightarrow> limiting \<Rightarrow> nat \<Rightarrow> bool" where
  "can_go_on cfg src w k \<longleftrightarrow> bucketFor_step cfg (src k) k w \<noteq> None \<or> allow_step k w \<noteq> None"

fun statement :: "place \<Rightarrow> nat" where
  "statement Wants_map = 0"
| "statement In_map = 1"
| "statement (Adding b) = 2"
| "statement (Leaving a) = 3"
| "statement (Wants_bucket a) = 4"
| "statement (In_bucket a) = 5"
| "statement (Timed a now) = 6"
| "statement (Elapsed a e) = 7"
| "statement (Filled a) = 8"
| "statement (Capped a) = 9"
| "statement (Unlocking a ok) = 10"
| "statement (Returned ok) = 11"

fun made_by :: "nat \<Rightarrow> llabel \<Rightarrow> bool" where
  "made_by k (Ran k') \<longleftrightarrow> k = k'"
| "made_by k (Took k' now) \<longleftrightarrow> k = k'"
| "made_by k Tick \<longleftrightarrow> False"

definition statements_made :: "nat \<Rightarrow> llabel list \<Rightarrow> nat" where
  "statements_made k tr = length (filter (made_by k) tr)"

lemma lstep_statement:
  assumes "lstep cfg src w l w'"
  shows "statement (l_at w k) + (if made_by k l then 1 else 0) \<le> statement (l_at w' k)"
  using assms
  by (auto elim!: lstep.cases simp: bucketFor_step_def allow_step_def Let_def
      split: place.splits if_splits option.splits)

lemma lruns_statement:
  "lruns cfg src w tr w' \<Longrightarrow> statement (l_at w k) + statements_made k tr \<le> statement (l_at w' k)"
proof (induction rule: lruns.induct)
  case (lruns_snoc tr w' l w'')
  from lruns_snoc.IH lstep_statement [OF lruns_snoc.hyps(2), of k] show ?case
    by (simp add: statements_made_def split: if_splits)
qed (simp add: statements_made_def)

lemma holder_goes_on:
  "in_map_section (l_at w k) \<Longrightarrow> can_go_on cfg src w k"
  "held (l_at w k) = Some a \<Longrightarrow> can_go_on cfg src w k"
  by (cases "l_at w k"; simp add: can_go_on_def bucketFor_step_def allow_step_def Let_def split: option.split)+

lemma holder_not_waiting:
  "in_map_section (l_at w k) \<Longrightarrow> waits_for w k = None"
  "held (l_at w k) = Some a \<Longrightarrow> waits_for w k = None"
  by (cases "l_at w k"; simp add: waits_for_def)+

text \<open>
  C18: no deadlock: a call makes at most eleven steps, and whenever a caller has not returned it can make
  its next one, or it waits for a mutex whose holder can; no caller ever holds both mutexes, and a holder
  waits for nobody.
\<close>

theorem limiter_never_stuck:
  assumes "limits_ok cfg" and "lruns cfg src (limiting_init t) tr w"
  shows "statements_made k tr \<le> 11 \<and>
    ((\<exists>ok. l_at w k = Returned ok) \<or> can_go_on cfg src w k \<or>
     (\<exists>k'. waits_for w k = Some k' \<and> k' \<noteq> k \<and> waits_for w k' = None \<and> can_go_on cfg src w k'))"
proof -
  have locks: "locks_ok w" using lruns_ok [OF assms(2,1)] by (simp add: limiting_ok_def)
  have "statement (l_at w k) \<le> 11" by (cases "l_at w k") simp_all
  with lruns_statement [OF assms(2), of k] have "statements_made k tr \<le> 11" by linarith
  moreover have "(\<exists>ok. l_at w k = Returned ok) \<or> can_go_on cfg src w k \<or>
     (\<exists>k'. waits_for w k = Some k' \<and> k' \<noteq> k \<and> waits_for w k' = None \<and> can_go_on cfg src w k')"
  proof (cases "l_at w k")
    case Wants_map
    show ?thesis
    proof (cases "l_mu w")
      case (Some k')
      with Wants_map map_mutex.holder [OF locks this, of k] holder_goes_on(1) [of w k'] holder_not_waiting(1) [of w k']
      show ?thesis by (auto simp: waits_for_def [of w k])
    qed (simp add: can_go_on_def bucketFor_step_def Wants_map)
  next
    case (Wants_bucket a)
    show ?thesis
    proof (cases "l_bmu w a")
      case (Some k')
      with Wants_bucket bucket_mutex.holder [OF locks this, of k] holder_goes_on(2) [of w k' a] holder_not_waiting(2) [of w k' a]
      show ?thesis by (auto simp: waits_for_def [of w k])
    qed (simp add: can_go_on_def allow_step_def Wants_bucket)
  qed (simp_all add: can_go_on_def bucketFor_step_def allow_step_def Let_def split: option.split)
  ultimately show ?thesis by blast
qed

section \<open>A schedule\<close>

text \<open>Callers stepped in a given order, a caller that has to wait leaving all as it is.\<close>

definition caller_step :: "RateLimitConfig \<Rightarrow> (nat \<Rightarrow> bytes) \<Rightarrow> nat \<Rightarrow> limiting \<Rightarrow> (llabel \<times> limiting) option" where
  "caller_step cfg src k w =
     (case bucketFor_step cfg (src k) k w of Some w' \<Rightarrow> Some (Ran k, w') | None \<Rightarrow> allow_step k w)"

fun schedule :: "RateLimitConfig \<Rightarrow> (nat \<Rightarrow> bytes) \<Rightarrow> nat list \<Rightarrow> limiting \<Rightarrow> llabel list \<times> limiting" where
  "schedule cfg src [] w = ([], w)"
| "schedule cfg src (k # ks) w =
     (case caller_step cfg src k w of
        None \<Rightarrow> schedule cfg src ks w
      | Some (l, w') \<Rightarrow> (let (tr, w'') = schedule cfg src ks w' in (l # tr, w'')))"

lemma lruns_cons:
  "lruns cfg src w' tr w'' \<Longrightarrow> lstep cfg src w l w' \<Longrightarrow> lruns cfg src w (l # tr) w''"
proof (induction rule: lruns.induct)
  case lruns_nil
  then show ?case using lruns_snoc [OF lruns.lruns_nil] by fastforce
next
  case (lruns_snoc tr w1 l' w2)
  then show ?case using lruns.lruns_snoc [of cfg src w "l # tr" w1 l' w2] by simp
qed

lemma schedule_run: "lruns cfg src w (fst (schedule cfg src ks w)) (snd (schedule cfg src ks w))"
proof (induction ks arbitrary: w)
  case (Cons k ks)
  show ?case
  proof (cases "caller_step cfg src k w")
    case (Some r)
    then have "lstep cfg src w (fst r) (snd r)"
      by (auto simp: caller_step_def intro: lstep.intros split: option.splits)
    from lruns_cons [OF Cons.IH this] Some show ?thesis by (cases r) (simp add: split_beta)
  qed (use Cons in simp)
qed (simp add: lruns_nil)

text \<open>
  Two callers of one source at the limits 1 per second and burst 2: caller 0 creates the bucket, caller 1
  finds it and is the first to lock it; 0 has to wait, and both are let through. A third is not.
\<close>

abbreviation demo_order :: "nat list" where
  "demo_order \<equiv> [0, 0, 0, 1, 0, 1, 1, 1, 1, 0, 1, 1, 1, 1, 1, 1, 0, 0, 0, 0, 0, 0, 0, 2, 2, 2, 2, 2, 2, 2, 2, 2, 2]"

abbreviation "demo_calls \<equiv> schedule limits_2_1 (\<lambda>_. ''a'') demo_order (limiting_init 7)"

lemma f64_small [simp]: "f64 0 = 0" "f64 1 = 1" "f64 2 = 2"
  using f64_of_int [of 0] f64_of_int [of 1] f64_of_int [of 2] by simp_all

lemma demo_calls:
  "fst demo_calls = [Ran 0, Ran 0, Ran 0, Ran 0, Ran 1, Ran 1, Ran 1, Ran 1, Took 1 7, Ran 1, Ran 1, Ran 1, Ran 1,
     Ran 1, Ran 0, Took 0 7, Ran 0, Ran 0, Ran 0, Ran 0, Ran 0, Ran 2, Ran 2, Ran 2, Ran 2, Took 2 7, Ran 2, Ran 2,
     Ran 2, Ran 2, Ran 2] \<and>
   l_at (snd demo_calls) 0 = Returned True \<and> l_at (snd demo_calls) 1 = Returned True \<and> l_at (snd demo_calls) 2 = Returned False"
  by (simp add: caller_step_def bucketFor_step_def allow_step_def limiting_init_def newBucket_def Let_def time_Sub_def
      int64_min_def int64_max_def)

lemma demo_limits: "limits_ok limits_2_1" "BurstSize limits_2_1 \<le> 2 ^ 53" "RequestsPerSecond limits_2_1 \<le> 2 ^ 53"
  by (simp_all add: limits_ok_def)

theorem limiter_linearizable_witness:
  "took (fst demo_calls) = [(1, 7), (0, 7), (2, 7)] \<and> verdict_of limits_2_1 (\<lambda>_. ''a'') (fst demo_calls) 1 = Some True \<and>
   verdict_of limits_2_1 (\<lambda>_. ''a'') (fst demo_calls) 2 = Some False"
  using limiter_linearizable [OF demo_limits(1) schedule_run [of limits_2_1 "\<lambda>_. ''a''" "limiting_init 7" demo_order]] demo_calls by auto

theorem limiter_concurrent_rate_witness:
  "(of_nat (card {k. l_at (snd demo_calls) k = Returned True}) :: rat) \<le>
     2 + of_int (l_clock (snd demo_calls) - 7) / 1000000000 * (1 + eps) ^ 3 +
     of_nat (card {k. asked (l_at (snd demo_calls) k)}) * (2 * eps)"
  using limiter_concurrent_rate [OF demo_limits schedule_run [of limits_2_1 "\<lambda>_. ''a''" "limiting_init 7" demo_order], of "''a''"] by simp

theorem limiter_never_stuck_witness:
  "let w = snd (schedule limits_2_1 (\<lambda>_. ''a'') [0, 0, 0, 1] (limiting_init 7))
   in waits_for w 1 = Some 0 \<and> can_go_on limits_2_1 (\<lambda>_. ''a'') w 0"
proof -
  let ?w = "snd (schedule limits_2_1 (\<lambda>_. ''a'') [0, 0, 0, 1] (limiting_init 7))"
  have "waits_for ?w 1 = Some 0" "\<not> can_go_on limits_2_1 (\<lambda>_. ''a'') ?w 1" "l_at ?w 1 = Wants_map"
    by (simp_all add: caller_step_def bucketFor_step_def allow_step_def limiting_init_def waits_for_def can_go_on_def)
  with limiter_never_stuck [OF demo_limits(1) schedule_run [of limits_2_1 "\<lambda>_. ''a''" "limiting_init 7" "[0, 0, 0, 1]"], of 1] show ?thesis
    by (auto simp: Let_def)
qed

end
