(* ===== verification/Batcher.thy ===== *)
theory Batcher
  imports Config
begin

text \<open>
  Package \<^verbatim>\<open>internal/batcher\<close>. \<^verbatim>\<open>Add\<close> and \<^verbatim>\<open>Flush\<close> are each built from one critical
  section under the mutex: \<open>add_locked\<close> and \<open>flush_locked\<close>. Between the section of
  \<^verbatim>\<open>Add\<close> and the one of the \<^verbatim>\<open>Flush\<close> it may call, other goroutines run; the relation
  \<open>bstep\<close> interleaves them. What \<^verbatim>\<open>Flush\<close> takes out of the buffer it hands to the upstream
  delivery, a placeholder in this version of the program; the model returns it.
\<close>

section \<open>State and operations\<close>

type_synonym Batch = "bytes list"

record Batcher =
  b_cfg :: BatcherConfig
  b_buf :: Batch
  b_ticking :: bool

text \<open>\<^verbatim>\<open>time.NewTicker\<close> panics for an interval that is not positive.\<close>

definition batcher_New :: "BatcherConfig \<Rightarrow> Batcher call" where
  "batcher_New cfg =
     (if FlushInterval cfg \<le> 0 then Panic ''non-positive interval for NewTicker''
      else Ret \<lparr>b_cfg = cfg, b_buf = [], b_ticking = True\<rparr>)"

definition add_locked :: "bytes \<Rightarrow> Batcher \<Rightarrow> bool \<times> Batcher" where
  "add_locked data b =
     (let buf = b_buf b @ [data]
      in (MaxSize (b_cfg b) \<le> int (length buf), b\<lparr>b_buf := buf\<rparr>))"

definition flush_locked :: "Batcher \<Rightarrow> Batch option \<times> Batcher" where
  "flush_locked b =
     (if b_buf b = [] then (None, b) else (Some (b_buf b), b\<lparr>b_buf := []\<rparr>))"

text \<open>The methods as one caller runs them, with the batches they hand over.\<close>

definition Flush :: "Batcher \<Rightarrow> Batch list \<times> Batcher" where
  "Flush b = (case flush_locked b of (None, b') \<Rightarrow> ([], b') | (Some batch, b') \<Rightarrow> ([batch], b'))"

definition Add :: "bytes \<Rightarrow> Batcher \<Rightarrow> Batch list \<times> Batcher" where
  "Add data b = (let (full, b') = add_locked data b in if full then Flush b' else ([], b'))"

definition batcher_Stop :: "Batcher \<Rightarrow> Batcher" where
  "batcher_Stop b = b\<lparr>b_ticking := False\<rparr>"

section \<open>One caller\<close>

lemma Flush_eq: "Flush b = (if b_buf b = [] then [] else [b_buf b], b\<lparr>b_buf := []\<rparr>)"
  by (simp add: Flush_def flush_locked_def)

lemma Add_eq:
  "Add data b =
     (if MaxSize (b_cfg b) \<le> int (length (b_buf b)) + 1
      then ([b_buf b @ [data]], b\<lparr>b_buf := []\<rparr>)
      else ([], b\<lparr>b_buf := b_buf b @ [data]\<rparr>))"
  by (simp add: Add_def add_locked_def Flush_eq Let_def)

text \<open>The calls of the package as a client makes them, and the batches a sequence hands over.\<close>

datatype batch_op = AddOp bytes | FlushOp | StopOp

fun batch_step :: "batch_op \<Rightarrow> Batcher \<Rightarrow> Batch list \<times> Batcher" where
  "batch_step (AddOp data) b = Add data b"
| "batch_step FlushOp b = Flush b"
| "batch_step StopOp b = ([], batcher_Stop b)"

fun batch_run :: "batch_op list \<Rightarrow> Batcher \<Rightarrow> Batch list \<times> Batcher" where
  "batch_run [] b = ([], b)"
| "batch_run (op # ops) b =
     (let (out, b') = batch_step op b; (outs, b'') = batch_run ops b' in (out @ outs, b''))"

fun added :: "batch_op list \<Rightarrow> bytes list" where
  "added [] = []"
| "added (AddOp data # ops) = data # added ops"
| "added (_ # ops) = added ops"

lemma batch_step_conserves:
  "concat (fst (batch_step op b)) @ b_buf (snd (batch_step op b)) = b_buf b @ added [op]"
  by (cases op) (auto simp: Add_eq Flush_eq batcher_Stop_def)

lemma batch_step_cfg [simp]: "b_cfg (snd (batch_step op b)) = b_cfg b"
  by (cases op) (auto simp: Add_eq Flush_eq batcher_Stop_def)

lemma added_Cons: "added (op # ops) = added [op] @ added ops"
  by (cases op) auto

lemma batch_run_conserves:
  "concat (fst (batch_run ops b)) @ b_buf (snd (batch_run ops b)) = b_buf b @ added ops"
proof (induction ops arbitrary: b)
  case (Cons op ops)
  let ?b = "snd (batch_step op b)"
  have "concat (fst (batch_run (op # ops) b)) @ b_buf (snd (batch_run (op # ops) b)) =
      concat (fst (batch_step op b)) @ b_buf ?b @ added ops"
    using Cons.IH [of ?b] by (simp add: split_beta Let_def)
  also have "\<dots> = b_buf b @ added (op # ops)"
    using batch_step_conserves [of op b] by (simp add: added_Cons [of op ops] flip: append_assoc)
  finally show ?case .
qed simp

definition batch_size_ok :: "Batcher \<Rightarrow> bytes list \<Rightarrow> bool" where
  "batch_size_ok b batch \<longleftrightarrow> batch \<noteq> [] \<and> int (length batch) \<le> MaxSize (b_cfg b)"

lemma batch_step_bound:
  assumes "1 \<le> MaxSize (b_cfg b)" and "int (length (b_buf b)) < MaxSize (b_cfg b)"
  shows "int (length (b_buf (snd (batch_step op b)))) < MaxSize (b_cfg b) \<and>
    (\<forall>batch \<in> set (fst (batch_step op b)). batch_size_ok b batch)"
  using assms by (cases op) (auto simp: Add_eq Flush_eq batcher_Stop_def batch_size_ok_def)

lemma batch_run_bound:
  "1 \<le> MaxSize (b_cfg b) \<Longrightarrow> int (length (b_buf b)) < MaxSize (b_cfg b) \<Longrightarrow>
   int (length (b_buf (snd (batch_run ops b)))) < MaxSize (b_cfg b) \<and>
   (\<forall>batch \<in> set (fst (batch_run ops b)). batch_size_ok b batch)"
proof (induction ops arbitrary: b)
  case (Cons op ops)
  have "batch_size_ok (snd (batch_step op b)) = batch_size_ok b"
    by (simp add: batch_size_ok_def fun_eq_iff)
  with Cons.IH [of "snd (batch_step op b)"] batch_step_bound [OF Cons.prems, of op] Cons.prems
  show ?case by (auto simp: split_beta Let_def)
qed simp

text \<open>
  Used by one caller, the batcher loses nothing, duplicates nothing and keeps the order: the
  batches handed over, one after the other, followed by what is still buffered, are exactly the
  payloads added; no batch is empty or larger than \<^verbatim>\<open>MaxSize\<close>, and the buffer is always
  smaller.
\<close>

lemma batcher_sequential:
  assumes "batcher_New cfg = Ret b" and "1 \<le> MaxSize cfg"
  shows "concat (fst (batch_run ops b)) @ b_buf (snd (batch_run ops b)) = added ops \<and>
    int (length (b_buf (snd (batch_run ops b)))) < MaxSize cfg \<and>
    (\<forall>batch \<in> set (fst (batch_run ops b)). batch \<noteq> [] \<and> int (length batch) \<le> MaxSize cfg)"
proof -
  have b: "b_cfg b = cfg" "b_buf b = []"
    using assms(1) by (auto simp: batcher_New_def split: if_splits)
  show ?thesis
    using batch_run_conserves [of ops b] batch_run_bound [of b ops] assms(2) b
    by (simp add: batch_size_ok_def)
qed

lemma batcher_sequential_witness:
  "batcher_New \<lparr>MaxSize = 2, FlushInterval = 5\<rparr> =
     Ret \<lparr>b_cfg = \<lparr>MaxSize = 2, FlushInterval = 5\<rparr>, b_buf = [], b_ticking = True\<rparr> \<and>
   fst (batch_run [AddOp ''a'', AddOp ''b'', AddOp ''c'']
     \<lparr>b_cfg = \<lparr>MaxSize = 2, FlushInterval = 5\<rparr>, b_buf = [], b_ticking = True\<rparr>) = [[''a'', ''b'']]"
proof -
  let ?cfg = "\<lparr>MaxSize = 2, FlushInterval = 5\<rparr>"
  let ?b = "\<lparr>b_cfg = ?cfg, b_buf = [], b_ticking = True\<rparr>"
  have new: "batcher_New ?cfg = Ret ?b" by (simp add: batcher_New_def)
  show ?thesis
    using batcher_sequential [OF new, of "[AddOp ''a'', AddOp ''b'', AddOp ''c'']"] new
    by (simp add: Add_eq)
qed

section \<open>Many callers\<close>

text \<open>
  A state of the interleaved execution is the batcher and the number of callers that have left the
  section of \<^verbatim>\<open>Add\<close> with \<^verbatim>\<open>full\<close> set and not yet entered the one of \<^verbatim>\<open>Flush\<close>. The labels
  record what is added and what is handed over.
\<close>

datatype bevent = BAdded bytes | BFlushed Batch | BNothing

inductive bstep :: "Batcher \<times> nat \<Rightarrow> bevent \<Rightarrow> Batcher \<times> nat \<Rightarrow> bool" where
  badd: "add_locked data b = (full, b') \<Longrightarrow>
     bstep (b, k) (BAdded data) (b', if full then Suc k else k)"
| bflush: "flush_locked b = (Some batch, b') \<Longrightarrow> bstep (b, Suc k) (BFlushed batch) (b', k)"
| bflush_empty: "flush_locked b = (None, b') \<Longrightarrow> bstep (b, Suc k) BNothing (b', k)"
| bexplicit: "flush_locked b = (Some batch, b') \<Longrightarrow> bstep (b, k) (BFlushed batch) (b', k)"

inductive_cases bstepE: "bstep s l s'"

inductive bruns :: "Batcher \<times> nat \<Rightarrow> bevent list \<Rightarrow> Batcher \<times> nat \<Rightarrow> bool" for s where
  bruns_nil: "bruns s [] s"
| bruns_snoc: "bruns s tr s' \<Longrightarrow> bstep s' l s'' \<Longrightarrow> bruns s (tr @ [l]) s''"

fun ev_added :: "bevent \<Rightarrow> bytes list" where
  "ev_added (BAdded data) = [data]"
| "ev_added _ = []"

fun ev_flushed :: "bevent \<Rightarrow> bytes list" where
  "ev_flushed (BFlushed batch) = batch"
| "ev_flushed _ = []"

text \<open>The bound a full buffer may overshoot to: one payload for each caller yet to flush.\<close>

definition overshoot_ok :: "Batcher \<times> nat \<Rightarrow> bool" where
  "overshoot_ok s \<longleftrightarrow> int (length (b_buf (fst s))) \<le> MaxSize (b_cfg (fst s)) - 1 + int (snd s)"

lemma bstep_overshoot:
  "bstep s l s' \<Longrightarrow> 1 \<le> MaxSize (b_cfg (fst s)) \<Longrightarrow> overshoot_ok s \<Longrightarrow>
     overshoot_ok s' \<and> b_cfg (fst s') = b_cfg (fst s)"
  by (erule bstepE)
    (auto simp: overshoot_ok_def add_locked_def flush_locked_def Let_def split: if_splits)

lemma bstep_conserves:
  "bstep s l s' \<Longrightarrow> ev_flushed l @ b_buf (fst s') = b_buf (fst s) @ ev_added l"
  by (erule bstepE) (auto simp: add_locked_def flush_locked_def Let_def split: if_splits)

lemma bruns_inv:
  "bruns (b, 0) tr s' \<Longrightarrow> b_buf b = [] \<Longrightarrow> 1 \<le> MaxSize (b_cfg b) \<Longrightarrow>
     overshoot_ok s' \<and> b_cfg (fst s') = b_cfg b \<and>
     concat (map ev_flushed tr) @ b_buf (fst s') = concat (map ev_added tr)"
proof (induction rule: bruns.induct)
  case bruns_nil
  then show ?case by (simp add: overshoot_ok_def)
next
  case (bruns_snoc tr s' l s'')
  with bstep_overshoot [OF bruns_snoc.hyps(2)] bstep_conserves [OF bruns_snoc.hyps(2)]
  show ?case by (simp flip: append_assoc) (simp add: append_assoc)
qed

text \<open>
  C19: in every interleaving of any number of callers, the buffer never holds more than
  \<^verbatim>\<open>MaxSize - 1\<close> payloads plus one for each caller between its \<^verbatim>\<open>Add\<close> section and its
  \<^verbatim>\<open>Flush\<close> section, so below \<^verbatim>\<open>MaxSize\<close> whenever no caller is in between; and the
  payloads handed over, in order, followed by the buffer are the payloads added, in order.
\<close>

theorem batcher_interleaved:
  assumes "bruns (b, 0) tr (b', k)" and "b_buf b = []" and "1 \<le> MaxSize (b_cfg b)"
  shows "int (length (b_buf b')) \<le> MaxSize (b_cfg b) - 1 + int k \<and>
    concat (map ev_flushed tr) @ b_buf b' = concat (map ev_added tr)"
  using bruns_inv [OF assms] by (auto simp: overshoot_ok_def)

theorem batcher_interleaved_witness:
  "let b = \<lparr>b_cfg = \<lparr>MaxSize = 1, FlushInterval = 5\<rparr>, b_buf = [], b_ticking = True\<rparr>;
       b' = b\<lparr>b_buf := [''x'', ''y'']\<rparr>
   in bruns (b, 0) [BAdded ''x'', BAdded ''y''] (b', 2) \<and>
      int (length (b_buf b')) \<le> MaxSize (b_cfg b) - 1 + int 2"
proof -
  let ?b = "\<lparr>b_cfg = \<lparr>MaxSize = 1, FlushInterval = 5\<rparr>, b_buf = [], b_ticking = True\<rparr>"
  let ?b1 = "?b\<lparr>b_buf := [''x'']\<rparr>" and ?b2 = "?b\<lparr>b_buf := [''x'', ''y'']\<rparr>"
  have "bstep (?b, 0) (BAdded ''x'') (?b1, 1)"
    using badd [of "''x''" ?b True ?b1 0] by (simp add: add_locked_def Let_def)
  moreover have "bstep (?b1, 1) (BAdded ''y'') (?b2, 2)"
    using badd [of "''y''" ?b1 True ?b2 1] by (simp add: add_locked_def Let_def numeral_2_eq_2)
  ultimately have runs: "bruns (?b, 0) ([BAdded ''x''] @ [BAdded ''y'']) (?b2, 2)"
    using bruns_snoc [OF bruns_nil [of "(?b, 0)"], of "BAdded ''x''" "(?b1, 1)"]
    by (intro bruns_snoc) simp_all
  show ?thesis using runs batcher_interleaved [OF runs] by (simp add: Let_def)
qed

end
