(* ===== verification/Utf8.thy ===== *)
theory Utf8
  imports Prelude
begin

text \<open>
  Package \<^verbatim>\<open>unicode/utf8\<close> of the standard library, as the JSON and \<^verbatim>\<open>%q\<close> formatting use it:
  decoding one rune from the front of a byte string, where an invalid sequence is the rune U+FFFD
  of width one, and encoding one rune. The lemmas: a decoded rune has a width between one and the
  length of the input, encoding then decoding gives the rune back, and the bytes of a rune that
  decoded properly are its encoding.
\<close>

definition runeError :: nat where "runeError = 65533"

definition valid_rune :: "nat \<Rightarrow> bool" where
  "valid_rune r \<longleftrightarrow> r < 55296 \<or> (57343 < r \<and> r \<le> 1114111)"

definition encode_rune :: "nat \<Rightarrow> bytes" where
  "encode_rune r0 =
     (let r = (if valid_rune r0 then r0 else runeError) in
      if r < 128 then [char_of r]
      else if r < 2048 then [char_of (192 + r div 64), char_of (128 + r mod 64)]
      else if r < 65536 then
        [char_of (224 + r div 4096), char_of (128 + r div 64 mod 64), char_of (128 + r mod 64)]
      else
        [char_of (240 + r div 262144), char_of (128 + r div 4096 mod 64),
         char_of (128 + r div 64 mod 64), char_of (128 + r mod 64)])"

text \<open>The continuation bytes, and the range the second byte has after each first byte.\<close>

definition cont :: "nat \<Rightarrow> bool" where
  "cont b \<longleftrightarrow> 128 \<le> b \<and> b \<le> 191"

definition second_ok :: "nat \<Rightarrow> nat \<Rightarrow> bool" where
  "second_ok b0 b1 \<longleftrightarrow> cont b1 \<and> (b0 = 224 \<longrightarrow> 160 \<le> b1) \<and> (b0 = 237 \<longrightarrow> b1 \<le> 159) \<and>
     (b0 = 240 \<longrightarrow> 144 \<le> b1) \<and> (b0 = 244 \<longrightarrow> b1 \<le> 143)"

definition invalid :: "nat \<times> nat" where "invalid = (runeError, 1)"

fun decode2 :: "nat \<Rightarrow> bytes \<Rightarrow> nat \<times> nat" where
  "decode2 b0 (c1 # _) =
     (if cont (byte c1) then ((b0 - 192) * 64 + (byte c1 - 128), 2) else invalid)"
| "decode2 b0 _ = invalid"

fun decode3 :: "nat \<Rightarrow> bytes \<Rightarrow> nat \<times> nat" where
  "decode3 b0 (c1 # c2 # _) =
     (if second_ok b0 (byte c1) \<and> cont (byte c2)
      then ((b0 - 224) * 4096 + (byte c1 - 128) * 64 + (byte c2 - 128), 3) else invalid)"
| "decode3 b0 _ = invalid"

fun decode4 :: "nat \<Rightarrow> bytes \<Rightarrow> nat \<times> nat" where
  "decode4 b0 (c1 # c2 # c3 # _) =
     (if second_ok b0 (byte c1) \<and> cont (byte c2) \<and> cont (byte c3)
      then ((b0 - 240) * 262144 + (byte c1 - 128) * 4096 + (byte c2 - 128) * 64 + (byte c3 - 128), 4)
      else invalid)"
| "decode4 b0 _ = invalid"

fun decode_rune :: "bytes \<Rightarrow> nat \<times> nat" where
  "decode_rune [] = (runeError, 0)"
| "decode_rune (c # s) =
     (let b0 = byte c in
      if b0 < 128 then (b0, 1)
      else if 194 \<le> b0 \<and> b0 \<le> 223 then decode2 b0 s
      else if 224 \<le> b0 \<and> b0 \<le> 239 then decode3 b0 s
      else if 240 \<le> b0 \<and> b0 \<le> 244 then decode4 b0 s
      else invalid)"

text \<open>A multi-byte rune in good order: what the table of the package accepts.\<close>

definition decodes :: "bytes \<Rightarrow> bool" where
  "decodes s \<longleftrightarrow> s \<noteq> [] \<and> (byte (hd s) < 128 \<or> 1 < snd (decode_rune s))"

lemma snd_invalid [simp]: "snd invalid = 1" "fst invalid = runeError"
  by (simp_all add: invalid_def)

lemma decode2_width: "1 \<le> snd (decode2 b s) \<and> snd (decode2 b s) \<le> Suc (length s)"
  by (cases "(b, s)" rule: decode2.cases) auto

lemma decode3_width: "1 \<le> snd (decode3 b s) \<and> snd (decode3 b s) \<le> Suc (length s)"
  by (cases "(b, s)" rule: decode3.cases) auto

lemma decode4_width: "1 \<le> snd (decode4 b s) \<and> snd (decode4 b s) \<le> Suc (length s)"
  by (cases "(b, s)" rule: decode4.cases) auto

lemma decode_width: "s \<noteq> [] \<Longrightarrow> 1 \<le> snd (decode_rune s) \<and> snd (decode_rune s) \<le> length s"
  using decode2_width decode3_width decode4_width by (cases s) (auto simp: Let_def)

lemma decode_width_pos [simp]: "0 < snd (decode_rune (c # s))"
  using decode_width [of "c # s"] by simp

text \<open>Decoding looks only at the bytes of the rune it finds.\<close>

lemma decode2_take: "1 < snd (decode2 b s) \<Longrightarrow> decode2 b (take 1 s @ t) = decode2 b s"
  by (cases "(b, s)" rule: decode2.cases) auto

lemma decode3_take: "1 < snd (decode3 b s) \<Longrightarrow> decode3 b (take 2 s @ t) = decode3 b s"
  by (cases "(b, s)" rule: decode3.cases) auto

lemma decode4_take: "1 < snd (decode4 b s) \<Longrightarrow> decode4 b (take 3 s @ t) = decode4 b s"
  by (cases "(b, s)" rule: decode4.cases) (auto simp: numeral_3_eq_3)

lemma decode2_snd: "1 < snd (decode2 b s) \<Longrightarrow> snd (decode2 b s) = 2"
  by (cases "(b, s)" rule: decode2.cases) (auto split: if_splits)

lemma decode3_snd: "1 < snd (decode3 b s) \<Longrightarrow> snd (decode3 b s) = 3"
  by (cases "(b, s)" rule: decode3.cases) (auto split: if_splits)

lemma decode4_snd: "1 < snd (decode4 b s) \<Longrightarrow> snd (decode4 b s) = 4"
  by (cases "(b, s)" rule: decode4.cases) (auto split: if_splits)

lemma decode_take:
  assumes "decodes s"
  shows "decode_rune (take (snd (decode_rune s)) s @ t) = decode_rune s"
proof (cases s)
  case (Cons c s')
  show ?thesis
    using assms decode2_take [of "byte c" s' t] decode3_take [of "byte c" s' t]
      decode4_take [of "byte c" s' t] decode2_snd [of "byte c" s'] decode3_snd [of "byte c" s']
      decode4_snd [of "byte c" s']
    by (auto simp: Cons decodes_def Let_def numeral_2_eq_2 numeral_3_eq_3 take_Cons'
        split: if_splits)
qed (use assms in \<open>simp add: decodes_def\<close>)

text \<open>The bytes of a rune that decodes are its encoding.\<close>

lemma encode_decode2:
  assumes "194 \<le> b" "b \<le> 223" "1 < snd (decode2 b s)"
  shows "encode_rune (fst (decode2 b s)) = char_of b # take 1 s"
proof -
  from assms(3) obtain c1 s' where s: "s = c1 # s'" "cont (byte c1)"
    by (cases "(b, s)" rule: decode2.cases) (auto split: if_splits)
  define x where "x = byte c1 - 128"
  have c1: "c1 = char_of (128 + x)" "x < 64" using s(2) by (auto simp: cont_def x_def)
  define r where "r = (b - 192) * 64 + x"
  have "r div 64 = b - 192" "r mod 64 = x" using c1(2) by (simp_all add: r_def)
  moreover have "128 \<le> r" "r < 2048" using assms(1,2) c1(2) by (auto simp: r_def)
  ultimately have "encode_rune r = [char_of b, c1]"
    using assms(1,2) c1 by (simp add: encode_rune_def valid_rune_def)
  then show ?thesis using s by (simp add: r_def x_def)
qed

lemma div_mod_step: "x < 64 \<Longrightarrow> (a * 64 + x) div 64 = a" "x < 64 \<Longrightarrow> (a * 64 + x) mod 64 = x"
  for a x :: nat
  by simp_all

lemma encode_decode3:
  assumes "224 \<le> b" "b \<le> 239" "1 < snd (decode3 b s)"
  shows "encode_rune (fst (decode3 b s)) = char_of b # take 2 s"
proof -
  from assms(3) obtain c1 c2 s' where s: "s = c1 # c2 # s'" "second_ok b (byte c1)" "cont (byte c2)"
    by (cases "(b, s)" rule: decode3.cases) (auto split: if_splits)
  define x y where "x = byte c1 - 128" and "y = byte c2 - 128"
  have c: "c1 = char_of (128 + x)" "x < 64" "c2 = char_of (128 + y)" "y < 64"
    using s(2,3) by (auto simp: cont_def second_ok_def x_def y_def)
  define q where "q = (b - 224) * 64 + x"
  define r where "r = q * 64 + y"
  have parts: "r div 64 = q" "r mod 64 = y" "q div 64 = b - 224" "q mod 64 = x"
    using c unfolding r_def q_def by (simp_all only: div_mod_step)
  have "r div 4096 = b - 224" using parts(1,3) by (simp add: div_mult2_eq [of r 64 64, simplified])
  moreover have "r div 64 mod 64 = x" using parts by simp
  moreover have "2048 \<le> r" "r < 65536" "valid_rune r"
  proof -
    define B where "B = b - 224"
    have B: "b = 224 + B" "B \<le> 15" using assms(1,2) by (simp_all add: B_def)
    have r: "r = B * 4096 + x * 64 + y" using B by (simp add: r_def q_def algebra_simps)
    have x: "B = 0 \<longrightarrow> 32 \<le> x" "B = 13 \<longrightarrow> x \<le> 31"
      using s(2) B by (auto simp: second_ok_def x_def)
    show "2048 \<le> r" using x(1) r by (cases "B = 0") auto
    show "r < 65536" using B(2) c r by linarith
    show "valid_rune r"
    proof (cases "B \<le> 12")
      case False
      then show ?thesis using x(2) c r B(2) by (cases "B = 13") (auto simp: valid_rune_def)
    qed (use r c in \<open>simp add: valid_rune_def\<close>)
  qed
  ultimately have "encode_rune r = [char_of b, c1, c2]"
    using assms(1,2) c parts by (simp add: encode_rune_def)
  moreover have "fst (decode3 b s) = r" using s by (simp add: r_def q_def x_def y_def algebra_simps)
  ultimately show ?thesis using s by simp
qed

lemma encode_decode4:
  assumes "240 \<le> b" "b \<le> 244" "1 < snd (decode4 b s)"
  shows "encode_rune (fst (decode4 b s)) = char_of b # take 3 s"
proof -
  from assms(3) obtain c1 c2 c3 s' where s: "s = c1 # c2 # c3 # s'" "second_ok b (byte c1)"
      "cont (byte c2)" "cont (byte c3)"
    by (cases "(b, s)" rule: decode4.cases) (auto split: if_splits)
  define x y z where "x = byte c1 - 128" and "y = byte c2 - 128" and "z = byte c3 - 128"
  have c: "c1 = char_of (128 + x)" "x < 64" "c2 = char_of (128 + y)" "y < 64"
      "c3 = char_of (128 + z)" "z < 64"
    using s(2-) by (auto simp: cont_def second_ok_def x_def y_def z_def)
  define p where "p = (b - 240) * 64 + x"
  define q where "q = p * 64 + y"
  define r where "r = q * 64 + z"
  have parts: "r div 64 = q" "r mod 64 = z" "q div 64 = p" "q mod 64 = y" "p div 64 = b - 240"
      "p mod 64 = x"
    using c unfolding r_def q_def p_def by (simp_all only: div_mod_step)
  have d: "r div 4096 = p" using parts by (simp add: div_mult2_eq [of r 64 64, simplified])
  moreover have "r div 262144 = b - 240"
    using parts d by (simp add: div_mult2_eq [of r 4096 64, simplified])
  moreover have "r div 4096 mod 64 = x" "r div 64 mod 64 = y" using parts d by simp_all
  moreover have "65536 \<le> r" "valid_rune r"
  proof -
    define B where "B = b - 240"
    have B: "b = 240 + B" "B \<le> 4" using assms(1,2) by (simp_all add: B_def)
    have r: "r = B * 262144 + x * 4096 + y * 64 + z"
      using B by (simp add: r_def q_def p_def algebra_simps)
    have x: "B = 0 \<longrightarrow> 16 \<le> x" "B = 4 \<longrightarrow> x \<le> 15"
      using s(2) B by (auto simp: second_ok_def x_def)
    show low: "65536 \<le> r" using x(1) r by (cases "B = 0") auto
    have "r \<le> 1114111" using x(2) c r B(2) by (cases "B = 4") auto
    with low show "valid_rune r" by (simp add: valid_rune_def)
  qed
  ultimately have "encode_rune r = [char_of b, c1, c2, c3]"
    using assms(1,2) c parts by (simp add: encode_rune_def)
  moreover have "fst (decode4 b s) = r" using s by (simp add: r_def q_def p_def x_def y_def z_def algebra_simps)
  ultimately show ?thesis using s by (simp add: numeral_3_eq_3)
qed

lemma encode_decode:
  assumes "decodes s"
  shows "encode_rune (fst (decode_rune s)) = take (snd (decode_rune s)) s"
proof (cases s)
  case (Cons c s')
  show ?thesis
    using assms encode_decode2 [of "byte c" s'] encode_decode3 [of "byte c" s']
      encode_decode4 [of "byte c" s'] decode2_snd [of "byte c" s'] decode3_snd [of "byte c" s']
      decode4_snd [of "byte c" s']
    by (auto simp: Cons decodes_def Let_def encode_rune_def [of "byte c"] valid_rune_def
        split: if_splits)
qed (use assms in \<open>simp add: decodes_def\<close>)

lemma encode_runeError: "encode_rune runeError = [char_of (239::nat), char_of (191::nat), char_of (189::nat)]"
  by (simp add: encode_rune_def runeError_def valid_rune_def)

lemma not_decodes: "s \<noteq> [] \<Longrightarrow> \<not> decodes s \<Longrightarrow> decode_rune s = invalid"
proof -
  have d2: "\<not> 1 < snd (decode2 b t) \<Longrightarrow> decode2 b t = invalid" for b t
    by (cases "(b, t)" rule: decode2.cases) auto
  have d3: "\<not> 1 < snd (decode3 b t) \<Longrightarrow> decode3 b t = invalid" for b t
    by (cases "(b, t)" rule: decode3.cases) auto
  have d4: "\<not> 1 < snd (decode4 b t) \<Longrightarrow> decode4 b t = invalid" for b t
    by (cases "(b, t)" rule: decode4.cases) auto
  show "s \<noteq> [] \<Longrightarrow> \<not> decodes s \<Longrightarrow> decode_rune s = invalid"
    using d2 d3 d4 by (cases s) (auto simp: decodes_def Let_def)
qed

declare decode_rune.simps [simp del]

lemma decode_shorter: "decode_rune (c # s) = (r, n) \<Longrightarrow> length (drop n (c # s)) < Suc (length s)"
  using decode_width [of "c # s"] by simp

end
