(* ===== verification/Jsontext.thy ===== *)
theory Jsontext
  imports Utf8 Gofmt
begin

text \<open>
  What the program has the standard library print: decimal integers, strings quoted by
  \<^verbatim>\<open>%q\<close>, JSON strings as \<^verbatim>\<open>json.Marshal\<close> escapes them, base64 for \<^verbatim>\<open>[]byte\<close> fields and
  RFC 3339 times. The Unicode table of printable runes beyond ASCII and the texts of errors that
  come from outside are parameters, gathered in \<open>fmt_env\<close>.
\<close>

section \<open>Digits\<close>

function nat_digits :: "nat \<Rightarrow> bytes" where
  "nat_digits n =
     (if n < 10 then [char_of (48 + n)] else nat_digits (n div 10) @ [char_of (48 + n mod 10)])"
  by pat_completeness auto
termination
  by (relation "measure id") auto

declare nat_digits.simps [simp del]

definition itoa :: "int \<Rightarrow> bytes" where
  "itoa x = (if x < 0 then CHR ''-'' # nat_digits (nat (- x)) else nat_digits (nat x))"

text \<open>\<open>pad w n\<close>: the decimal digits of \<open>n\<close>, padded with zeros to width \<open>w\<close>.\<close>

definition pad :: "nat \<Rightarrow> nat \<Rightarrow> bytes" where
  "pad w n = (let d = nat_digits n in replicate (w - length d) (CHR ''0'') @ d)"

definition hex_digit :: "nat \<Rightarrow> char" where
  "hex_digit n = (if n < 10 then char_of (48 + n) else char_of (87 + n))"

definition hex2 :: "nat \<Rightarrow> bytes" where
  "hex2 b = [hex_digit (b div 16), hex_digit (b mod 16)]"

section \<open>Quoting of \<^verbatim>\<open>%q\<close>\<close>

record fmt_env =
  is_print :: "nat \<Rightarrow> bool"              \<comment> \<open>\<^verbatim>\<open>unicode.IsPrint\<close> from U+0080 on\<close>
  duration_text :: "int \<Rightarrow> bytes"        \<comment> \<open>\<^verbatim>\<open>Duration.String\<close>\<close>
  lib_text :: "lib_error \<Rightarrow> bytes"       \<comment> \<open>the \<^verbatim>\<open>Error\<close> methods of foreign errors\<close>

definition quote_ascii :: "nat \<Rightarrow> bytes" where
  "quote_ascii b =
     (if b = 34 \<or> b = 92 then [CHR 0x5C, char_of b]
      else if 32 \<le> b \<and> b < 127 then [char_of b]
      else if b = 7 then [CHR 0x5C, CHR ''a''] else if b = 8 then [CHR 0x5C, CHR ''b'']
      else if b = 12 then [CHR 0x5C, CHR ''f''] else if b = 10 then [CHR 0x5C, CHR ''n'']
      else if b = 13 then [CHR 0x5C, CHR ''r''] else if b = 9 then [CHR 0x5C, CHR ''t'']
      else if b = 11 then [CHR 0x5C, CHR ''v'']
      else [CHR 0x5C, CHR ''x''] @ hex2 b)"

definition hex_u :: "nat \<Rightarrow> bytes" where
  "hex_u r = hex2 (r div 256 mod 256) @ hex2 (r mod 256)"

definition quote_rune :: "(nat \<Rightarrow> bool) \<Rightarrow> nat \<Rightarrow> bytes \<Rightarrow> bytes" where
  "quote_rune printable r raw =
     (if printable r then raw
      else if r < 65536 then [CHR 0x5C, CHR ''u''] @ hex_u r
      else [CHR 0x5C, CHR ''U''] @ hex_u (r div 65536) @ hex_u (r mod 65536))"

function quote_body :: "(nat \<Rightarrow> bool) \<Rightarrow> bytes \<Rightarrow> bytes" where
  "quote_body printable [] = []"
| "quote_body printable (c # s) =
     (if byte c < 128 then quote_ascii (byte c) @ quote_body printable s
      else let (r, n) = decode_rune (c # s) in
        if \<not> decodes (c # s) then [CHR 0x5C, CHR ''x''] @ hex2 (byte c) @ quote_body printable s
        else quote_rune printable r (take n (c # s)) @ quote_body printable (drop n (c # s)))"
  by pat_completeness auto
termination
  by (relation "measure (\<lambda>(p, s). length s)") (auto dest: sym [THEN decode_shorter])

definition quote :: "(nat \<Rightarrow> bool) \<Rightarrow> bytes \<Rightarrow> bytes" where
  "quote printable s = CHR 0x22 # quote_body printable s @ [CHR 0x22]"

fun render_piece :: "fmt_env \<Rightarrow> piece \<Rightarrow> bytes" where
  "render_piece fe (Lit s) = s"
| "render_piece fe (Quoted s) = quote (is_print fe) s"
| "render_piece fe (Dec n) = itoa n"
| "render_piece fe (piece.Duration d) = duration_text fe d"
| "render_piece fe (Lib_text e) = lib_text fe e"

definition render :: "fmt_env \<Rightarrow> msg \<Rightarrow> bytes" where
  "render fe m = concat (map (render_piece fe) m)"

section \<open>JSON strings\<close>

definition html_safe :: "nat \<Rightarrow> bool" where
  "html_safe b \<longleftrightarrow> 32 \<le> b \<and> b < 128 \<and> b \<noteq> 34 \<and> b \<noteq> 92 \<and> b \<noteq> 60 \<and> b \<noteq> 62 \<and> b \<noteq> 38"

definition escape_ascii :: "nat \<Rightarrow> bytes" where
  "escape_ascii b =
     (if html_safe b then [char_of b]
      else if b = 34 \<or> b = 92 then [CHR 0x5C, char_of b]
      else if b = 8 then [CHR 0x5C, CHR ''b''] else if b = 12 then [CHR 0x5C, CHR ''f'']
      else if b = 10 then [CHR 0x5C, CHR ''n''] else if b = 13 then [CHR 0x5C, CHR ''r'']
      else if b = 9 then [CHR 0x5C, CHR ''t'']
      else [CHR 0x5C, CHR ''u'', CHR ''0'', CHR ''0''] @ hex2 b)"

text \<open>U+2028 and U+2029 are escaped although JSON allows them.\<close>

definition line_sep :: "nat \<Rightarrow> bool" where
  "line_sep r \<longleftrightarrow> r = 8232 \<or> r = 8233"

function json_escape :: "bytes \<Rightarrow> bytes" where
  "json_escape [] = []"
| "json_escape (c # s) =
     (if byte c < 128 then escape_ascii (byte c) @ json_escape s
      else let (r, n) = decode_rune (c # s) in
        if \<not> decodes (c # s) then [CHR 0x5C] @ ''ufffd'' @ json_escape s
        else if line_sep r then [CHR 0x5C] @ ''u202'' @ [hex_digit (r mod 16)] @ json_escape (drop n (c # s))
        else take n (c # s) @ json_escape (drop n (c # s)))"
  by pat_completeness auto
termination
  by (relation "measure length") (auto dest: sym [THEN decode_shorter])

definition json_string :: "bytes \<Rightarrow> bytes" where
  "json_string s = CHR 0x22 # json_escape s @ [CHR 0x22]"

text \<open>The key of an object member, for the field names of the program, with its colon.\<close>

definition json_key :: "bytes \<Rightarrow> bytes" where
  "json_key k = CHR 0x22 # k @ [CHR 0x22, CHR '':'']"

definition str_member :: "bytes \<Rightarrow> bytes \<Rightarrow> bytes" where
  "str_member key s = json_key key @ json_string s"

section \<open>Base64\<close>

definition b64_digit :: "nat \<Rightarrow> char" where
  "b64_digit n =
     (if n < 26 then char_of (65 + n) else if n < 52 then char_of (71 + n)
      else if n < 62 then char_of (n - 4) else if n = 62 then CHR ''+'' else CHR ''/'')"

fun base64 :: "bytes \<Rightarrow> bytes" where
  "base64 (a # b # c # s) =
     (let n = byte a * 65536 + byte b * 256 + byte c
      in [b64_digit (n div 262144), b64_digit (n div 4096 mod 64), b64_digit (n div 64 mod 64),
          b64_digit (n mod 64)] @ base64 s)"
| "base64 [a, b] =
     (let n = byte a * 65536 + byte b * 256
      in [b64_digit (n div 262144), b64_digit (n div 4096 mod 64), b64_digit (n div 64 mod 64), CHR ''=''])"
| "base64 [a] =
     (let n = byte a * 65536
      in [b64_digit (n div 262144), b64_digit (n div 4096 mod 64), CHR ''='', CHR ''=''])"
| "base64 [] = []"

section \<open>Times\<close>

text \<open>
  A wall-clock time in UTC is its number of nanoseconds since 1970. \<open>civil\<close> is the year, month
  and day of a day number in the proleptic Gregorian calendar, by eras of 400 years from March 1st.
\<close>

definition civil :: "int \<Rightarrow> int \<times> int \<times> int" where
  "civil days =
     (let z = days + 719468;
          era = z div 146097;
          doe = z mod 146097;
          yoe = (doe - doe div 1460 + doe div 36524 - doe div 146096) div 365;
          doy = doe - (365 * yoe + yoe div 4 - yoe div 100);
          mp = (5 * doy + 2) div 153;
          d = doy - (153 * mp + 2) div 5 + 1;
          m = (if mp < 10 then mp + 3 else mp - 9);
          y = yoe + era * 400 + (if m \<le> 2 then 1 else 0)
      in (y, m, d))"

fun strip_zeros :: "bytes \<Rightarrow> bytes" where
  "strip_zeros [] = []"
| "strip_zeros (c # s) = (if c = CHR ''0'' then strip_zeros s else c # s)"

definition frac_part :: "nat \<Rightarrow> bytes" where
  "frac_part ns = (if ns = 0 then [] else CHR ''.'' # rev (strip_zeros (rev (pad 9 ns))))"

definition time_json :: "int \<Rightarrow> bytes option" where
  "time_json t =
     (let secs = t div 1000000000; ns = nat (t mod 1000000000);
          (y, m, d) = civil (secs div 86400); sod = nat (secs mod 86400)
      in if y < 0 \<or> 9999 < y then None
         else Some ([CHR 0x22] @ pad 4 (nat y) @ ''-'' @ pad 2 (nat m) @ ''-'' @ pad 2 (nat d) @ ''T'' @
           pad 2 (sod div 3600) @ '':'' @ pad 2 (sod div 60 mod 60) @ '':'' @ pad 2 (sod mod 60) @
           frac_part ns @ ''Z'' @ [CHR 0x22]))"

end
