(* ===== verification/Dlq.thy ===== *)
theory Dlq
  imports Config Metrics Jsontext "HOL-Library.Sublist"
begin

text \<open>
  Package \<^verbatim>\<open>internal/dlq\<close>: the dead letter queue. A rejected payload is an \<open>Entry\<close>, written
  as one line of JSON to the target file, or to the log when no file is open. The file system is
  outside: opening is a parameter of \<open>dlq_New\<close>, and what a write and a close do is part of the
  record \<open>io\<close> of outcomes the environment chooses at each call, with the wall-clock time and the
  text of a stack trace.
\<close>

section \<open>State\<close>

record Entry =
  ReceivedAt :: int
  e_Source :: bytes
  Reason :: bytes
  Raw :: bytes

record DLQ_state =
  q_cfg :: DLQConfig
  q_file :: bool           \<comment> \<open>whether \<^verbatim>\<open>file\<close> is non-nil\<close>
  q_disk :: bytes          \<comment> \<open>the contents of the target file\<close>

datatype write_result = Written | Short nat lib_error

record io =
  wall :: int
  wr :: write_result
  stack :: bytes

section \<open>One entry as JSON\<close>

definition marshal_entry :: "Entry \<Rightarrow> bytes option" where
  "marshal_entry e =
     (case time_json (ReceivedAt e) of
        None \<Rightarrow> None
      | Some t \<Rightarrow> Some (''{'' @ json_key ''received_at'' @ t @ '','' @
          json_key ''source'' @ json_string (e_Source e) @ '','' @
          json_key ''reason'' @ json_string (Reason e) @ '','' @
          json_key ''raw'' @ [CHR 0x22] @ base64 (Raw e) @ [CHR 0x22] @ ''}''))"

abbreviation newline :: char where "newline \<equiv> CHR 0x0A"

section \<open>Operations\<close>

definition dlq_New :: "(bytes \<Rightarrow> error + bytes) \<Rightarrow> DLQConfig \<Rightarrow> error + DLQ_state" where
  "dlq_New open_file cfg =
     (if Backend cfg = ''file'' \<and> Target cfg \<noteq> [] then
        (case open_file (Target cfg) of
           Inl e \<Rightarrow> Inl (errorf_w [Lit ''dlq: open file '', Quoted (Target cfg), Lit '': ''] e)
         | Inr disk \<Rightarrow> Inr \<lparr>q_cfg = cfg, q_file = True, q_disk = disk\<rparr>)
      else Inr \<lparr>q_cfg = cfg, q_file = False, q_disk = []\<rparr>)"

definition Push ::
  "io \<Rightarrow> bytes \<Rightarrow> bytes \<Rightarrow> bytes \<Rightarrow> DLQ_state \<Rightarrow> 'z env_scheme \<Rightarrow> DLQ_state \<times> 'z env_scheme" where
  "Push io source reason raw d s =
     (case marshal_entry \<lparr>ReceivedAt = wall io, e_Source = source, Reason = reason, Raw = raw\<rparr> of
        None \<Rightarrow> (d, log_Printf [Lit ''[DLQ] marshal error source='', Quoted source, Lit '' reason='',
                   Quoted reason, Lit '': '', Lib_text Json_marshaler] s)
      | Some b \<Rightarrow>
          if q_file d then
            (case wr io of
               Written \<Rightarrow> (d\<lparr>q_disk := q_disk d @ b @ [newline]\<rparr>, s)
             | Short k e \<Rightarrow> (d\<lparr>q_disk := q_disk d @ take k (b @ [newline])\<rparr>,
                 log_Printf [Lit ''[DLQ] write error source='', Quoted source, Lit '': '', Lib_text e] s))
          else (d, log_Printf [Lit ''[DLQ] '', Lit b] s))"

text \<open>\<^verbatim>\<open>Close\<close>, given the error the file's own \<^verbatim>\<open>Close\<close> returns.\<close>

definition dlq_Close :: "error option \<Rightarrow> DLQ_state \<Rightarrow> error option \<times> DLQ_state" where
  "dlq_Close err d = (if \<not> q_file d then (None, d) else (err, d\<lparr>q_file := False\<rparr>))"

section \<open>Lines\<close>

text \<open>The complete lines of a file, without their newlines.\<close>

function file_lines :: "bytes \<Rightarrow> bytes list" where
  "file_lines s =
     (case dropWhile (\<lambda>c. c \<noteq> newline) s of
        [] \<Rightarrow> []
      | c # rest \<Rightarrow> takeWhile (\<lambda>c. c \<noteq> newline) s # file_lines rest)"
  by pat_completeness auto
termination
proof (relation "measure length", goal_cases)
  case (2 s c rest)
  have "length (dropWhile (\<lambda>c. c \<noteq> newline) s) \<le> length s" by (rule length_dropWhile_le)
  with 2 show ?case by simp
qed simp

declare file_lines.simps [simp del]

lemma file_lines_Nil [simp]: "file_lines [] = []"
  by (simp add: file_lines.simps)

lemma file_lines_Cons: "newline \<notin> set l \<Longrightarrow> file_lines (l @ newline # s) = l # file_lines s"
proof -
  assume "newline \<notin> set l"
  then have "takeWhile (\<lambda>c. c \<noteq> newline) (l @ newline # s) = l"
      "dropWhile (\<lambda>c. c \<noteq> newline) (l @ newline # s) = newline # s"
    by (induction l) auto
  then show ?thesis by (simp add: file_lines.simps [of "l @ newline # s"])
qed

lemma file_lines_append:
  "s = concat (map (\<lambda>l. l @ [newline]) ls) \<Longrightarrow> \<forall>l \<in> set ls. newline \<notin> set l \<Longrightarrow> file_lines s = ls"
  by (induction ls arbitrary: s) (auto simp: file_lines_Cons)

text \<open>A file without a torn last line is followed by the lines that are appended to it.\<close>

definition untorn :: "bytes \<Rightarrow> bool" where
  "untorn s \<longleftrightarrow> s = [] \<or> last s = newline"

lemma file_lines_untorn: "untorn s \<Longrightarrow> file_lines (s @ t) = file_lines s @ file_lines t"
proof (induction s rule: file_lines.induct)
  case (1 s)
  let ?l = "takeWhile (\<lambda>c. c \<noteq> newline) s" and ?r = "dropWhile (\<lambda>c. c \<noteq> newline) s"
  have l: "newline \<notin> set ?l" by (auto dest: set_takeWhileD)
  show ?case
  proof (cases ?r)
    case Nil
    then have "newline \<notin> set s" by (auto simp: dropWhile_eq_Nil_conv)
    with "1.prems" have "s = []" unfolding untorn_def by (metis last_in_set)
    then show ?thesis by simp
  next
    case (Cons c rest)
    then have c: "c = newline" using hd_dropWhile [of "\<lambda>c. c \<noteq> newline" s] by simp
    have s: "s = ?l @ newline # rest" using takeWhile_dropWhile_id [of "\<lambda>c. c \<noteq> newline" s] Cons c by simp
    have "last s = last (newline # rest)" by (subst s) simp
    moreover have "s \<noteq> []" using Cons by auto
    ultimately have "untorn rest" using "1.prems" by (simp add: untorn_def split: if_splits)
    with "1.IH" [OF Cons] have "file_lines (rest @ t) = file_lines rest @ file_lines t" .
    then have "file_lines ((?l @ newline # rest) @ t) = file_lines (?l @ newline # rest) @ file_lines t"
      by (simp only: append_assoc append_Cons file_lines_Cons [OF l])
    then show ?thesis by (simp only: s [symmetric])
  qed
qed

text \<open>No byte of an encoded entry is a newline.\<close>

definition clean :: "bytes \<Rightarrow> bool" where
  "clean s \<longleftrightarrow> newline \<notin> set s"

lemma clean_simps [simp]:
  "clean []" "clean (s @ t) \<longleftrightarrow> clean s \<and> clean t" "clean (c # s) \<longleftrightarrow> c \<noteq> newline \<and> clean s"
  by (auto simp: clean_def)

lemma newline_byte: "c = newline \<longleftrightarrow> byte c = 10"
proof -
  have "byte newline = 10" by simp
  then show ?thesis by (metis of_char_eq_iff)
qed

lemma char_of_newline: "n < 256 \<Longrightarrow> char_of n = newline \<longleftrightarrow> n = (10 :: nat)"
  by (simp add: newline_byte)

lemma hex_digit_clean [simp]: "n < 16 \<Longrightarrow> hex_digit n \<noteq> newline"
  by (simp add: hex_digit_def char_of_newline)

lemma hex2_clean [simp]: "b < 256 \<Longrightarrow> clean (hex2 b)"
  by (simp add: hex2_def less_mult_imp_div_less)

lemma escape_ascii_clean: "b < 128 \<Longrightarrow> clean (escape_ascii b)"
  by (auto simp: escape_ascii_def html_safe_def char_of_newline)

lemma decoded_clean:
  assumes "decodes s" and "128 \<le> byte (hd s)"
  shows "clean (take (snd (decode_rune s)) s)"
proof -
  obtain c t where s: "s = c # t" "128 \<le> byte c" using assms by (cases s) (auto simp: decodes_def)
  have c: "c \<noteq> newline" using s(2) by (auto simp: newline_byte)
  have n: "cont (byte x) \<Longrightarrow> x \<noteq> newline" "second_ok b (byte x) \<Longrightarrow> x \<noteq> newline" for x b
    by (auto simp: cont_def second_ok_def newline_byte)
  have "clean (take (snd (decode2 b t) - 1) t)" for b
    using n by (cases "(b, t)" rule: decode2.cases) auto
  moreover have "clean (take (snd (decode3 b t) - 1) t)" for b
    using n by (cases "(b, t)" rule: decode3.cases) (auto simp: numeral_2_eq_2)
  moreover have "clean (take (snd (decode4 b t) - 1) t)" for b
    using n by (cases "(b, t)" rule: decode4.cases) (auto simp: numeral_2_eq_2 numeral_3_eq_3)
  ultimately show ?thesis using s c by (auto simp: decode_rune.simps Let_def take_Cons')
qed

lemma json_escape_clean: "clean (json_escape s)"
proof (induction s rule: json_escape.induct)
  case (2 c s)
  obtain r n where rn: "decode_rune (c # s) = (r, n)" by (cases "decode_rune (c # s)")
  show ?case
    using escape_ascii_clean [of "byte c"] decoded_clean [of "c # s"] 2(1) 2(2-4) [OF _ rn [symmetric] refl] rn
    by (auto simp: Let_def)
qed simp

lemma base64_clean: "clean (base64 s)"
proof -
  have digit: "b64_digit n \<noteq> newline" if "n < 64" for n
    using that by (auto simp: b64_digit_def char_of_newline)
  have top: "(byte a * 65536 + byte b * 256 + byte c) div 262144 < 64" for a b c
  proof -
    have "byte a * 65536 + byte b * 256 + byte c < 64 * 262144"
      using nat_of_char_less_256 [of a] nat_of_char_less_256 [of b] nat_of_char_less_256 [of c]
      by linarith
    then show ?thesis by (rule less_mult_imp_div_less)
  qed
  have top2: "(byte a * 65536 + byte b * 256) div 262144 < 64" for a b
    using top [of a b "CHR 0x00"] by simp
  have top3: "byte a * 65536 div 262144 < 64" for a
    using top2 [of a "CHR 0x00"] by simp
  show ?thesis
    by (induction s rule: base64.induct) (auto simp: Let_def intro!: digit top top2 top3 [simplified])
qed

lemma nat_digits_clean: "clean (nat_digits n)"
  by (induction n rule: nat_digits.induct) (subst nat_digits.simps, auto simp: char_of_newline)

lemma pad_clean: "clean (pad w n)"
  using nat_digits_clean [of n] by (auto simp: pad_def Let_def clean_def)

lemma strip_zeros_subset: "set (strip_zeros s) \<subseteq> set s"
  by (induction s) auto

lemma frac_part_clean: "clean (frac_part n)"
  using pad_clean [of 9 n] strip_zeros_subset [of "rev (pad 9 n)"]
  by (auto simp: frac_part_def clean_def)

lemma time_json_clean: "time_json t = Some b \<Longrightarrow> clean b"
  by (auto simp: time_json_def split_beta Let_def pad_clean frac_part_clean split: if_splits)

lemma marshal_entry_clean: "marshal_entry e = Some b \<Longrightarrow> clean b"
  by (auto simp: marshal_entry_def json_key_def json_string_def json_escape_clean base64_clean
      time_json_clean split: option.splits)

section \<open>What the queue keeps\<close>

text \<open>A call of \<^verbatim>\<open>Push\<close> with what the environment does during it, and many calls in order.\<close>

type_synonym push_call = "io \<times> bytes \<times> bytes \<times> bytes"

definition entry_of :: "push_call \<Rightarrow> Entry" where
  "entry_of = (\<lambda>(io, source, reason, raw).
     \<lparr>ReceivedAt = wall io, e_Source = source, Reason = reason, Raw = raw\<rparr>)"

fun push_all :: "push_call list \<Rightarrow> DLQ_state \<Rightarrow> 'z env_scheme \<Rightarrow> DLQ_state \<times> 'z env_scheme" where
  "push_all [] d s = (d, s)"
| "push_all ((io, source, reason, raw) # ps) d s =
     (let (d', s') = Push io source reason raw d s in push_all ps d' s')"

text \<open>The time of the call can be printed: its year has at most four digits.\<close>

definition printable_time :: "io \<Rightarrow> bool" where
  "printable_time io \<longleftrightarrow> time_json (wall io) \<noteq> None"

definition push_ok :: "push_call \<Rightarrow> bool" where
  "push_ok p \<longleftrightarrow> printable_time (fst p) \<and> wr (fst p) = Written"

lemma marshal_entry_of: "printable_time (fst p) \<Longrightarrow> \<exists>b. marshal_entry (entry_of p) = Some b \<and> clean b"
  by (cases p) (auto simp: printable_time_def marshal_entry_def entry_of_def json_key_def
      json_string_def json_escape_clean base64_clean time_json_clean)

definition json_line :: "push_call \<Rightarrow> bytes" where
  "json_line p = the (marshal_entry (entry_of p))"

lemma json_line_clean: "push_ok p \<Longrightarrow> newline \<notin> set (json_line p)"
  using marshal_entry_of [of p] by (auto simp: push_ok_def json_line_def clean_def)

lemma push_file_ok:
  assumes "q_file d" and "push_ok (io, source, reason, raw)"
  shows "Push io source reason raw d s =
    (d\<lparr>q_disk := q_disk d @ json_line (io, source, reason, raw) @ [newline]\<rparr>, s)"
  using assms marshal_entry_of [of "(io, source, reason, raw)"]
  by (auto simp: Push_def push_ok_def json_line_def entry_of_def)

lemma push_all_file:
  "q_file d \<Longrightarrow> \<forall>p \<in> set ps. push_ok p \<Longrightarrow>
   push_all ps d s = (d\<lparr>q_disk := q_disk d @ concat (map (\<lambda>p. json_line p @ [newline]) ps)\<rparr>, s)"
proof (induction ps arbitrary: d)
  case (Cons p ps)
  then show ?case by (cases p) (simp add: push_file_ok)
qed simp

lemma Push_frame [frame_simps]:
  "q_file (fst (Push io source reason raw d s)) = q_file d"
  "q_cfg (fst (Push io source reason raw d s)) = q_cfg d"
  "active (snd (Push io source reason raw d s)) = active s"
  "clock (snd (Push io source reason raw d s)) = clock s"
  "env.more (snd (Push io source reason raw d s)) = env.more s"
  by (auto simp: Push_def log_Printf_def split: option.split write_result.split)

lemma push_all_lines:
  assumes "q_file d" and "untorn (q_disk d)" and "\<forall>p \<in> set ps. push_ok p"
  shows "file_lines (q_disk (fst (push_all ps d s))) = file_lines (q_disk d) @ map json_line ps"
proof -
  have "\<forall>l \<in> set (map json_line ps). newline \<notin> set l"
    using assms(3) json_line_clean by simp
  then show ?thesis
    using assms file_lines_append [OF refl, of "map json_line ps"]
    by (simp add: push_all_file comp_def file_lines_untorn)
qed

text \<open>
  C21: on an open file, as long as the writes succeed, every rejected payload becomes exactly one
  line of the file, in the order of the calls, whatever bytes the source, the reason and the
  payload contain: what is in the file stays, the complete lines after it are the JSON encodings of
  the entries, and no entry is split by a newline of its own. Nothing is logged. The file may be new or
  one an earlier process left, if its last line is not torn by a write that failed.
\<close>

theorem dlq_one_line_per_entry:
  assumes "q_file d" and "untorn (q_disk d)" and "\<forall>p \<in> set ps. push_ok p"
  shows "file_lines (q_disk (fst (push_all ps d s))) = file_lines (q_disk d) @ map json_line ps \<and>
    prefix (q_disk d) (q_disk (fst (push_all ps d s))) \<and> snd (push_all ps d s) = s"
  using push_all_lines [OF assms] by (simp add: push_all_file [OF assms(1,3)])

theorem dlq_one_line_per_entry_witness:
  "file_lines (q_disk (fst (push_all
      [(\<lparr>wall = 0, wr = Written, stack = []\<rparr>, ''a'', [newline], ''x'')]
      \<lparr>q_cfg = \<lparr>Backend = ''file'', Target = ''t''\<rparr>, q_file = True, q_disk = []\<rparr>
      \<lparr>active = nopProvider, clock = 0, log_lines = []\<rparr>))) =
    [''{'' @ json_key ''received_at'' @ [CHR 0x22] @ ''1970-01-01T00:00:00Z'' @ [CHR 0x22] @ '','' @
     json_key ''source'' @ json_string ''a'' @ '','' @ json_key ''reason'' @ json_string [newline] @
     '','' @ json_key ''raw'' @ [CHR 0x22] @ ''eA=='' @ [CHR 0x22] @ ''}'']"
proof -
  let ?p = "(\<lparr>wall = 0, wr = Written, stack = []\<rparr>, ''a'', [newline], ''x'')"
  have time: "time_json 0 = Some ([CHR 0x22] @ ''1970-01-01T00:00:00Z'' @ [CHR 0x22])" by code_simp
  have raw: "base64 ''x'' = ''eA==''" by code_simp
  have "push_ok ?p" by (simp add: push_ok_def printable_time_def time)
  then show ?thesis
    by (subst dlq_one_line_per_entry [THEN conjunct1])
      (simp_all add: json_line_def entry_of_def marshal_entry_def untorn_def time raw del: base64.simps)
qed

text \<open>
  No \<^verbatim>\<open>Push\<close> goes unrecorded and none destroys what was recorded: the file only grows,
  and a call either appends the entry's full line to the file or prints exactly one line of log.
\<close>

lemma push_leaves_a_trace:
  "\<exists>suffix. q_disk (fst (Push io source reason raw d s)) = q_disk d @ suffix \<and>
     (let p = (io, source, reason, raw); logged = log_lines (snd (Push io source reason raw d s))
      in (suffix = json_line p @ [newline] \<and> push_ok p \<and> q_file d \<and> logged = log_lines s) \<or>
         (\<exists>m. logged = log_lines s @ [m]))"
  by (auto simp: Push_def log_Printf_def Let_def push_ok_def printable_time_def json_line_def
      entry_of_def marshal_entry_def split: option.split write_result.split)

lemma push_all_closed:
  "\<not> q_file d \<Longrightarrow> fst (push_all ps d s) = d \<and>
     length (log_lines (snd (push_all ps d s))) = length (log_lines s) + length ps"
proof (induction ps arbitrary: s)
  case (Cons p ps)
  obtain io source reason raw where p: "p = (io, source, reason, raw)" by (cases p)
  have "\<exists>m. Push io source reason raw d s = (d, log_Printf m s)"
    using Cons.prems by (auto simp: Push_def split: option.split)
  with Cons p show ?case by (auto simp: log_Printf_def)
qed simp

text \<open>
  After \<^verbatim>\<open>Close\<close> the file is never touched again: whatever is pushed, its contents stay
  as they were and each call prints one line of log; closing again returns nil and changes nothing.
\<close>

lemma dlq_closed_for_good:
  "let d' = snd (dlq_Close err d)
   in fst (push_all ps d' s) = d' \<and> q_disk d' = q_disk d \<and>
      length (log_lines (snd (push_all ps d' s))) = length (log_lines s) + length ps \<and>
      dlq_Close err' d' = (None, d')"
  using push_all_closed [of "snd (dlq_Close err d)" ps s]
  by (simp add: dlq_Close_def Let_def)

text \<open>
  \<^verbatim>\<open>New\<close> fails exactly when the backend is the file, a target is named and opening it
  fails; the error names the target and wraps the cause. Otherwise the queue holds the file open
  exactly when the backend is the file and a target is named.
\<close>

lemma dlq_New_outcome:
  "case dlq_New open_file cfg of
     Inl e \<Rightarrow> Backend cfg = ''file'' \<and> Target cfg \<noteq> [] \<and> mentions (err_text e) (Target cfg) \<and>
       (\<exists>cause. open_file (Target cfg) = Inl cause \<and> errors_Is (Some e) cause)
   | Inr d \<Rightarrow> q_cfg d = cfg \<and> (q_file d \<longleftrightarrow> Backend cfg = ''file'' \<and> Target cfg \<noteq> []) \<and>
       (if q_file d then open_file (Target cfg) = Inr (q_disk d) else q_disk d = [])"
  by (auto simp: dlq_New_def errorf_w_def mentions_def errors_Is_def split: sum.split)

end
