(* ===== verification/Json.thy ===== *)
theory Json
  imports Jsontext
begin

text \<open>
  Package \<^verbatim>\<open>encoding/json\<close> as far as the program uses it for reading: the scanner's grammar as a
  parser into a tree that keeps the literals of the text, the nesting limit included, and the
  printing that compaction of a raw message amounts to. An object member keeps the exact text of
  its value, which a \<^verbatim>\<open>json.RawMessage\<close> field receives. The lemmas: the parser consumes a
  prefix, its guards against a rest that does not shrink are never needed, and parsing what was
  printed gives the tree back.
\<close>

section \<open>Scanning literals\<close>

definition is_ws :: "char \<Rightarrow> bool" where
  "is_ws c \<longleftrightarrow> c = CHR '' '' \<or> c = CHR 0x09 \<or> c = CHR 0x0D \<or> c = CHR 0x0A"

definition skip_ws :: "bytes \<Rightarrow> bytes" where
  "skip_ws s = dropWhile is_ws s"

definition is_hex :: "char \<Rightarrow> bool" where
  "is_hex c \<longleftrightarrow> is_digit c \<or> (97 \<le> byte c \<and> byte c \<le> 102) \<or> (65 \<le> byte c \<and> byte c \<le> 70)"

definition simple_escape :: "char \<Rightarrow> bool" where
  "simple_escape e \<longleftrightarrow> e \<in> {CHR 0x22, CHR 0x5C, CHR ''/'', CHR ''b'', CHR ''f'', CHR ''n'', CHR ''r'', CHR ''t''}"

abbreviation quot :: char where "quot \<equiv> CHR 0x22"
abbreviation backslash :: char where "backslash \<equiv> CHR 0x5C"

text \<open>
  The contents of a string up to its closing quote, still escaped, and the text after the quote.
  \<open>str_ok\<close> recognises such contents.
\<close>

definition prefixed :: "bytes \<Rightarrow> (bytes \<times> bytes) option \<Rightarrow> (bytes \<times> bytes) option" where
  "prefixed pre r = (case r of None \<Rightarrow> None | Some (raw, rest) \<Rightarrow> Some (pre @ raw, rest))"

fun scan_string :: "bytes \<Rightarrow> (bytes \<times> bytes) option" where
  "scan_string [] = None"
| "scan_string (c # s) =
     (if c = quot then Some ([], s)
      else if c = backslash then
        (case s of
           [] \<Rightarrow> None
         | e # t \<Rightarrow>
             if simple_escape e then prefixed [c, e] (scan_string t)
             else if e = CHR ''u'' then
               (case t of
                  h1 # h2 # h3 # h4 # t' \<Rightarrow>
                    if is_hex h1 \<and> is_hex h2 \<and> is_hex h3 \<and> is_hex h4
                    then prefixed [c, e, h1, h2, h3, h4] (scan_string t') else None
                | _ \<Rightarrow> None)
             else None)
      else if byte c < 32 then None
      else prefixed [c] (scan_string s))"

inductive str_ok :: "bytes \<Rightarrow> bool" where
  str_nil: "str_ok []"
| str_plain: "c \<noteq> quot \<Longrightarrow> c \<noteq> backslash \<Longrightarrow> 32 \<le> byte c \<Longrightarrow> str_ok s \<Longrightarrow> str_ok (c # s)"
| str_escape: "simple_escape e \<Longrightarrow> str_ok s \<Longrightarrow> str_ok (backslash # e # s)"
| str_unicode: "is_hex h1 \<Longrightarrow> is_hex h2 \<Longrightarrow> is_hex h3 \<Longrightarrow> is_hex h4 \<Longrightarrow> str_ok s \<Longrightarrow>
     str_ok (backslash # CHR ''u'' # h1 # h2 # h3 # h4 # s)"

lemma not_simple_u [simp]: "\<not> simple_escape (CHR ''u'')"
  by (simp add: simple_escape_def)

lemma scan_str_ok: "str_ok raw \<Longrightarrow> scan_string (raw @ quot # r) = Some (raw, r)"
  by (induction rule: str_ok.induct) (auto simp: prefixed_def)

lemma prefixed_Some:
  "prefixed pre x = Some (raw, r) \<longleftrightarrow> (\<exists>raw'. x = Some (raw', r) \<and> raw = pre @ raw')"
  by (auto simp: prefixed_def split: option.splits)

lemma scan_string_split:
  "scan_string s = Some (raw, r) \<Longrightarrow> s = raw @ quot # r \<and> str_ok raw"
proof (induction "length s" arbitrary: s raw rule: less_induct)
  case less
  have IH: "scan_string t = Some (raw', r) \<Longrightarrow> length t < length s \<Longrightarrow>
      t = raw' @ quot # r \<and> str_ok raw'" for t raw'
    using less.hyps by blast
  obtain c t where s: "s = c # t" using less.prems by (cases s) auto
  consider "c = quot" | "c = backslash" | "c \<noteq> quot" "c \<noteq> backslash" by blast
  then show ?case
  proof cases
    case 1
    with less.prems s show ?thesis by (auto intro: str_ok.intros)
  next
    case 2
    with less.prems s show ?thesis
      by (auto simp: prefixed_Some split: if_splits list.splits dest!: IH intro: str_ok.intros)
  next
    case 3
    with less.prems s obtain raw' where raw': "scan_string t = Some (raw', r)" "raw = c # raw'"
        "32 \<le> byte c"
      by (auto simp: prefixed_Some split: if_splits)
    with IH [OF raw'(1)] s 3 show ?thesis by (auto intro: str_plain)
  qed
qed

definition scan_frac :: "bytes \<Rightarrow> (bytes \<times> bytes) option" where
  "scan_frac s =
     (if s \<noteq> [] \<and> hd s = CHR ''.'' then
        (let ds = takeWhile is_digit (tl s)
         in if ds = [] then None else Some (CHR ''.'' # ds, dropWhile is_digit (tl s)))
      else Some ([], s))"

definition scan_exp :: "bytes \<Rightarrow> (bytes \<times> bytes) option" where
  "scan_exp s =
     (if s \<noteq> [] \<and> (hd s = CHR ''e'' \<or> hd s = CHR ''E'') then
        (let t = tl s;
             sgn = (if t \<noteq> [] \<and> (hd t = CHR ''+'' \<or> hd t = CHR ''-'') then [hd t] else []);
             u = (if sgn = [] then t else tl t);
             ds = takeWhile is_digit u
         in if ds = [] then None else Some (hd s # sgn @ ds, dropWhile is_digit u))
      else Some ([], s))"

definition scan_int :: "bytes \<Rightarrow> (bytes \<times> bytes) option" where
  "scan_int s =
     (if s \<noteq> [] \<and> hd s = CHR ''0'' then Some ([CHR ''0''], tl s)
      else let ds = takeWhile is_digit s in if ds = [] then None else Some (ds, dropWhile is_digit s))"

definition scan_number :: "bytes \<Rightarrow> (bytes \<times> bytes) option" where
  "scan_number s =
     (let minus = s \<noteq> [] \<and> hd s = CHR ''-''; sgn = (if minus then ''-'' else []);
          s0 = (if minus then tl s else s)
      in case scan_int s0 of
           None \<Rightarrow> None
         | Some (i, s1) \<Rightarrow>
             (case scan_frac s1 of
                None \<Rightarrow> None
              | Some (f, s2) \<Rightarrow>
                  (case scan_exp s2 of
                     None \<Rightarrow> None
                   | Some (e, s3) \<Rightarrow> Some (sgn @ i @ f @ e, s3))))"

definition num_ok :: "bytes \<Rightarrow> bool" where
  "num_ok raw \<longleftrightarrow> scan_number raw = Some (raw, [])"

text \<open>What can follow a number without being read as part of it.\<close>

definition num_stop :: "bytes \<Rightarrow> bool" where
  "num_stop r \<longleftrightarrow> r = [] \<or> \<not> (is_digit (hd r) \<or> hd r = CHR ''.'' \<or> hd r = CHR ''e'' \<or> hd r = CHR ''E'')"

lemma takeWhile_stop:
  "(dropWhile P s = [] \<Longrightarrow> r = [] \<or> \<not> P (hd r)) \<Longrightarrow>
   takeWhile P (s @ r) = takeWhile P s \<and> dropWhile P (s @ r) = dropWhile P s @ r"
proof (induction s)
  case Nil
  then show ?case by (cases r) auto
qed auto

lemma scan_int_split: "scan_int s = Some (i, r) \<Longrightarrow> s = i @ r \<and> i \<noteq> []"
  by (cases s) (auto simp: scan_int_def Let_def split: if_splits)

lemma scan_frac_split: "scan_frac s = Some (f, r) \<Longrightarrow> s = f @ r"
  by (cases s) (auto simp: scan_frac_def Let_def split: if_splits)

lemma scan_exp_split: "scan_exp s = Some (e, r) \<Longrightarrow> s = e @ r"
  by (cases s; cases "tl s") (auto simp: scan_exp_def Let_def split: if_splits)

lemma scan_number_split: "scan_number s = Some (raw, r) \<Longrightarrow> s = raw @ r \<and> raw \<noteq> []"
  by (cases s) (auto simp: scan_number_def Let_def split: if_splits option.splits
      dest!: scan_int_split scan_frac_split scan_exp_split)

lemma num_stopD:
  "num_stop r \<Longrightarrow> r = [] \<or> \<not> is_digit (hd r)"
  by (auto simp: num_stop_def)

lemma is_digit_simps [simp]:
  "\<not> is_digit (CHR ''.'')" "\<not> is_digit (CHR ''e'')" "\<not> is_digit (CHR ''E'')"
  "\<not> is_digit (CHR ''+'')" "\<not> is_digit (CHR ''-'')" "is_digit (CHR ''0'')"
  by (simp_all add: is_digit_def)

lemma scan_int_append:
  assumes "scan_int s = Some (i, t)" and "t = [] \<Longrightarrow> num_stop r"
  shows "scan_int (s @ r) = Some (i, t @ r)"
proof -
  have "takeWhile is_digit (s @ r) = takeWhile is_digit s \<and>
      dropWhile is_digit (s @ r) = dropWhile is_digit s @ r" if "dropWhile is_digit s = t"
    using that assms(2) by (intro takeWhile_stop) (auto dest: num_stopD)
  then show ?thesis using assms(1) by (cases s) (auto simp: scan_int_def Let_def split: if_splits)
qed

lemma scan_frac_append:
  assumes "scan_frac s = Some (f, t)" and "t = [] \<Longrightarrow> num_stop r"
  shows "scan_frac (s @ r) = Some (f, t @ r)"
proof (cases s)
  case Nil
  with assms show ?thesis by (auto simp: scan_frac_def num_stop_def)
next
  case (Cons c u)
  have "takeWhile is_digit (u @ r) = takeWhile is_digit u \<and>
      dropWhile is_digit (u @ r) = dropWhile is_digit u @ r" if "dropWhile is_digit u = t"
    using that assms(2) by (intro takeWhile_stop) (auto dest: num_stopD)
  then show ?thesis using assms(1) Cons by (auto simp: scan_frac_def Let_def split: if_splits)
qed

lemma scan_exp_append:
  assumes "scan_exp s = Some (e, [])" and "num_stop r"
  shows "scan_exp (s @ r) = Some (e, r)"
proof (cases s)
  case Nil
  with assms show ?thesis by (auto simp: scan_exp_def num_stop_def)
next
  case (Cons c u)
  have "takeWhile is_digit (v @ r) = takeWhile is_digit v \<and>
      dropWhile is_digit (v @ r) = r" if "dropWhile is_digit v = []" for v
    using that assms(2) takeWhile_stop [of is_digit v r] by (auto dest: num_stopD)
  then show ?thesis
    using assms(1) Cons by (cases u) (auto simp: scan_exp_def Let_def split: if_splits)
qed

definition unsigned :: "bytes \<Rightarrow> bytes" where
  "unsigned s = (if s \<noteq> [] \<and> hd s = CHR ''-'' then tl s else s)"

definition sign_of :: "bytes \<Rightarrow> bytes" where
  "sign_of s = (if s \<noteq> [] \<and> hd s = CHR ''-'' then ''-'' else [])"

lemma scan_number_parts:
  "scan_number s = Some (raw, r) \<longleftrightarrow>
     (\<exists>i s1 f s2 e. scan_int (unsigned s) = Some (i, s1) \<and> scan_frac s1 = Some (f, s2) \<and>
        scan_exp s2 = Some (e, r) \<and> raw = sign_of s @ i @ f @ e)"
  by (auto simp: scan_number_def Let_def unsigned_def sign_of_def split: option.split)

lemma sign_append: "s \<noteq> [] \<Longrightarrow> unsigned (s @ r) = unsigned s @ r \<and> sign_of (s @ r) = sign_of s"
  by (simp add: unsigned_def sign_of_def)

lemma scan_number_append:
  assumes "num_ok raw" and "num_stop r"
  shows "scan_number (raw @ r) = Some (raw, r)"
proof -
  have "raw \<noteq> []" using assms(1) scan_number_split by (auto simp: num_ok_def)
  from assms(1) obtain i s1 f s2 e where parts: "scan_int (unsigned raw) = Some (i, s1)"
      "scan_frac s1 = Some (f, s2)" "scan_exp s2 = Some (e, [])" "raw = sign_of raw @ i @ f @ e"
    unfolding num_ok_def scan_number_parts by blast
  have "scan_int (unsigned (raw @ r)) = Some (i, s1 @ r)" "scan_frac (s1 @ r) = Some (f, s2 @ r)"
      "scan_exp (s2 @ r) = Some (e, r)"
    using parts(1-3) assms(2) \<open>raw \<noteq> []\<close>
    by (simp_all add: scan_int_append scan_frac_append scan_exp_append sign_append)
  then show ?thesis
    unfolding scan_number_parts using parts(4) sign_append [OF \<open>raw \<noteq> []\<close>] by metis
qed

section \<open>The tree and its parser\<close>

datatype json =
    JNull
  | JBool bool
  | JNum bytes                             \<comment> \<open>the literal\<close>
  | JStr bytes                             \<comment> \<open>the contents, still escaped\<close>
  | JArr "json list"
  | JObj "(bytes \<times> bytes \<times> json) list"    \<comment> \<open>escaped key, text of the value, value\<close>

text \<open>\<open>maxNestingDepth\<close> of the scanner: how deep arrays and objects may nest.\<close>

definition max_depth :: nat where "max_depth = 10000"

lemma skip_ws_length: "length (skip_ws s) \<le> length s"
  by (simp add: skip_ws_def length_dropWhile_le)

definition literal :: "bytes \<Rightarrow> json \<Rightarrow> bytes \<Rightarrow> (json \<times> bytes) option" where
  "literal word v s =
     (if take (length word) s = word then Some (v, drop (length word) s) else None)"

text \<open>
  \<open>d\<close> is how many more levels may be opened. The tests that a rest is shorter than the text only
  make the recursion visibly end; \<open>parse_shorter\<close> below shows they never fail.
\<close>

function parse_value :: "nat \<Rightarrow> bytes \<Rightarrow> (json \<times> bytes) option"
  and parse_elems :: "nat \<Rightarrow> bytes \<Rightarrow> (json list \<times> bytes) option"
  and parse_members :: "nat \<Rightarrow> bytes \<Rightarrow> ((bytes \<times> bytes \<times> json) list \<times> bytes) option" where
  "parse_value d s =
     (if s = [] then None
      else if hd s = quot then map_option (\<lambda>(raw, r). (JStr raw, r)) (scan_string (tl s))
      else if hd s = CHR ''['' then
        (let t = skip_ws (tl s)
         in if d = 0 then None
            else if t \<noteq> [] \<and> hd t = CHR '']'' then Some (JArr [], tl t)
            else map_option (\<lambda>(vs, r). (JArr vs, r)) (parse_elems (d - 1) t))
      else if hd s = CHR ''{'' then
        (let t = skip_ws (tl s)
         in if d = 0 then None
            else if t \<noteq> [] \<and> hd t = CHR ''}'' then Some (JObj [], tl t)
            else map_option (\<lambda>(ms, r). (JObj ms, r)) (parse_members (d - 1) t))
      else if hd s = CHR ''t'' then literal ''true'' (JBool True) s
      else if hd s = CHR ''f'' then literal ''false'' (JBool False) s
      else if hd s = CHR ''n'' then literal ''null'' JNull s
      else map_option (\<lambda>(raw, r). (JNum raw, r)) (scan_number s))"
| "parse_elems d s =
     (case parse_value d s of
        None \<Rightarrow> None
      | Some (v, r) \<Rightarrow>
          (let t = skip_ws r; u = skip_ws (tl t)
           in if t \<noteq> [] \<and> hd t = CHR '']'' then Some ([v], tl t)
              else if t \<noteq> [] \<and> hd t = CHR '','' \<and> length u < length s then
                map_option (\<lambda>(vs, q). (v # vs, q)) (parse_elems d u)
              else None))"
| "parse_members d s =
     (if s = [] \<or> hd s \<noteq> quot then None
      else case scan_string (tl s) of
        None \<Rightarrow> None
      | Some (k, r) \<Rightarrow>
          (let t = skip_ws r; u = skip_ws (tl t)
           in if t \<noteq> [] \<and> hd t = CHR '':'' \<and> length u < length s then
                (case parse_value d u of
                   None \<Rightarrow> None
                 | Some (v, r1) \<Rightarrow>
                     (let m = (k, take (length u - length r1) u, v);
                          t1 = skip_ws r1; u1 = skip_ws (tl t1)
                      in if t1 \<noteq> [] \<and> hd t1 = CHR ''}'' then Some ([m], tl t1)
                         else if t1 \<noteq> [] \<and> hd t1 = CHR '','' \<and> length u1 < length s then
                           map_option (\<lambda>(ms, q). (m # ms, q)) (parse_members d u1)
                         else None))
              else None))"
  by pat_completeness auto
termination
proof (relation "measure (\<lambda>x. case x of Inl (d, s) \<Rightarrow> 2 * length s
    | Inr (Inl (d, s)) \<Rightarrow> 2 * length s + 1 | Inr (Inr (d, s)) \<Rightarrow> 2 * length s + 1)", goal_cases)
  case (2 d s t)
  then show ?case using skip_ws_length [of "tl s"] by (cases s) auto
next
  case (3 d s t)
  then show ?case using skip_ws_length [of "tl s"] by (cases s) auto
qed auto

declare parse_value.simps [simp del] parse_elems.simps [simp del] parse_members.simps [simp del]

definition parse :: "bytes \<Rightarrow> json option" where
  "parse s =
     (case parse_value max_depth (skip_ws s) of
        None \<Rightarrow> None
      | Some (t, r) \<Rightarrow> if skip_ws r = [] then Some t else None)"

section \<open>The grammar\<close>

text \<open>
  What the parser accepts, as a grammar: \<open>value_at d s v r\<close> says that \<open>s\<close> starts with a text of
  the value \<open>v\<close>, nested at most \<open>d\<close> levels deep, and continues with \<open>r\<close>.
\<close>

inductive value_at :: "nat \<Rightarrow> bytes \<Rightarrow> json \<Rightarrow> bytes \<Rightarrow> bool"
  and elems_at :: "nat \<Rightarrow> bytes \<Rightarrow> json list \<Rightarrow> bytes \<Rightarrow> bool"
  and members_at :: "nat \<Rightarrow> bytes \<Rightarrow> (bytes \<times> bytes \<times> json) list \<Rightarrow> bytes \<Rightarrow> bool" where
  at_null: "value_at d (''null'' @ r) JNull r"
| at_true: "value_at d (''true'' @ r) (JBool True) r"
| at_false: "value_at d (''false'' @ r) (JBool False) r"
| at_num: "scan_number s = Some (raw, r) \<Longrightarrow> value_at d s (JNum raw) r"
| at_str: "str_ok raw \<Longrightarrow> value_at d (quot # raw @ quot # r) (JStr raw) r"
| at_arr_nil: "skip_ws t = CHR '']'' # r \<Longrightarrow> value_at (Suc d) (CHR ''['' # t) (JArr []) r"
| at_arr: "elems_at d (skip_ws t) vs r \<Longrightarrow> value_at (Suc d) (CHR ''['' # t) (JArr vs) r"
| at_obj_nil: "skip_ws t = CHR ''}'' # r \<Longrightarrow> value_at (Suc d) (CHR ''{'' # t) (JObj []) r"
| at_obj: "members_at d (skip_ws t) ms r \<Longrightarrow> value_at (Suc d) (CHR ''{'' # t) (JObj ms) r"
| elems_one: "value_at d s v q \<Longrightarrow> skip_ws q = CHR '']'' # r \<Longrightarrow> elems_at d s [v] r"
| elems_more: "value_at d s v q \<Longrightarrow> skip_ws q = CHR '','' # u \<Longrightarrow> elems_at d (skip_ws u) vs r \<Longrightarrow>
    elems_at d s (v # vs) r"
| members_one: "str_ok k \<Longrightarrow> skip_ws p = CHR '':'' # u \<Longrightarrow> value_at d (skip_ws u) v q \<Longrightarrow>
    skip_ws q = CHR ''}'' # r \<Longrightarrow>
    members_at d (quot # k @ quot # p) [(k, take (length (skip_ws u) - length q) (skip_ws u), v)] r"
| members_more: "str_ok k \<Longrightarrow> skip_ws p = CHR '':'' # u \<Longrightarrow> value_at d (skip_ws u) v q \<Longrightarrow>
    skip_ws q = CHR '','' # w \<Longrightarrow> members_at d (skip_ws w) ms r \<Longrightarrow>
    members_at d (quot # k @ quot # p)
      ((k, take (length (skip_ws u) - length q) (skip_ws u), v) # ms) r"

lemma skip_ws_shorter: "skip_ws s = c # t \<Longrightarrow> length t < length s"
  using skip_ws_length [of s] by simp

text \<open>Every text of the grammar is followed by strictly less.\<close>

lemma at_shorter:
  "value_at d s v r \<Longrightarrow> length r < length s"
  "elems_at d s vs r \<Longrightarrow> length r < length s"
  "members_at d s ms r \<Longrightarrow> length r < length s"
proof (induction rule: value_at_elems_at_members_at.inducts)
  case (at_num s raw r d)
  then show ?case by (auto dest: scan_number_split)
next
  case (elems_more d s v r1 u vs r)
  then show ?case using skip_ws_shorter [OF elems_more.hyps(2)] skip_ws_length [of u] by simp
next
  case (members_one k r0 u d v r1 r)
  then show ?case
    using skip_ws_shorter [OF members_one.hyps(2)] skip_ws_shorter [OF members_one.hyps(4)]
      skip_ws_length [of u] by simp
next
  case (members_more k r0 u d v r1 u1 ms r)
  then show ?case
    using skip_ws_shorter [OF members_more.hyps(2)] skip_ws_shorter [OF members_more.hyps(4)]
      skip_ws_length [of u] skip_ws_length [of u1] by simp
qed (use skip_ws_length in \<open>auto dest!: skip_ws_shorter intro: le_less_trans order.strict_trans2 less_SucI\<close>)

lemma number_first:
  assumes "scan_number s = Some x"
  shows "s \<noteq> [] \<and> (is_digit (hd s) \<or> hd s = CHR ''-'')"
proof (cases "s \<noteq> [] \<and> hd s = CHR ''-''")
  case False
  with assms obtain i s1 where "scan_int s = Some (i, s1)"
    by (auto simp: scan_number_def Let_def split: option.splits)
  then have "s \<noteq> [] \<and> is_digit (hd s)"
    by (cases s) (auto simp: scan_int_def Let_def split: if_splits)
  then show ?thesis by simp
qed simp

text \<open>The first character decides which alternative applies.\<close>

lemma value_at_first:
  "value_at d s v r \<Longrightarrow> s \<noteq> [] \<and> \<not> is_ws (hd s) \<and> hd s \<notin> {CHR '']'', CHR ''}'', CHR '','', CHR '':''}"
  by (cases rule: value_at.cases)
    (auto simp: is_ws_def is_digit_def dest: number_first)

lemma members_at_first: "members_at d s ms r \<Longrightarrow> s \<noteq> [] \<and> hd s = quot"
  by (cases rule: members_at.cases) auto

lemma elems_at_first: "elems_at d s vs r \<Longrightarrow> s \<noteq> [] \<and> hd s \<noteq> CHR '']''"
  by (cases rule: elems_at.cases) (auto dest: value_at_first)

section \<open>The parser accepts exactly the grammar\<close>

lemma at_parse:
  "value_at d s v r \<Longrightarrow> parse_value d s = Some (v, r)"
  "elems_at d s vs r \<Longrightarrow> parse_elems d s = Some (vs, r)"
  "members_at d s ms r \<Longrightarrow> parse_members d s = Some (ms, r)"
proof (induction rule: value_at_elems_at_members_at.inducts)
  case (at_num s raw r d)
  then show ?case using number_first [OF at_num]
    by (auto simp: parse_value.simps [of d s] is_digit_def)
next
  case (at_arr d t vs r)
  then show ?case using elems_at_first [OF at_arr.hyps] by (simp add: parse_value.simps Let_def)
next
  case (at_obj d t ms r)
  then show ?case using members_at_first [OF at_obj.hyps] by (simp add: parse_value.simps Let_def)
next
  case (elems_more d s v r1 u vs r)
  have "length (skip_ws u) < length s"
    using at_shorter(1) [OF elems_more.hyps(1)] skip_ws_shorter [OF elems_more.hyps(2)]
      skip_ws_length [of u] by simp
  with elems_more show ?case by (simp add: parse_elems.simps [of d s] Let_def)
next
  case (members_one k r0 u d v r1 r)
  have "length (skip_ws u) < length (quot # k @ quot # r0)"
    using skip_ws_shorter [OF members_one.hyps(2)] skip_ws_length [of u] by simp
  with members_one show ?case
    by (simp add: parse_members.simps [of d "quot # k @ quot # r0"] scan_str_ok Let_def)
next
  case (members_more k r0 u d v r1 u1 ms r)
  have "length (skip_ws u) < length (quot # k @ quot # r0)"
      "length (skip_ws u1) < length (quot # k @ quot # r0)"
    using skip_ws_shorter [OF members_more.hyps(2)] skip_ws_length [of u]
      at_shorter(1) [OF members_more.hyps(3)] skip_ws_shorter [OF members_more.hyps(4)]
      skip_ws_length [of u1] by simp_all
  with members_more show ?case
    by (simp add: parse_members.simps [of d "quot # k @ quot # r0"] scan_str_ok Let_def)
qed (simp_all add: parse_value.simps parse_elems.simps literal_def scan_str_ok Let_def)

lemma literal_at:
  "literal w v s = Some (t, r) \<Longrightarrow> t = v \<and> s = w @ r"
  by (auto simp: literal_def split: if_splits) (metis append_take_drop_id)

lemma Cons_hd: "s \<noteq> [] \<Longrightarrow> hd s = c \<Longrightarrow> s = c # tl s"
  by (cases s) auto

lemma parse_value_at:
  assumes "parse_value d s = Some (v, r)"
    and elems: "\<And>d t vs r. length t < length s \<Longrightarrow> parse_elems d t = Some (vs, r) \<Longrightarrow> elems_at d t vs r"
    and members: "\<And>d t ms r. length t < length s \<Longrightarrow> parse_members d t = Some (ms, r) \<Longrightarrow> members_at d t ms r"
  shows "value_at d s v r"
proof -
  have s: "s \<noteq> []" using assms(1) by (auto simp: parse_value.simps)
  then have short: "length (skip_ws (tl s)) < length s"
    using skip_ws_length [of "tl s"] by (cases s) auto
  consider (str) "hd s = quot" | (arr) "hd s = CHR ''[''" | (obj) "hd s = CHR ''{''"
    | (other) "hd s \<notin> {quot, CHR ''['', CHR ''{''}" by blast
  then show ?thesis
  proof cases
    case str
    with assms(1) s show ?thesis
      by (auto simp: parse_value.simps [of d s] dest!: scan_string_split)
        (metis Cons_hd at_str)
  next
    case arr
    then obtain d' where d': "d = Suc d'" using assms(1) s
      by (cases d) (auto simp: parse_value.simps [of 0 s] Let_def)
    from arr assms(1) s d' short show ?thesis
      by (subst Cons_hd [OF s arr])
        (auto simp: parse_value.simps [of "Suc d'" s] Let_def intro: at_arr elems
          intro!: at_arr_nil Cons_hd split: if_splits)
  next
    case obj
    then obtain d' where d': "d = Suc d'" using assms(1) s
      by (cases d) (auto simp: parse_value.simps [of 0 s] Let_def)
    from obj assms(1) s d' short show ?thesis
      by (subst Cons_hd [OF s obj])
        (auto simp: parse_value.simps [of "Suc d'" s] Let_def intro: at_obj members
          intro!: at_obj_nil Cons_hd split: if_splits)
  next
    case other
    with assms(1) s show ?thesis
      by (auto simp: parse_value.simps [of d s] dest!: literal_at split: if_splits
          intro: at_num at_null at_true at_false)
  qed
qed

lemma parse_elems_SomeE:
  assumes "parse_elems d s = Some (vs, r)"
  obtains
    (one) v r1 where "parse_value d s = Some (v, r1)" "skip_ws r1 = CHR '']'' # r" "vs = [v]"
  | (more) v r1 u vs' where "parse_value d s = Some (v, r1)" "skip_ws r1 = CHR '','' # u"
      "length (skip_ws u) < length s" "parse_elems d (skip_ws u) = Some (vs', r)" "vs = v # vs'"
proof -
  obtain v r1 where v: "parse_value d s = Some (v, r1)"
    using assms by (subst (asm) parse_elems.simps) (auto split: option.splits)
  obtain c t where t: "skip_ws r1 = c # t"
    using assms v by (subst (asm) parse_elems.simps) (cases "skip_ws r1"; simp)
  show ?thesis
  proof (cases "c = CHR '']''")
    case True
    with assms v t show ?thesis by (intro one) (subst (asm) parse_elems.simps, simp)+
  next
    case False
    with assms v t more show ?thesis
      by (subst (asm) parse_elems.simps) (auto simp: Let_def split: if_splits)
  qed
qed

lemma parse_members_SomeE:
  assumes "parse_members d s = Some (ms, r)"
  obtains
    (one) k r0 u v r1 where "str_ok k" "s = quot # k @ quot # r0" "skip_ws r0 = CHR '':'' # u"
      "length (skip_ws u) < length s" "parse_value d (skip_ws u) = Some (v, r1)"
      "skip_ws r1 = CHR ''}'' # r" "ms = [(k, take (length (skip_ws u) - length r1) (skip_ws u), v)]"
  | (more) k r0 u v r1 u1 ms' where "str_ok k" "s = quot # k @ quot # r0" "skip_ws r0 = CHR '':'' # u"
      "length (skip_ws u) < length s" "parse_value d (skip_ws u) = Some (v, r1)"
      "skip_ws r1 = CHR '','' # u1" "length (skip_ws u1) < length s"
      "parse_members d (skip_ws u1) = Some (ms', r)"
      "ms = (k, take (length (skip_ws u) - length r1) (skip_ws u), v) # ms'"
proof -
  note eq = parse_members.simps [of d s]
  have q: "s \<noteq> []" "hd s = quot" using assms by (simp_all add: eq split: if_splits)
  obtain k r0 where k: "scan_string (tl s) = Some (k, r0)"
    using assms q by (cases "scan_string (tl s)") (auto simp: eq)
  have s: "s = quot # k @ quot # r0" "str_ok k" using q scan_string_split [OF k] Cons_hd [OF q] by auto
  obtain c u where u: "skip_ws r0 = c # u" using assms q k by (cases "skip_ws r0") (auto simp: eq)
  have c: "c = CHR '':''" "length (skip_ws u) < length s"
    using assms q k u by (simp_all add: eq Let_def split: if_splits)
  obtain v r1 where v: "parse_value d (skip_ws u) = Some (v, r1)"
    using assms q k u c by (cases "parse_value d (skip_ws u)") (auto simp: eq Let_def)
  obtain c1 u1 where u1: "skip_ws r1 = c1 # u1"
    using assms q k u c v by (cases "skip_ws r1") (auto simp: eq Let_def)
  show ?thesis
  proof (cases "c1 = CHR ''}''")
    case True
    with assms q k u c v u1 have "ms = [(k, take (length (skip_ws u) - length r1) (skip_ws u), v)] \<and> r = u1"
      by (simp add: eq Let_def)
    with one [OF s(2,1)] u c v u1 True show ?thesis by simp
  next
    case False
    with assms q k u c v u1 obtain ms' where "c1 = CHR '',''" "length (skip_ws u1) < length s"
        "parse_members d (skip_ws u1) = Some (ms', r)"
        "ms = (k, take (length (skip_ws u) - length r1) (skip_ws u), v) # ms'"
      by (auto simp: eq Let_def split: if_splits)
    with more [OF s(2,1)] u c v u1 show ?thesis by simp
  qed
qed

lemma parse_at:
  "(\<forall>d v r. parse_value d s = Some (v, r) \<longrightarrow> value_at d s v r) \<and>
   (\<forall>d vs r. parse_elems d s = Some (vs, r) \<longrightarrow> elems_at d s vs r) \<and>
   (\<forall>d ms r. parse_members d s = Some (ms, r) \<longrightarrow> members_at d s ms r)"
proof (induction "length s" arbitrary: s rule: less_induct)
  case less
  have val: "parse_value d s = Some (v, r) \<Longrightarrow> value_at d s v r" for d v r
    using less by (intro parse_value_at) blast+
  moreover have "elems_at d s vs r" if "parse_elems d s = Some (vs, r)" for d vs r
    using that
  proof (cases rule: parse_elems_SomeE)
    case (one v r1)
    with elems_one [OF val] show ?thesis by blast
  next
    case (more v r1 u vs')
    with elems_more [OF val] less show ?thesis by blast
  qed
  moreover have "members_at d s ms r" if "parse_members d s = Some (ms, r)" for d ms r
    using that
  proof (cases rule: parse_members_SomeE)
    case (one k r0 u v r1)
    then have "value_at d (skip_ws u) v r1" using less by blast
    from members_one [OF one(1,3) this one(6)] one show ?thesis by simp
  next
    case (more k r0 u v r1 u1 ms')
    then have "value_at d (skip_ws u) v r1" "members_at d (skip_ws u1) ms' r" using less by blast+
    from members_more [OF more(1,3) this(1) more(6) this(2)] more show ?thesis by simp
  qed
  ultimately show ?case by blast
qed

theorem parser_is_grammar:
  "parse_value d s = Some (v, r) \<longleftrightarrow> value_at d s v r"
  using parse_at at_parse(1) by blast

section \<open>Printing\<close>

text \<open>The text of a tree without white space, and the trees whose member texts are that text.\<close>

fun join :: "bytes \<Rightarrow> bytes list \<Rightarrow> bytes" where
  "join sep [] = []"
| "join sep [x] = x"
| "join sep (x # xs) = x @ sep @ join sep xs"

fun print_json :: "json \<Rightarrow> bytes" where
  "print_json JNull = ''null''"
| "print_json (JBool b) = (if b then ''true'' else ''false'')"
| "print_json (JNum raw) = raw"
| "print_json (JStr raw) = quot # raw @ [quot]"
| "print_json (JArr vs) = ''['' @ join '','' (map print_json vs) @ '']''"
| "print_json (JObj ms) =
     ''{'' @ join '','' (map (\<lambda>(k, raw, v). quot # k @ quot # '':'' @ print_json v) ms) @ ''}''"

fun wf_json :: "nat \<Rightarrow> json \<Rightarrow> bool" where
  "wf_json d (JNum raw) = num_ok raw"
| "wf_json d (JStr raw) = str_ok raw"
| "wf_json d (JArr vs) = (0 < d \<and> (\<forall>v \<in> set vs. wf_json (d - 1) v))"
| "wf_json d (JObj ms) = (0 < d \<and> (\<forall>(k, raw, v) \<in> set ms. str_ok k \<and> wf_json (d - 1) v))"
| "wf_json d v = True"

fun canonical :: "json \<Rightarrow> bool" where
  "canonical (JArr vs) = (\<forall>v \<in> set vs. canonical v)"
| "canonical (JObj ms) = (\<forall>(k, raw, v) \<in> set ms. raw = print_json v \<and> canonical v)"
| "canonical v = True"

lemma num_ok_first: "num_ok raw \<Longrightarrow> raw \<noteq> [] \<and> (is_digit (hd raw) \<or> hd raw = CHR ''-'')"
  unfolding num_ok_def by (rule number_first)

lemma print_first: "wf_json d v \<Longrightarrow> print_json v \<noteq> [] \<and> \<not> is_ws (hd (print_json v))"
  by (cases v) (auto simp: is_ws_def is_digit_def dest: num_ok_first)

lemma skip_ws_id: "s = [] \<or> \<not> is_ws (hd s) \<Longrightarrow> skip_ws s = s"
  by (cases s) (auto simp: skip_ws_def)

lemma skip_ws_print [simp]: "wf_json d v \<Longrightarrow> skip_ws (print_json v @ r) = print_json v @ r"
  using print_first [of d v] by (intro skip_ws_id) auto

lemma skip_ws_punct [simp]:
  "skip_ws (CHR '','' # r) = CHR '','' # r" "skip_ws (CHR '']'' # r) = CHR '']'' # r"
  "skip_ws (CHR ''}'' # r) = CHR ''}'' # r" "skip_ws (CHR '':'' # r) = CHR '':'' # r"
  "skip_ws (quot # r) = quot # r"
  by (simp_all add: skip_ws_def is_ws_def)

lemma num_stop_punct [simp]:
  "num_stop (CHR '','' # r)" "num_stop (CHR '']'' # r)" "num_stop (CHR ''}'' # r)" "num_stop []"
  by (simp_all add: num_stop_def is_digit_def)

text \<open>A printed value followed by punctuation is read back as it is.\<close>

definition reads_back :: "nat \<Rightarrow> json \<Rightarrow> bool" where
  "reads_back d v \<longleftrightarrow> (\<forall>r. num_stop r \<longrightarrow> value_at d (print_json v @ r) v r)"

lemma elems_read_back:
  "vs \<noteq> [] \<Longrightarrow> \<forall>v \<in> set vs. wf_json d v \<and> reads_back d v \<Longrightarrow>
   elems_at d (join '','' (map print_json vs) @ CHR '']'' # r) vs r"
proof (induction vs rule: list_nonempty_induct)
  case (single v)
  with elems_one [of d "print_json v @ CHR '']'' # r" v "CHR '']'' # r" r] show ?case
    by (simp add: reads_back_def)
next
  case (cons v vs)
  let ?u = "join '','' (map print_json vs) @ CHR '']'' # r"
  have "skip_ws ?u = ?u"
    using cons print_first by (intro skip_ws_id) (cases vs; cases "tl vs"; force)
  then have "elems_at d (print_json v @ CHR '','' # ?u) (v # vs) r"
    using cons by (intro elems_more [where u = ?u and q = "CHR '','' # ?u"]) (auto simp: reads_back_def)
  with cons.hyps show ?case by (cases vs) simp_all
qed

lemma members_read_back:
  "ms \<noteq> [] \<Longrightarrow>
   \<forall>(k, raw, v) \<in> set ms. str_ok k \<and> raw = print_json v \<and> wf_json d v \<and> reads_back d v \<Longrightarrow>
   members_at d (join '','' (map (\<lambda>(k, raw, v). quot # k @ quot # '':'' @ print_json v) ms) @ CHR ''}'' # r) ms r"
proof (induction ms rule: list_nonempty_induct)
  case (single m)
  obtain k raw v where m: "m = (k, raw, v)" by (cases m)
  have "members_at d (quot # k @ quot # CHR '':'' # print_json v @ CHR ''}'' # r)
      [(k, take (length (skip_ws (print_json v @ CHR ''}'' # r)) - length (CHR ''}'' # r))
         (skip_ws (print_json v @ CHR ''}'' # r)), v)] r"
    using single m by (intro members_one) (auto simp: reads_back_def)
  with single m skip_ws_print [of d v "CHR ''}'' # r"] show ?case by simp
next
  case (cons m ms)
  obtain k raw v where m: "m = (k, raw, v)" by (cases m)
  let ?u = "join '','' (map (\<lambda>(k, raw, v). quot # k @ quot # '':'' @ print_json v) ms) @ CHR ''}'' # r"
  have skip: "skip_ws ?u = ?u" using cons.hyps by (cases ms; cases "tl ms") (auto simp: split_beta)
  have "members_at d (quot # k @ quot # CHR '':'' # print_json v @ CHR '','' # ?u)
      ((k, take (length (skip_ws (print_json v @ CHR '','' # ?u)) - length (CHR '','' # ?u))
         (skip_ws (print_json v @ CHR '','' # ?u)), v) # ms) r"
    using cons m skip by (intro members_more [where w = ?u]) (auto simp: reads_back_def)
  with cons m skip_ws_print [of d v "CHR '','' # ?u"] show ?case by (cases ms) simp_all
qed

lemma print_reads_back: "wf_json d v \<Longrightarrow> canonical v \<Longrightarrow> reads_back d v"
proof (induction v arbitrary: d)
  case (JNum raw)
  then show ?case by (auto simp: reads_back_def intro: at_num scan_number_append)
next
  case (JArr vs)
  then obtain d' where d: "d = Suc d'" by (cases d) auto
  have "value_at d (CHR ''['' # join '','' (map print_json vs) @ CHR '']'' # r) (JArr vs) r" for r
  proof (cases "vs = []")
    case True
    then show ?thesis unfolding d by (simp add: at_arr_nil)
  next
    case False
    let ?t = "join '','' (map print_json vs) @ CHR '']'' # r"
    have "skip_ws ?t = ?t"
      using False JArr.prems d print_first by (intro skip_ws_id) (cases vs; cases "tl vs"; force)
    moreover have "elems_at d' ?t vs r"
      using False JArr d by (intro elems_read_back) auto
    ultimately show ?thesis unfolding d by (intro at_arr) simp
  qed
  then show ?case by (simp add: reads_back_def)
next
  case (JObj ms)
  then obtain d' where d: "d = Suc d'" by (cases d) auto
  let ?p = "\<lambda>(k, raw, v). quot # k @ quot # '':'' @ print_json v"
  have "value_at d (CHR ''{'' # join '','' (map ?p ms) @ CHR ''}'' # r) (JObj ms) r" for r
  proof (cases "ms = []")
    case True
    then show ?thesis unfolding d by (simp add: at_obj_nil)
  next
    case False
    let ?t = "join '','' (map ?p ms) @ CHR ''}'' # r"
    have "skip_ws ?t = ?t" using False by (cases ms; cases "tl ms") (auto simp: split_beta)
    moreover have "members_at d' ?t ms r"
      using False JObj d by (intro members_read_back) fastforce+
    ultimately show ?thesis unfolding d by (intro at_obj) simp
  qed
  then show ?case by (simp add: reads_back_def split_beta)
next
  case (JStr raw)
  then show ?case by (auto simp: reads_back_def intro: at_str)
next
  case (JBool b)
  then show ?case using at_true at_false by (simp add: reads_back_def)
next
  case JNull
  then show ?case using at_null by (simp add: reads_back_def)
qed

section \<open>Trees the parser makes are well formed\<close>

lemma dropWhile_hd: "dropWhile P s = [] \<or> \<not> P (hd (dropWhile P s))"
  by (metis hd_dropWhile)

lemma takeWhile_digits [simp]:
  assumes "x = [] \<or> \<not> is_digit (hd x)"
  shows "takeWhile is_digit (takeWhile is_digit s @ x) = takeWhile is_digit s"
    and "dropWhile is_digit (takeWhile is_digit s @ x) = x"
proof -
  have "takeWhile is_digit x = []" "dropWhile is_digit x = x" using assms by (cases x; simp)+
  then show "takeWhile is_digit (takeWhile is_digit s @ x) = takeWhile is_digit s"
      "dropWhile is_digit (takeWhile is_digit s @ x) = x"
    by (induction s) auto
qed

lemma scan_int_again:
  "scan_int s = Some (i, t) \<Longrightarrow> x = [] \<or> \<not> is_digit (hd x) \<Longrightarrow> scan_int (i @ x) = Some (i, x)"
  by (cases s) (auto simp: scan_int_def Let_def split: if_splits dest: set_takeWhileD)

lemma scan_frac_again:
  "scan_frac s = Some (f, t) \<Longrightarrow> x = [] \<or> (\<not> is_digit (hd x) \<and> hd x \<noteq> CHR ''.'') \<Longrightarrow>
     scan_frac (f @ x) = Some (f, x) \<and> (f = [] \<or> hd f = CHR ''.'')"
  by (cases s) (auto simp: scan_frac_def Let_def split: if_splits dest: set_takeWhileD)

lemma scan_exp_again:
  "scan_exp s = Some (e, t) \<Longrightarrow> scan_exp e = Some (e, []) \<and> (e = [] \<or> hd e \<in> {CHR ''e'', CHR ''E''})"
  using takeWhile_digits [of "[]"]
  by (cases s; cases "tl s") (auto simp: scan_exp_def Let_def split: if_splits)

lemma scan_number_ok: "scan_number s = Some (raw, r) \<Longrightarrow> num_ok raw"
proof -
  assume "scan_number s = Some (raw, r)"
  then obtain i s1 f s2 e where p: "scan_int (unsigned s) = Some (i, s1)" "scan_frac s1 = Some (f, s2)"
      "scan_exp s2 = Some (e, r)" "raw = sign_of s @ i @ f @ e"
    unfolding scan_number_parts by blast
  note e = scan_exp_again [OF p(3)]
  have f: "scan_frac (f @ e) = Some (f, e)" "f = [] \<or> hd f = CHR ''.''"
    using scan_frac_again [OF p(2), of e] e by auto
  have i: "scan_int (i @ f @ e) = Some (i, f @ e)" "i \<noteq> []"
    using scan_int_again [OF p(1), of "f @ e"] scan_int_split [OF p(1)] e f(2) by (cases f; auto)+
  have "hd i \<noteq> CHR ''-''" using p(1) by (cases "unsigned s") (auto simp: scan_int_def Let_def split: if_splits)
  then have "unsigned raw = i @ f @ e" "sign_of raw = sign_of s"
    using p(4) i(2) by (auto simp: unsigned_def sign_of_def split: if_splits)
  then show ?thesis unfolding num_ok_def scan_number_parts using i f e p(4) by auto
qed

lemma at_wf:
  "value_at d s v r \<Longrightarrow> wf_json d v"
  "elems_at d s vs r \<Longrightarrow> \<forall>v \<in> set vs. wf_json d v"
  "members_at d s ms r \<Longrightarrow> \<forall>(k, raw, v) \<in> set ms. str_ok k \<and> wf_json d v"
  by (induction rule: value_at_elems_at_members_at.inducts) (auto dest: scan_number_ok)

section \<open>Compaction\<close>

text \<open>
  \<^verbatim>\<open>json.Marshal\<close> compacts a raw message and escapes the characters HTML cares about and
  the two line separators. On the tree that is escaping the string literals.
\<close>

fun html_escape :: "bytes \<Rightarrow> bytes" where
  "html_escape [] = []"
| "html_escape (c # s) =
     (if c = CHR ''<'' \<or> c = CHR ''>'' \<or> c = CHR ''&''
      then [backslash, CHR ''u'', CHR ''0'', CHR ''0''] @ hex2 (byte c) @ html_escape s
      else (case s of
          c1 # c2 # t \<Rightarrow>
            if byte c = 226 \<and> byte c1 = 128 \<and> (byte c2 = 168 \<or> byte c2 = 169)
            then [backslash] @ ''u202'' @ [hex_digit (byte c2 - 160)] @ html_escape t
            else c # html_escape s
        | _ \<Rightarrow> c # html_escape s))"

fun compact_json :: "json \<Rightarrow> json" where
  "compact_json (JStr raw) = JStr (html_escape raw)"
| "compact_json (JArr vs) = JArr (map compact_json vs)"
| "compact_json (JObj ms) =
     JObj (map (\<lambda>(k, raw, v). (html_escape k, print_json (compact_json v), compact_json v)) ms)"
| "compact_json v = v"

definition compact :: "bytes \<Rightarrow> bytes option" where
  "compact s = map_option (\<lambda>t. print_json (compact_json t)) (parse s)"

lemma is_hex_digit: "n < 16 \<Longrightarrow> is_hex (hex_digit n)"
  by (auto simp: is_hex_def hex_digit_def is_digit_def)

lemma str_ok_high: "128 \<le> byte c \<Longrightarrow> str_ok s \<Longrightarrow> str_ok (c # s)"
  by (rule str_plain) auto

lemma html_escape_plain:
  "\<not> (c = CHR ''<'' \<or> c = CHR ''>'' \<or> c = CHR ''&'') \<Longrightarrow> byte c \<noteq> 226 \<Longrightarrow>
     html_escape (c # s) = c # html_escape s"
  by (simp split: list.split)

lemma simple_escape_plain:
  "simple_escape c \<Longrightarrow> \<not> (c = CHR ''<'' \<or> c = CHR ''>'' \<or> c = CHR ''&'') \<and> byte c \<noteq> 226"
  by (auto simp: simple_escape_def)

lemma is_hex_plain: "is_hex c \<Longrightarrow> \<not> (c = CHR ''<'' \<or> c = CHR ''>'' \<or> c = CHR ''&'') \<and> byte c \<noteq> 226"
  by (auto simp: is_hex_def is_digit_def)

lemma str_ok_tail: "str_ok (c # s) \<Longrightarrow> c \<noteq> backslash \<Longrightarrow> str_ok s \<and> c \<noteq> quot \<and> 32 \<le> byte c"
  by (cases rule: str_ok.cases) auto

text \<open>Escaping the first byte, which is not a backslash, of a sound string body.\<close>

lemma html_escape_sep:
  assumes t: "str_ok t" "\<And>u. length u \<le> length t \<Longrightarrow> str_ok u \<Longrightarrow> str_ok (html_escape u)" and c226: "byte c = 226"
  shows "str_ok (html_escape (c # t))"
proof -
  have c: "\<not> (c = CHR ''<'' \<or> c = CHR ''>'' \<or> c = CHR ''&'')" using c226 by auto
  show ?thesis
  proof (cases "\<exists>c1 c2 u. t = c1 # c2 # u \<and> byte c1 = 128 \<and> (byte c2 = 168 \<or> byte c2 = 169)")
    case True
    then obtain c1 c2 u where u: "t = c1 # c2 # u" "byte c1 = 128" "byte c2 = 168 \<or> byte c2 = 169"
      by blast
    then have "c1 \<noteq> backslash" "c2 \<noteq> backslash" by auto
    then have "str_ok u" using t(1) u(1) str_ok_tail by blast
    then have "str_ok (html_escape u)" using t(2) u(1) by simp
    moreover have "byte c2 - 160 < 16" using u(3) by auto
    moreover have "is_hex (CHR ''2'')" "is_hex (CHR ''0'')" by (simp_all add: is_hex_def is_digit_def)
    ultimately have "str_ok (backslash # CHR ''u'' # CHR ''2'' # CHR ''0'' # CHR ''2'' #
        hex_digit (byte c2 - 160) # html_escape u)"
      by (intro str_unicode is_hex_digit)
    then show ?thesis using u c226 c by auto
  next
    case False
    then have "html_escape (c # t) = c # html_escape t"
      using c by (subst html_escape.simps) (auto simp del: html_escape.simps split: list.split)
    moreover have "str_ok (c # html_escape t)" using c226 t by (intro str_ok_high) auto
    ultimately show ?thesis by simp
  qed
qed

lemma html_escape_ok: "str_ok s \<Longrightarrow> str_ok (html_escape s)"
proof (induction "length s" arbitrary: s rule: less_induct)
  case less
  from less.prems show ?case
  proof (cases rule: str_ok.cases)
    case (str_plain c t)
    have t: "str_ok (html_escape t)" using less.hyps str_plain by simp
    show ?thesis
    proof (cases "c = CHR ''<'' \<or> c = CHR ''>'' \<or> c = CHR ''&''")
      case True
      have "is_hex (CHR ''0'')" by (simp add: is_hex_def is_digit_def)
      moreover have "is_hex (hex_digit (byte c div 16))" "is_hex (hex_digit (byte c mod 16))"
        using True by (auto intro!: is_hex_digit)
      ultimately have "str_ok (backslash # CHR ''u'' # CHR ''0'' # CHR ''0'' #
          hex_digit (byte c div 16) # hex_digit (byte c mod 16) # html_escape t)"
        using t by (intro str_unicode)
      then show ?thesis using True str_plain(1) by (simp add: hex2_def)
    next
      case other: False
      show ?thesis
      proof (cases "byte c = 226")
        case True
        have "str_ok (html_escape u)" if "length u \<le> length t" "str_ok u" for u
          using less.hyps [of u] that str_plain(1) by simp
        from html_escape_sep [OF _ this True] str_plain show ?thesis by simp
      next
        case False
        have "str_ok (c # html_escape t)" using t str_plain by (intro str_ok.str_plain)
        with html_escape_plain [OF other False] str_plain(1) show ?thesis by simp
      qed
    qed
  next
    case (str_escape e t)
    then have "str_ok (html_escape t)" using less.hyps by simp
    with str_escape simple_escape_plain [of e] show ?thesis
      by (simp add: html_escape_plain str_ok.str_escape del: html_escape.simps)
  next
    case (str_unicode h1 h2 h3 h4 t)
    then have "str_ok (html_escape t)" using less.hyps by simp
    with str_unicode is_hex_plain [of h1] is_hex_plain [of h2] is_hex_plain [of h3] is_hex_plain [of h4]
    show ?thesis
      by (simp add: html_escape_plain str_ok.str_unicode del: html_escape.simps)
  qed (simp add: str_ok.intros)
qed

lemma compact_json_wf: "wf_json d v \<Longrightarrow> wf_json d (compact_json v) \<and> canonical (compact_json v)"
proof (induction v arbitrary: d)
  case (JObj ms)
  then show ?case by (fastforce simp: html_escape_ok)
qed (auto simp: html_escape_ok)

text \<open>What compaction prints is read back, to the compacted tree.\<close>

lemma parse_print:
  assumes "wf_json max_depth v" and "canonical v"
  shows "parse (print_json v) = Some v"
proof -
  have "value_at max_depth (print_json v @ []) v []"
    using print_reads_back [OF assms] unfolding reads_back_def by (simp add: num_stop_def)
  then have "parse_value max_depth (print_json v) = Some (v, [])" by (simp add: at_parse)
  moreover have "skip_ws (print_json v) = print_json v" "skip_ws [] = []"
    using skip_ws_print [OF assms(1), of "[]"] by (simp_all add: skip_ws_def)
  ultimately show ?thesis by (simp add: parse_def)
qed

lemma parse_wf: "parse s = Some v \<Longrightarrow> wf_json max_depth v"
  by (auto simp: parse_def parser_is_grammar split: option.splits if_splits dest: at_wf(1))

lemma compact_Some:
  "compact s = Some t \<longleftrightarrow> (\<exists>v. parse s = Some v \<and> t = print_json (compact_json v))"
  by (auto simp: compact_def)

lemma compact_parse: "parse s = Some v \<Longrightarrow> parse (print_json (compact_json v)) = Some (compact_json v)"
  using compact_json_wf [OF parse_wf] by (intro parse_print) auto

end
