(* ===== verification/Jsonvalue.thy ===== *)
theory Jsonvalue
  imports Json
begin

text \<open>
  What \<^verbatim>\<open>json.Unmarshal\<close> makes of a parsed text: strings are unescaped, with invalid UTF-8
  and lone surrogates replaced by U+FFFD; numbers become \<^verbatim>\<open>float64\<close>, or \<^verbatim>\<open>int64\<close> where the
  target says so; into an empty interface everything decodes, except a number beyond the range of
  \<^verbatim>\<open>float64\<close>. The lemma of this theory that the pipeline rests on: unescaping what
  \<^verbatim>\<open>json.Marshal\<close> escaped gives the string back, made valid UTF-8.
\<close>

section \<open>Unescaping strings\<close>

definition hex_val :: "char \<Rightarrow> nat" where
  "hex_val c = (if is_digit c then byte c - 48 else if 97 \<le> byte c then byte c - 87 else byte c - 55)"

text \<open>\<open>getu4\<close>: the code unit of an escape \<^verbatim>\<open>\uXXXX\<close> at the front, if there is one.\<close>

fun getu4 :: "bytes \<Rightarrow> nat option" where
  "getu4 (b # u # h1 # h2 # h3 # h4 # s) =
     (if b = backslash \<and> u = CHR ''u'' \<and> is_hex h1 \<and> is_hex h2 \<and> is_hex h3 \<and> is_hex h4
      then Some (((hex_val h1 * 16 + hex_val h2) * 16 + hex_val h3) * 16 + hex_val h4) else None)"
| "getu4 _ = None"

definition high_surrogate :: "nat \<Rightarrow> bool" where
  "high_surrogate r \<longleftrightarrow> 55296 \<le> r \<and> r < 56320"

definition low_surrogate :: "nat \<Rightarrow> bool" where
  "low_surrogate r \<longleftrightarrow> 56320 \<le> r \<and> r < 57344"

text \<open>The rune of an escape and how many bytes it takes: a pair of surrogates counts as one.\<close>

definition unicode_escape :: "bytes \<Rightarrow> (nat \<times> nat) option" where
  "unicode_escape s =
     (case getu4 s of
        None \<Rightarrow> None
      | Some r \<Rightarrow>
          if high_surrogate r then
            (case getu4 (drop 6 s) of
               Some r2 \<Rightarrow> if low_surrogate r2
                 then Some ((r - 55296) * 1024 + (r2 - 56320) + 65536, 12) else Some (runeError, 6)
             | None \<Rightarrow> Some (runeError, 6))
          else if low_surrogate r then Some (runeError, 6)
          else Some (r, 6))"

definition unescape_char :: "char \<Rightarrow> char" where
  "unescape_char e =
     (if e = CHR ''b'' then CHR 0x08 else if e = CHR ''f'' then CHR 0x0C else if e = CHR ''n'' then CHR 0x0A
      else if e = CHR ''r'' then CHR 0x0D else if e = CHR ''t'' then CHR 0x09 else e)"

function unquote :: "bytes \<Rightarrow> bytes" where
  "unquote [] = []"
| "unquote (c # s) =
     (if c = backslash then
        (case unicode_escape (c # s) of
           Some (r, n) \<Rightarrow> encode_rune r @ unquote (drop (n - 1) s)
         | None \<Rightarrow> (case s of [] \<Rightarrow> [] | e # t \<Rightarrow> unescape_char e # unquote t))
      else if byte c < 128 then c # unquote s
      else let (r, n) = decode_rune (c # s) in encode_rune r @ unquote (drop n (c # s)))"
  by pat_completeness auto
termination
  by (relation "measure length") (auto dest: sym [THEN decode_shorter])

text \<open>The string with every byte that is not part of a valid rune replaced by U+FFFD.\<close>

function to_utf8 :: "bytes \<Rightarrow> bytes" where
  "to_utf8 [] = []"
| "to_utf8 (c # s) =
     (if byte c < 128 then c # to_utf8 s
      else let (r, n) = decode_rune (c # s) in
        if decodes (c # s) then take n (c # s) @ to_utf8 (drop n (c # s))
        else encode_rune runeError @ to_utf8 s)"
  by pat_completeness auto
termination
  by (relation "measure length") (auto dest: sym [THEN decode_shorter])

declare unquote.simps [simp del] to_utf8.simps [simp del]

lemma unquote_Nil [simp]: "unquote [] = []"
  by (simp add: unquote.simps)

lemma to_utf8_Nil [simp]: "to_utf8 [] = []"
  by (simp add: to_utf8.simps)

lemma encode_rune_nonempty [simp]: "encode_rune r \<noteq> []"
  by (simp add: encode_rune_def Let_def)

lemma to_utf8_empty [simp]: "to_utf8 s = [] \<longleftrightarrow> s = []"
  by (cases s) (auto simp: to_utf8.simps split_beta Let_def)

lemma unquote_plain: "c \<noteq> backslash \<Longrightarrow> byte c < 128 \<Longrightarrow> unquote (c # s) = c # unquote s"
  by (simp add: unquote.simps)

lemma unquote_simple:
  "simple_escape e \<Longrightarrow> unquote (backslash # e # s) = unescape_char e # unquote s"
proof -
  assume "simple_escape e"
  then have "e \<noteq> CHR ''u''" by auto
  then have "getu4 (backslash # e # s) = None" by (cases "backslash # e # s" rule: getu4.cases) auto
  then show ?thesis by (simp add: unquote.simps(2) [of backslash] unicode_escape_def)
qed

lemma unquote_unicode:
  assumes "is_hex h1" "is_hex h2" "is_hex h3" "is_hex h4"
    and "((hex_val h1 * 16 + hex_val h2) * 16 + hex_val h3) * 16 + hex_val h4 = r"
    and "\<not> high_surrogate r" "\<not> low_surrogate r"
  shows "unquote (backslash # CHR ''u'' # h1 # h2 # h3 # h4 # s) = encode_rune r @ unquote s"
  using assms by (simp add: unquote.simps(2) [of backslash] unicode_escape_def)

lemma unquote_rune:
  assumes "decodes s" and "128 \<le> byte (hd s)"
  shows "unquote (take (snd (decode_rune s)) s @ t) = take (snd (decode_rune s)) s @ unquote t"
proof -
  let ?n = "snd (decode_rune s)"
  let ?s = "take ?n s @ t"
  obtain c u where s: "s = c # u" "128 \<le> byte c" using assms by (cases s) (auto simp: decodes_def)
  have n: "0 < ?n" "?n \<le> length s" using decode_width [of s] s by auto
  obtain v where v: "?s = c # v" using s n by (cases ?n) auto
  have "c \<noteq> backslash" using s(2) by auto
  then have "unquote (c # v) = encode_rune (fst (decode_rune (c # v))) @
      unquote (drop (snd (decode_rune (c # v))) (c # v))"
    using s(2) by (simp add: unquote.simps(2) [of c v] split_beta Let_def)
  then have "unquote ?s = encode_rune (fst (decode_rune s)) @ unquote (drop ?n ?s)"
    unfolding v [symmetric] decode_take [OF assms(1)] .
  then show ?thesis using encode_decode [OF assms(1)] n by simp
qed

lemma hex_literals [simp]:
  "is_hex (CHR ''0'')" "is_hex (CHR ''2'')" "is_hex (CHR ''f'')" "is_hex (CHR ''d'')"
  "hex_val (CHR ''0'') = 0" "hex_val (CHR ''2'') = 2" "hex_val (CHR ''f'') = 15" "hex_val (CHR ''d'') = 13"
  by (simp_all add: is_hex_def is_digit_def hex_val_def)

lemma hex_val_digit: "n < 16 \<Longrightarrow> hex_val (hex_digit n) = n"
  by (auto simp: hex_val_def hex_digit_def is_digit_def)

lemma unquote_hex2:
  assumes "b < 256"
  shows "unquote (backslash # CHR ''u'' # CHR ''0'' # CHR ''0'' # hex2 b @ s) = encode_rune b @ unquote s"
proof -
  have "b div 16 < 16" "b mod 16 < 16" using assms by auto
  then show ?thesis
    using assms unquote_unicode [of "CHR ''0''" "CHR ''0''" "hex_digit (b div 16)" "hex_digit (b mod 16)" b s]
    by (simp add: hex2_def is_hex_digit hex_val_digit high_surrogate_def low_surrogate_def)
qed

lemma unquote_escape_ascii:
  assumes "byte c < 128"
  shows "unquote (escape_ascii (byte c) @ s) = c # unquote s"
proof (cases "html_safe (byte c)")
  case True
  then have "c \<noteq> backslash" by (auto simp: html_safe_def)
  with True assms show ?thesis by (simp add: escape_ascii_def unquote_plain)
next
  case False
  consider "byte c \<in> {34, 92, 8, 12, 10, 13, 9}" | "byte c \<notin> {34, 92, 8, 12, 10, 13, 9}" by blast
  then show ?thesis
  proof cases
    case 1
    then have "c \<in> {quot, backslash, CHR 0x08, CHR 0x0C, CHR 0x0A, CHR 0x0D, CHR 0x09}"
      by (auto simp del: of_char_eq_iff simp: of_char_eq_iff [symmetric, where ?'a = nat])
    then show ?thesis
      by (auto simp: escape_ascii_def html_safe_def unquote_simple simple_escape_def unescape_char_def)
  next
    case 2
    then have "escape_ascii (byte c) = [backslash, CHR ''u'', CHR ''0'', CHR ''0''] @ hex2 (byte c)"
      using False by (simp add: escape_ascii_def)
    moreover have "encode_rune (byte c) = [c]" using assms by (simp add: encode_rune_def valid_rune_def)
    ultimately show ?thesis using unquote_hex2 [of "byte c" s] assms by simp
  qed
qed

lemma line_sep_encoding:
  assumes "decodes s" and "line_sep (fst (decode_rune s))"
  shows "unquote ([backslash] @ ''u202'' @ [hex_digit (fst (decode_rune s) mod 16)] @ t) =
    take (snd (decode_rune s)) s @ unquote t"
proof -
  let ?r = "fst (decode_rune s)"
  have "unquote ([backslash] @ ''u202'' @ [hex_digit (?r mod 16)] @ t) = encode_rune ?r @ unquote t"
    using assms(2) unquote_unicode [of "CHR ''2''" "CHR ''0''" "CHR ''2''" "hex_digit (?r mod 16)" ?r t]
    by (auto simp: line_sep_def is_hex_digit hex_val_digit high_surrogate_def low_surrogate_def)
  then show ?thesis using encode_decode [OF assms(1)] by simp
qed

lemma unquote_fffd: "unquote ([backslash] @ ''ufffd'' @ t) = encode_rune runeError @ unquote t"
  using unquote_unicode [of "CHR ''f''" "CHR ''f''" "CHR ''f''" "CHR ''d''" runeError t]
  by (simp add: high_surrogate_def low_surrogate_def runeError_def)

theorem unquote_json_escape: "unquote (json_escape s) = to_utf8 s"
proof (induction s rule: json_escape.induct)
  case (2 c s)
  obtain r n where rn: "decode_rune (c # s) = (r, n)" by (cases "decode_rune (c # s)")
  note IH = 2(1) 2(2,3,4) [OF _ rn [symmetric] refl]
  consider "byte c < 128" | "128 \<le> byte c" "\<not> decodes (c # s)"
    | "128 \<le> byte c" "decodes (c # s)" "line_sep r" | "128 \<le> byte c" "decodes (c # s)" "\<not> line_sep r"
    by linarith
  then show ?case
  proof cases
    case 1
    then show ?thesis using IH(1) by (simp add: unquote_escape_ascii to_utf8.simps)
  next
    case 2
    then show ?thesis using IH(2) rn unquote_fffd [of "json_escape s"] by (simp add: to_utf8.simps)
  next
    case 3
    then show ?thesis
      using IH(3) rn line_sep_encoding [of "c # s" "json_escape (drop n (c # s))"]
      by (simp add: to_utf8.simps)
  next
    case 4
    then show ?thesis
      using IH(4) rn unquote_rune [of "c # s" "json_escape (drop n (c # s))"]
      by (simp add: to_utf8.simps)
  qed
qed simp

section \<open>Numbers\<close>

definition digits_val :: "bytes \<Rightarrow> nat" where
  "digits_val ds = foldl (\<lambda>n c. 10 * n + digit_val c) 0 ds"

text \<open>A literal as an integer times a power of ten, its sign left aside.\<close>

definition frac_digits :: "bytes \<Rightarrow> bytes" where
  "frac_digits s = (if s \<noteq> [] \<and> hd s = CHR ''.'' then takeWhile is_digit (tl s) else [])"

definition exp_value :: "bytes \<Rightarrow> int" where
  "exp_value s =
     (if s = [] then 0
      else let t = tl s; ds = filter is_digit t
           in if t \<noteq> [] \<and> hd t = CHR ''-'' then - int (digits_val ds) else int (digits_val ds))"

definition decimal :: "bytes \<Rightarrow> nat \<times> int" where
  "decimal raw =
     (let u = unsigned raw; i = takeWhile is_digit u; r = dropWhile is_digit u; f = frac_digits r;
          r' = (if f = [] then r else drop (Suc (length f)) r)
      in (digits_val (i @ f), exp_value r' - int (length f)))"

text \<open>
  \<^verbatim>\<open>strconv.ParseFloat\<close> rounds to the nearest \<^verbatim>\<open>float64\<close>, ties to even: the result is
  zero up to half the smallest positive number, and out of range from half a unit beyond the
  largest one. (Its reading of exponents is exact for literals below ten thousand bytes.)
\<close>

definition num_zero :: "bytes \<Rightarrow> bool" where
  "num_zero raw \<longleftrightarrow>
     (let (m, e) = decimal raw in if 0 \<le> e then m = 0 else m * 2 ^ 1075 \<le> 10 ^ nat (- e))"

definition num_overflows :: "bytes \<Rightarrow> bool" where
  "num_overflows raw \<longleftrightarrow>
     (let (m, e) = decimal raw
      in if 0 \<le> e then 2 ^ 1024 - 2 ^ 970 \<le> m * 10 ^ nat e
         else (2 ^ 1024 - 2 ^ 970) * 10 ^ nat (- e) \<le> m)"

text \<open>\<^verbatim>\<open>strconv.ParseInt\<close> of base 10 into 64 bits.\<close>

definition int_literal :: "bytes \<Rightarrow> int option" where
  "int_literal raw =
     (let u = unsigned raw; n = int (digits_val u); x = (if sign_of raw = [] then n else - n)
      in if u \<noteq> [] \<and> (\<forall>c \<in> set u. is_digit c) \<and> in_int64 x then Some x else None)"

section \<open>Decoding into an empty interface\<close>

datatype any =
    A_nil | A_bool bool | A_float bytes | A_string bytes
  | A_slice "json list" | A_map "(bytes \<times> bytes \<times> json) list"

fun any_of :: "json \<Rightarrow> any" where
  "any_of JNull = A_nil"
| "any_of (JBool b) = A_bool b"
| "any_of (JNum raw) = A_float raw"
| "any_of (JStr raw) = A_string (unquote raw)"
| "any_of (JArr vs) = A_slice vs"
| "any_of (JObj ms) = A_map ms"

fun in_range :: "json \<Rightarrow> bool" where
  "in_range (JNum raw) = (\<not> num_overflows raw)"
| "in_range (JArr vs) = (\<forall>v \<in> set vs. in_range v)"
| "in_range (JObj ms) = (\<forall>(k, raw, v) \<in> set ms. in_range v)"
| "in_range v = True"

text \<open>\<^verbatim>\<open>json.Unmarshal\<close> into a \<^verbatim>\<open>map[string]any\<close>: of equal keys the last one wins.\<close>

definition unmarshal_map :: "bytes \<Rightarrow> lib_error + (bytes \<rightharpoonup> any)" where
  "unmarshal_map s =
     (case parse s of
        None \<Rightarrow> Inl Json_syntax
      | Some JNull \<Rightarrow> Inr Map.empty
      | Some (JObj ms) \<Rightarrow>
          if in_range (JObj ms)
          then Inr (map_of (rev (map (\<lambda>(k, raw, v). (unquote k, any_of v)) ms)))
          else Inl Json_unmarshal_type
      | Some _ \<Rightarrow> Inl Json_unmarshal_type)"

section \<open>Integers printed and read\<close>

lemma digits_val_append: "digits_val (xs @ [d]) = 10 * digits_val xs + digit_val d"
  by (simp add: digits_val_def)

lemma digit_char: "n < 10 \<Longrightarrow> is_digit (char_of (48 + n)) \<and> digit_val (char_of (48 + n)) = n"
  by (simp add: is_digit_def digit_val_def)

lemma nat_digits_props:
  "nat_digits n \<noteq> [] \<and> (\<forall>c \<in> set (nat_digits n). is_digit c) \<and> digits_val (nat_digits n) = n \<and>
   (n \<noteq> 0 \<longrightarrow> hd (nat_digits n) \<noteq> CHR ''0'')"
proof (induction n rule: nat_digits.induct)
  case (1 n)
  show ?case
  proof (cases "n < 10")
    case True
    have "byte (char_of (48 + n)) = 48 + n" using True by simp
    moreover have "byte (CHR ''0'') = 48" by simp
    ultimately have "char_of (48 + n) \<noteq> CHR ''0''" if "n \<noteq> 0" using that by (metis add_cancel_right_right)
    with True digit_char [of n] show ?thesis
      by (simp add: nat_digits.simps [of n] digits_val_def)
  next
    case False
    with 1 digit_char [of "n mod 10"] show ?thesis
      by (simp add: nat_digits.simps [of n] digits_val_append)
  qed
qed


lemma itoa_parts:
  "unsigned (itoa x) = nat_digits (nat \<bar>x\<bar>)" "sign_of (itoa x) = (if x < 0 then ''-'' else [])"
proof -
  have "hd (nat_digits n) \<noteq> CHR ''-''" for n
    using nat_digits_props [of n] hd_in_set [of "nat_digits n"] is_digit_simps(5) by metis
  then show "unsigned (itoa x) = nat_digits (nat \<bar>x\<bar>)" "sign_of (itoa x) = (if x < 0 then ''-'' else [])"
    by (auto simp: itoa_def unsigned_def sign_of_def)
qed

lemma all_digits [simp]:
  "takeWhile is_digit (nat_digits n) = nat_digits n" "dropWhile is_digit (nat_digits n) = []"
  using nat_digits_props [of n] by simp_all

lemma itoa_num_ok: "num_ok (itoa x)"
proof -
  let ?ds = "nat_digits (nat \<bar>x\<bar>)"
  note p = nat_digits_props [of "nat \<bar>x\<bar>"]
  have "scan_int ?ds = Some (?ds, [])"
  proof (cases "x = 0")
    case True
    have "char_of (48 :: nat) = CHR ''0''" by code_simp
    with True show ?thesis by (simp add: scan_int_def nat_digits.simps [of 0])
  next
    case False
    then show ?thesis using p by (auto simp: scan_int_def Let_def)
  qed
  moreover have "itoa x = sign_of (itoa x) @ ?ds" unfolding itoa_parts(2) by (simp add: itoa_def)
  ultimately show ?thesis
    unfolding num_ok_def scan_number_parts by (auto simp: itoa_parts(1) scan_frac_def scan_exp_def)
qed

lemma itoa_decimal: "decimal (itoa x) = (nat \<bar>x\<bar>, 0)"
  using nat_digits_props [of "nat \<bar>x\<bar>"]
  by (simp add: decimal_def Let_def itoa_parts frac_digits_def exp_value_def)

lemma itoa_zero: "num_zero (itoa x) \<longleftrightarrow> x = 0"
  by (simp add: num_zero_def itoa_decimal)

lemma itoa_in_range: "in_int64 x \<Longrightarrow> \<not> num_overflows (itoa x)"
proof -
  assume "in_int64 x"
  then have "nat \<bar>x\<bar> \<le> 2 ^ 63" by (auto simp: in_int64_def int64_min_def int64_max_def)
  moreover have "(2 :: nat) ^ 63 < 2 ^ 1024 - 2 ^ 970" by simp
  ultimately show ?thesis by (simp add: num_overflows_def itoa_decimal)
qed

lemma itoa_int_literal: "in_int64 x \<Longrightarrow> int_literal (itoa x) = Some x"
  using nat_digits_props [of "nat \<bar>x\<bar>"] by (auto simp: int_literal_def itoa_parts)

section \<open>Escaped text is well formed\<close>

lemma str_ok_plain:
  "\<forall>c \<in> set s. c \<noteq> quot \<and> c \<noteq> backslash \<and> 32 \<le> byte c \<Longrightarrow> str_ok t \<Longrightarrow> str_ok (s @ t)"
  by (induction s) (auto intro: str_ok.str_plain)

lemma str_ok_high_append: "\<forall>c \<in> set s. 128 \<le> byte c \<Longrightarrow> str_ok t \<Longrightarrow> str_ok (s @ t)"
  by (induction s) (auto intro: str_ok_high)

lemma str_ok_hex2:
  "b < 256 \<Longrightarrow> str_ok t \<Longrightarrow> str_ok (backslash # CHR ''u'' # CHR ''0'' # CHR ''0'' # hex2 b @ t)"
  unfolding hex2_def by (auto intro!: str_unicode is_hex_digit)

lemma char_of_quotes [simp]: "char_of (34 :: nat) = quot" "char_of (92 :: nat) = backslash"
  by code_simp+

lemma str_ok_escape_ascii: 
  assumes "byte c < 128" and "str_ok t"
  shows "str_ok (escape_ascii (byte c) @ t)"
proof (cases "html_safe (byte c)")
  case True
  then have "c \<noteq> quot" "c \<noteq> backslash" "32 \<le> byte c" by (auto simp: html_safe_def)
  with True assms(2) show ?thesis by (simp add: escape_ascii_def str_ok.str_plain)
next
  case False
  show ?thesis
  proof (cases "byte c \<in> {34, 92, 8, 12, 10, 13, 9}")
    case True
    then have "c \<in> {quot, backslash, CHR 0x08, CHR 0x0C, CHR 0x0A, CHR 0x0D, CHR 0x09}"
      by (auto simp del: of_char_eq_iff simp: of_char_eq_iff [symmetric, where ?'a = nat])
    then have "\<exists>e. escape_ascii (byte c) = [backslash, e] \<and> simple_escape e"
      by (elim insertE emptyE) (simp_all add: escape_ascii_def html_safe_def simple_escape_def)
    with assms(2) show ?thesis by (auto intro: str_escape)
  next
    case other: False
    then have "escape_ascii (byte c) = [backslash, CHR ''u'', CHR ''0'', CHR ''0''] @ hex2 (byte c)"
      using False by (simp add: escape_ascii_def)
    with str_ok_hex2 [of "byte c" t] assms show ?thesis by simp
  qed
qed

lemma decoded_high:
  assumes "decodes s" and "128 \<le> byte (hd s)"
  shows "\<forall>c \<in> set (take (snd (decode_rune s)) s). 128 \<le> byte c"
proof -
  obtain c t where s: "s = c # t" "128 \<le> byte c" using assms by (cases s) (auto simp: decodes_def)
  have n: "cont b \<Longrightarrow> 128 \<le> b" "second_ok a b \<Longrightarrow> 128 \<le> b" for a b
    by (auto simp: cont_def second_ok_def)
  have "\<forall>c \<in> set (take (snd (decode2 b t) - 1) t). 128 \<le> byte c" if "1 < snd (decode2 b t)" for b
    using that n by (cases "(b, t)" rule: decode2.cases) (auto split: if_splits)
  moreover have "\<forall>c \<in> set (take (snd (decode3 b t) - 1) t). 128 \<le> byte c" if "1 < snd (decode3 b t)" for b
    using that n by (cases "(b, t)" rule: decode3.cases) (auto simp: numeral_2_eq_2 split: if_splits)
  moreover have "\<forall>c \<in> set (take (snd (decode4 b t) - 1) t). 128 \<le> byte c" if "1 < snd (decode4 b t)" for b
    using that n by (cases "(b, t)" rule: decode4.cases)
      (auto simp: numeral_2_eq_2 numeral_3_eq_3 split: if_splits)
  ultimately show ?thesis
    using s assms by (auto simp: decodes_def decode_rune.simps Let_def take_Cons' split: if_splits)
qed

lemma json_escape_ok: "str_ok (json_escape s)"
proof (induction s rule: json_escape.induct)
  case (2 c s)
  obtain r n where rn: "decode_rune (c # s) = (r, n)" by (cases "decode_rune (c # s)")
  note IH = 2(1) 2(2,3,4) [OF _ rn [symmetric] refl]
  have "str_ok (backslash # CHR ''u'' # CHR ''f'' # CHR ''f'' # CHR ''f'' # CHR ''d'' # json_escape s)"
    if "str_ok (json_escape s)" using that by (intro str_unicode) simp_all
  moreover have "str_ok (backslash # CHR ''u'' # CHR ''2'' # CHR ''0'' # CHR ''2'' # hex_digit (r mod 16) # t)"
    if "str_ok t" for t using that by (intro str_unicode) (simp_all add: is_hex_digit)
  ultimately show ?case
    using IH str_ok_escape_ascii [of c "json_escape s"] decoded_high [of "c # s"] rn
      str_ok_high_append [of "take n (c # s)" "json_escape (drop n (c # s))"]
    by (auto simp: Let_def)
qed (simp add: str_nil)

section \<open>Nesting\<close>

fun nesting :: "json \<Rightarrow> nat" where
  "nesting (JArr vs) = Suc (foldr max (map nesting vs) 0)"
| "nesting (JObj ms) = Suc (foldr max (map (\<lambda>(k, raw, v). nesting v) ms) 0)"
| "nesting v = 0"

lemma foldr_max_le: "foldr max xs 0 \<le> (d :: nat) \<longleftrightarrow> (\<forall>x \<in> set xs. x \<le> d)"
  by (induction xs) auto

lemma wf_nesting: "wf_json d v \<Longrightarrow> nesting v \<le> d' \<longleftrightarrow> wf_json d' v"
proof (induction v arbitrary: d d')
  case (JArr vs)
  show ?case
  proof (cases d')
    case (Suc d'')
    with JArr show ?thesis by (force simp: foldr_max_le)
  qed simp
next
  case (JObj ms)
  show ?case
  proof (cases d')
    case (Suc d'')
    have "nesting v \<le> d'' \<longleftrightarrow> wf_json d'' v" "str_ok k" if "(k, raw, v) \<in> set ms" for k raw v
      using JObj.IH [OF that, of "(raw, v)" v] JObj.prems that by (fastforce)+
    with Suc show ?thesis by (fastforce simp: foldr_max_le)
  qed simp
qed auto

lemma compact_json_same:
  "nesting (compact_json v) = nesting v \<and> in_range (compact_json v) = in_range v"
proof (induction v)
  case (JArr vs)
  then have "map nesting (map compact_json vs) = map nesting vs" by simp
  with JArr show ?case by (simp only: compact_json.simps nesting.simps in_range.simps) simp
next
  case (JObj ms)
  let ?f = "\<lambda>(k, raw, v). (html_escape k, print_json (compact_json v), compact_json v)"
  have eq: "nesting (compact_json v) = nesting v" "in_range (compact_json v) = in_range v"
    if "(k, raw, v) \<in> set ms" for k raw v
    using JObj [OF that, of "(raw, v)" v] by auto
  then have "map (\<lambda>(k, raw, v). nesting v) (map ?f ms) = map (\<lambda>(k, raw, v). nesting v) ms" by auto
  moreover have "(\<forall>(k, raw, v) \<in> set (map ?f ms). in_range v) = (\<forall>(k, raw, v) \<in> set ms. in_range v)"
    using eq by fastforce
  ultimately show ?case by (simp only: compact_json.simps nesting.simps in_range.simps)
qed auto

text \<open>A deeper limit reads at least as much.\<close>

lemma at_deeper:
  "value_at d s v r \<Longrightarrow> d \<le> d' \<Longrightarrow> value_at d' s v r"
  "elems_at d s vs r \<Longrightarrow> d \<le> d' \<Longrightarrow> elems_at d' s vs r"
  "members_at d s ms r \<Longrightarrow> d \<le> d' \<Longrightarrow> members_at d' s ms r"
proof (induction arbitrary: d' and d' and d' rule: value_at_elems_at_members_at.inducts)
  case (at_arr_nil t r d)
  then show ?case by (cases d') (auto intro: value_at_elems_at_members_at.intros)
next
  case (at_arr d t vs r)
  then show ?case by (cases d') (auto intro: value_at_elems_at_members_at.intros)
next
  case (at_obj_nil t r d)
  then show ?case by (cases d') (auto intro: value_at_elems_at_members_at.intros)
next
  case (at_obj d t ms r)
  then show ?case by (cases d') (auto intro: value_at_elems_at_members_at.intros)
qed (blast intro: value_at_elems_at_members_at.intros)+

section \<open>The texts of members\<close>

text \<open>
  A value's own text stands on its own: whatever follows a value in a document can be replaced.
  So the text a member keeps, which a raw message field receives, parses to the member's value.
\<close>

definition relocatable :: "nat \<Rightarrow> bytes \<Rightarrow> json \<Rightarrow> bool" where
  "relocatable d p v \<longleftrightarrow> (\<forall>r. num_stop r \<longrightarrow> value_at d (p @ r) v r)"

lemma skip_ws_split: "skip_ws q = c # r \<Longrightarrow> \<exists>w. q = w @ c # r \<and> list_all is_ws w"
  by (metis append.assoc append_Cons list_all_iff set_takeWhileD skip_ws_def takeWhile_dropWhile_id)

lemma skip_ws_ws: "list_all is_ws w \<Longrightarrow> \<not> is_ws c \<Longrightarrow> skip_ws (w @ c # r) = c # r"
  by (induction w) (auto simp: skip_ws_def)

lemma ws_stop: "list_all is_ws w \<Longrightarrow> num_stop (c # r) \<Longrightarrow> num_stop (w @ c # r)"
  by (cases w) (auto simp: num_stop_def is_ws_def is_digit_def)

lemma punct_not_ws [simp]:
  "\<not> is_ws (CHR '','')" "\<not> is_ws (CHR '']'')" "\<not> is_ws (CHR ''}'')" "\<not> is_ws (CHR '':'')"
  by (simp_all add: is_ws_def)

lemma ws_prefix: "\<exists>w. list_all is_ws w \<and> u = w @ skip_ws u"
  by (metis list_all_iff set_takeWhileD skip_ws_def takeWhile_dropWhile_id)

lemma skip_ws_ws': "list_all is_ws w \<Longrightarrow> x \<noteq> [] \<and> \<not> is_ws (hd x) \<Longrightarrow> skip_ws (w @ x) = x"
  by (cases x) (auto simp: skip_ws_ws)

lemma elems_at_not_ws: "elems_at d s vs r \<Longrightarrow> s \<noteq> [] \<and> \<not> is_ws (hd s)"
  by (cases rule: elems_at.cases) (auto dest: value_at_first)

lemma members_at_not_ws: "members_at d s ms r \<Longrightarrow> s \<noteq> [] \<and> \<not> is_ws (hd s)"
  by (drule members_at_first) (simp add: is_ws_def)

lemma relocatable_at: "relocatable d p v \<Longrightarrow> num_stop r \<Longrightarrow> value_at d (p @ r) v r"
  by (simp add: relocatable_def)

text \<open>A member's text between its key and what follows, when the value can be moved.\<close>

lemma members_at_moved:
  assumes "str_ok k" and "list_all is_ws w" and "list_all is_ws w2" and "relocatable d p v"
    and "list_all is_ws w3" and "num_stop (c # r')"
  shows "c = CHR ''}'' \<Longrightarrow> members_at d (quot # k @ quot # w @ CHR '':'' # w2 @ p @ w3 @ c # r') [(k, p, v)] r'"
    and "c = CHR '','' \<Longrightarrow> members_at d (skip_ws r') ms r \<Longrightarrow>
      members_at d (quot # k @ quot # w @ CHR '':'' # w2 @ p @ w3 @ c # r') ((k, p, v) # ms) r"
proof -
  let ?q = "w3 @ c # r'"
  have at: "value_at d (p @ ?q) v ?q" using relocatable_at [OF assms(4) ws_stop [OF assms(5,6)]] .
  have u: "skip_ws (w2 @ p @ ?q) = p @ ?q" using skip_ws_ws' [OF assms(3)] value_at_first [OF at] by auto
  have colon: "skip_ws (w @ CHR '':'' # w2 @ p @ ?q) = CHR '':'' # w2 @ p @ ?q"
    using skip_ws_ws [OF assms(2)] by simp
  have own: "take (length (p @ ?q) - length ?q) (p @ ?q) = p" by simp
  show "members_at d (quot # k @ quot # w @ CHR '':'' # w2 @ p @ w3 @ c # r') [(k, p, v)] r'" if "c = CHR ''}''"
    using members_one [OF assms(1) colon, of d v ?q r'] at skip_ws_ws [OF assms(5), of c r'] that
    unfolding u own by simp
  show "members_at d (quot # k @ quot # w @ CHR '':'' # w2 @ p @ w3 @ c # r') ((k, p, v) # ms) r"
    if "c = CHR '',''" "members_at d (skip_ws r') ms r"
    using members_more [OF assms(1) colon, of d v ?q r' ms r] at skip_ws_ws [OF assms(5), of c r'] that
    unfolding u own by simp
qed

lemma at_relocatable:
  "value_at d s v r \<Longrightarrow> \<exists>p. s = p @ r \<and> relocatable d p v"
  "elems_at d s vs r \<Longrightarrow> \<exists>p. s = p @ r \<and> (\<forall>r'. elems_at d (p @ r') vs r')"
  "members_at d s ms r \<Longrightarrow> (\<exists>p. s = p @ r \<and> (\<forall>r'. members_at d (p @ r') ms r')) \<and>
     (\<forall>(k, raw, v) \<in> set ms. relocatable d raw v)"
proof (induction rule: value_at_elems_at_members_at.inducts)
  case (at_null d r)
  show ?case using value_at_elems_at_members_at.at_null
    by (intro exI [of _ "''null''"]) (simp add: relocatable_def)
next
  case (at_true d r)
  show ?case using value_at_elems_at_members_at.at_true
    by (intro exI [of _ "''true''"]) (simp add: relocatable_def)
next
  case (at_false d r)
  show ?case using value_at_elems_at_members_at.at_false
    by (intro exI [of _ "''false''"]) (simp add: relocatable_def)
next
  case (at_num s raw r d)
  then show ?case
    using scan_number_split [OF at_num] scan_number_append [OF scan_number_ok [OF at_num]]
    by (auto simp: relocatable_def intro!: value_at_elems_at_members_at.at_num)
next
  case (at_str raw d r)
  then show ?case using value_at_elems_at_members_at.at_str [OF at_str]
    by (intro exI [of _ "quot # raw @ [quot]"]) (simp add: relocatable_def)
next
  case (at_arr_nil t r d)
  then obtain w where w: "t = w @ CHR '']'' # r" "list_all is_ws w" using skip_ws_split by blast
  then show ?case using value_at_elems_at_members_at.at_arr_nil [OF skip_ws_ws [OF w(2)]]
    by (intro exI [of _ "CHR ''['' # w @ [CHR '']'']"]) (simp add: relocatable_def)
next
  case (at_arr d t vs r)
  then obtain p where p: "skip_ws t = p @ r" "\<And>r'. elems_at d (p @ r') vs r'" by blast
  obtain w where w: "list_all is_ws w" "t = w @ p @ r" using ws_prefix [of t] p(1) by auto
  have "value_at (Suc d) (CHR ''['' # w @ p @ r') (JArr vs) r'" for r'
    using value_at_elems_at_members_at.at_arr [of d "w @ p @ r'" vs r'] p(2) [of r']
      skip_ws_ws' [OF w(1) elems_at_not_ws [OF p(2)]] by simp
  with w show ?case by (intro exI [of _ "CHR ''['' # w @ p"]) (simp add: relocatable_def)
next
  case (at_obj_nil t r d)
  then obtain w where w: "t = w @ CHR ''}'' # r" "list_all is_ws w" using skip_ws_split by blast
  then show ?case using value_at_elems_at_members_at.at_obj_nil [OF skip_ws_ws [OF w(2)]]
    by (intro exI [of _ "CHR ''{'' # w @ [CHR ''}'']"]) (simp add: relocatable_def)
next
  case (at_obj d t ms r)
  then obtain p where p: "skip_ws t = p @ r" "\<And>r'. members_at d (p @ r') ms r'" by blast
  obtain w where w: "list_all is_ws w" "t = w @ p @ r" using ws_prefix [of t] p(1) by auto
  have "value_at (Suc d) (CHR ''{'' # w @ p @ r') (JObj ms) r'" for r'
    using value_at_elems_at_members_at.at_obj [of d "w @ p @ r'" ms r'] p(2) [of r']
      skip_ws_ws' [OF w(1) members_at_not_ws [OF p(2)]] by simp
  with w show ?case by (intro exI [of _ "CHR ''{'' # w @ p"]) (simp add: relocatable_def)
next
  case (elems_one d s v q r)
  then obtain p where p: "s = p @ q" "relocatable d p v" by blast
  obtain w where w: "q = w @ CHR '']'' # r" "list_all is_ws w" using skip_ws_split [OF elems_one.hyps(2)] by blast
  have "elems_at d (p @ w @ CHR '']'' # r') [v] r'" for r'
    using value_at_elems_at_members_at.elems_one [OF relocatable_at [OF p(2) ws_stop [OF w(2)]]]
      skip_ws_ws [OF w(2)] by simp
  with p(1) w(1) show ?case by (intro exI [of _ "p @ w @ [CHR '']'']"]) simp
next
  case (elems_more d s v q u vs r)
  then obtain p p2 where p: "s = p @ q" "relocatable d p v"
      "skip_ws u = p2 @ r" "\<And>r'. elems_at d (p2 @ r') vs r'" by blast
  obtain w where w: "q = w @ CHR '','' # u" "list_all is_ws w" using skip_ws_split [OF elems_more.hyps(2)] by blast
  obtain w2 where w2: "list_all is_ws w2" "u = w2 @ p2 @ r" using ws_prefix [of u] p(3) by auto
  have "elems_at d (p @ w @ CHR '','' # w2 @ p2 @ r') (v # vs) r'" for r'
    using value_at_elems_at_members_at.elems_more [OF relocatable_at [OF p(2) ws_stop [OF w(2)]],
        of "CHR '',''" "w2 @ p2 @ r'" "w2 @ p2 @ r'" vs r']
      skip_ws_ws [OF w(2)] skip_ws_ws' [OF w2(1) elems_at_not_ws [OF p(4)]] p(4) by simp
  with p(1) w(1) w2(2) show ?case by (intro exI [of _ "p @ w @ CHR '','' # w2 @ p2"]) simp
next
  case (members_one k p0 u d v q r)
  then obtain p where p: "skip_ws u = p @ q" "relocatable d p v" by blast
  obtain w where w: "p0 = w @ CHR '':'' # u" "list_all is_ws w" using skip_ws_split [OF members_one.hyps(2)] by blast
  obtain w2 where w2: "list_all is_ws w2" "u = w2 @ p @ q" using ws_prefix [of u] p(1) by auto
  obtain w3 where w3: "q = w3 @ CHR ''}'' # r" "list_all is_ws w3" using skip_ws_split [OF members_one.hyps(4)] by blast
  have "members_at d (quot # k @ quot # w @ CHR '':'' # w2 @ p @ w3 @ CHR ''}'' # r') [(k, p, v)] r'" for r'
    using members_at_moved(1) [OF members_one.hyps(1) w(2) w2(1) p(2) w3(2)] by simp
  with p w w2 w3 show ?case
    by (auto intro!: exI [of _ "quot # k @ quot # w @ CHR '':'' # w2 @ p @ w3 @ ''}''"])
next
  case (members_more k p0 u d v q u1 ms r)
  then obtain p p2 where p: "skip_ws u = p @ q" "relocatable d p v"
      "skip_ws u1 = p2 @ r" "\<And>r'. members_at d (p2 @ r') ms r'" by blast
  obtain w where w: "p0 = w @ CHR '':'' # u" "list_all is_ws w" using skip_ws_split [OF members_more.hyps(2)] by blast
  obtain w2 where w2: "list_all is_ws w2" "u = w2 @ p @ q" using ws_prefix [of u] p(1) by auto
  obtain w3 where w3: "q = w3 @ CHR '','' # u1" "list_all is_ws w3" using skip_ws_split [OF members_more.hyps(4)] by blast
  obtain w4 where w4: "list_all is_ws w4" "u1 = w4 @ p2 @ r" using ws_prefix [of u1] p(3) by auto
  have "members_at d (quot # k @ quot # w @ CHR '':'' # w2 @ p @ w3 @ CHR '','' # w4 @ p2 @ r') ((k, p, v) # ms) r'" for r'
    using members_at_moved(2) [OF members_more.hyps(1) w(2) w2(1) p(2) w3(2), of "CHR '',''" "w4 @ p2 @ r'" ms r']
      skip_ws_ws' [OF w4(1) members_at_not_ws [OF p(4)]] p(4) by simp
  with p w w2 w3 w4 members_more show ?case
    by (auto intro!: exI [of _ "quot # k @ quot # w @ CHR '':'' # w2 @ p @ w3 @ CHR '','' # w4 @ p2"])
qed

lemma member_text:
  assumes "parse s = Some (JObj ms)" and "(k, raw, v) \<in> set ms"
  shows "parse raw = Some v"
proof -
  from assms(1) obtain r where "value_at max_depth (skip_ws s) (JObj ms) r"
    by (auto simp: parse_def parser_is_grammar split: option.splits if_splits)
  then obtain d where "relocatable d raw v" "d \<le> max_depth"
    using assms(2) at_relocatable(3) by (cases rule: value_at.cases) fastforce+
  then have "value_at max_depth (raw @ []) v []"
    using relocatable_at [of d raw v "[]"] at_deeper(1) by simp
  then have at: "value_at max_depth raw v []" by simp
  have "skip_ws raw = raw" "skip_ws [] = []"
    using value_at_first [OF at] by (auto intro: skip_ws_id)
  then show ?thesis using at_parse(1) [OF at] by (simp add: parse_def)
qed

section \<open>Members and plain strings\<close>

text \<open>A member as the program prints it, and strings that need no escape.\<close>

definition member :: "bytes \<Rightarrow> json \<Rightarrow> bytes \<times> bytes \<times> json" where
  "member key v = (key, print_json v, v)"

definition plain_char :: "char \<Rightarrow> bool" where
  "plain_char c \<longleftrightarrow> c \<noteq> quot \<and> c \<noteq> backslash \<and> 32 \<le> byte c"

lemma plain_str_ok: "list_all plain_char s \<Longrightarrow> str_ok s"
  using str_ok_plain [of s "[]"] by (auto simp: list_all_iff plain_char_def str_nil)

lemma is_digit_plain: "is_digit c \<Longrightarrow> plain_char c"
  by (auto simp: is_digit_def plain_char_def)

lemma pad_plain: "list_all plain_char (pad w n)"
  using nat_digits_props [of n]
  by (auto simp: pad_def Let_def list_all_iff intro!: is_digit_plain)

lemma strip_zeros_plain: "list_all P s \<Longrightarrow> list_all P (strip_zeros s)"
  by (induction s) auto

lemma frac_part_plain: "list_all plain_char (frac_part n)"
  using strip_zeros_plain [of plain_char "rev (pad 9 n)"] pad_plain [of 9 n]
  by (auto simp: frac_part_def plain_char_def)

lemma time_json_text: "time_json t = Some b \<Longrightarrow> \<exists>tt. b = quot # tt @ [quot] \<and> str_ok tt"
  by (auto simp: time_json_def Let_def split_beta pad_plain frac_part_plain plain_char_def
      split: if_splits intro!: plain_str_ok)

end
