(* ===== verification/Deadletters.thy ===== *)
theory Deadletters
  imports Dlq Jsonvalue
begin

text \<open>
  Reading the dead letter file back: base64 is undone, and every line is a JSON object from which
  the source, the reason and the payload of the entry are recovered.
\<close>

section \<open>Undoing base64\<close>

definition b64_val :: "char \<Rightarrow> nat" where
  "b64_val c =
     (let b = byte c in
      if 65 \<le> b \<and> b \<le> 90 then b - 65 else if 97 \<le> b \<and> b \<le> 122 then b - 71
      else if 48 \<le> b \<and> b \<le> 57 then b + 4 else if b = 43 then 62 else 63)"

fun unbase64 :: "bytes \<Rightarrow> bytes" where
  "unbase64 (p # q # r # s # t) =
     (let n = b64_val p * 262144 + b64_val q * 4096 in
      if r = CHR ''='' then [char_of (n div 65536)]
      else let m = n + b64_val r * 64 in
        if s = CHR ''='' then [char_of (m div 65536), char_of (m div 256 mod 256)]
        else let k = m + b64_val s in
          [char_of (k div 65536), char_of (k div 256 mod 256), char_of (k mod 256)] @ unbase64 t)"
| "unbase64 _ = []"

lemma b64_val_digit: "n < 64 \<Longrightarrow> b64_val (b64_digit n) = n"
  by (auto simp: b64_val_def b64_digit_def Let_def)

lemma b64_digit_not_pad: "n < 64 \<Longrightarrow> b64_digit n \<noteq> CHR ''=''"
proof
  assume "n < 64" "b64_digit n = CHR ''=''"
  then have "byte (b64_digit n) = 61" by simp
  with \<open>n < 64\<close> show False by (auto simp: b64_digit_def split: if_splits)
qed

lemma recombine_pair: "(n :: nat) div 64 mod 64 * 64 + n mod 64 = n mod 4096"
  using mod_mult2_eq [of n 64 64] by simp

lemma recombine:
  fixes n :: nat
  shows "n div 262144 * 262144 + n div 4096 mod 64 * 4096 + n div 64 mod 64 * 64 + n mod 64 = n"
proof -
  have "n div 4096 div 64 = n div 262144" by (simp add: div_mult2_eq [symmetric])
  then have "n div 262144 * 64 + n div 4096 mod 64 = n div 4096"
    by (metis div_mult_mod_eq)
  then have "n div 262144 * 262144 + n div 4096 mod 64 * 4096 = n div 4096 * 4096" by linarith
  moreover have "n div 4096 * 4096 + n mod 4096 = n" by simp
  ultimately show ?thesis using recombine_pair [of n] by linarith
qed

lemma unbase64_3:
  assumes "n < 16777216"
  shows "unbase64 (b64_digit (n div 262144) # b64_digit (n div 4096 mod 64) # b64_digit (n div 64 mod 64) #
      b64_digit (n mod 64) # t) =
    [char_of (n div 65536), char_of (n div 256 mod 256), char_of (n mod 256)] @ unbase64 t"
proof -
  have "n div 262144 < 64" using assms by (simp add: less_mult_imp_div_less)
  then show ?thesis by (simp add: b64_val_digit b64_digit_not_pad Let_def recombine)
qed

lemma unbase64_2:
  assumes "n < 16777216" and "n mod 64 = 0"
  shows "unbase64 [b64_digit (n div 262144), b64_digit (n div 4096 mod 64), b64_digit (n div 64 mod 64), CHR ''=''] =
    [char_of (n div 65536), char_of (n div 256 mod 256)]"
proof -
  have "n div 262144 < 64" using assms(1) by (simp add: less_mult_imp_div_less)
  moreover have "n div 262144 * 262144 + n div 4096 mod 64 * 4096 + n div 64 mod 64 * 64 = n"
    using recombine [of n] assms(2) by simp
  ultimately show ?thesis by (simp add: b64_val_digit b64_digit_not_pad Let_def)
qed

lemma unbase64_1:
  assumes "n < 16777216" and "n mod 4096 = 0"
  shows "unbase64 [b64_digit (n div 262144), b64_digit (n div 4096 mod 64), CHR ''='', CHR ''=''] =
    [char_of (n div 65536)]"
proof -
  have "n div 262144 < 64" using assms(1) by (simp add: less_mult_imp_div_less)
  moreover have "n div 262144 * 262144 + n div 4096 mod 64 * 4096 = n"
    using recombine [of n] recombine_pair [of n] assms(2) by linarith
  ultimately show ?thesis by (simp add: b64_val_digit b64_digit_not_pad Let_def)
qed

lemma three_bytes:
  assumes "a < 256" "b < 256" "c < (256 :: nat)"
  shows "(a * 65536 + b * 256 + c) div 65536 = a" "(a * 65536 + b * 256 + c) div 256 mod 256 = b"
    "(a * 65536 + b * 256 + c) mod 256 = c" "a * 65536 + b * 256 + c < 16777216"
proof -
  have m: "b * 256 + c < 65536" using assms by linarith
  then show "(a * 65536 + b * 256 + c) div 65536 = a"
    using div_mult_self3 [of 65536 a "b * 256 + c"] by (simp add: add.assoc)
  have e: "a * 65536 + b * 256 + c = c + 256 * (a * 256 + b)" by simp
  show "(a * 65536 + b * 256 + c) div 256 mod 256 = b" "(a * 65536 + b * 256 + c) mod 256 = c"
    unfolding e div_mult_self2 [OF zero_neq_numeral [symmetric]] mod_mult_self2
    using assms by (simp_all add: mod_mult_self3)
  show "a * 65536 + b * 256 + c < 16777216" using assms by linarith
qed

lemma padded:
  fixes x y :: nat
  shows "(x * 65536 + y * 256) mod 64 = 0" "x * 65536 mod 4096 = 0"
proof -
  have "x * 65536 + y * 256 = 64 * (x * 1024 + y * 4)" "x * 65536 = 4096 * (x * 16)" by simp_all
  then show "(x * 65536 + y * 256) mod 64 = 0" "x * 65536 mod 4096 = 0"
    by (simp_all only: mod_mult_self1_is_0)
qed

lemma unbase64_base64: "unbase64 (base64 s) = s"
proof (induction s rule: base64.induct)
  case (1 a b c s)
  have "byte a < 256" "byte b < 256" "byte c < 256" by simp_all
  note t = three_bytes [OF this]
  show ?case
    using unbase64_3 [OF t(4), of "base64 s"] 1 by (simp add: Let_def t del: unbase64.simps)
next
  case (2 a b)
  have "byte a < 256" "byte b < 256" "0 < (256 :: nat)" by simp_all
  note t = three_bytes [OF this, simplified]
  from unbase64_2 [OF t(4) padded(1)] show ?case by (simp add: Let_def t del: unbase64.simps)
next
  case (3 a)
  have "byte a < 256" by simp
  then have "byte a * 65536 < 16777216" "byte a * 65536 div 65536 = byte a" by simp_all
  with unbase64_1 [OF _ padded(2)] show ?case by (simp add: Let_def del: unbase64.simps)
qed simp

section \<open>Text that needs no escape\<close>

definition ascii_char :: "char \<Rightarrow> bool" where
  "ascii_char c \<longleftrightarrow> plain_char c \<and> byte c < 128"

lemma unquote_ascii: "list_all ascii_char s \<Longrightarrow> unquote s = s"
  by (induction s) (simp_all add: ascii_char_def plain_char_def unquote_plain)

lemma ascii_str_ok: "list_all ascii_char s \<Longrightarrow> str_ok s"
  by (rule plain_str_ok) (auto simp: list_all_iff ascii_char_def)

lemma is_digit_ascii: "is_digit c \<Longrightarrow> ascii_char c"
  using is_digit_plain [of c] by (auto simp: ascii_char_def is_digit_def)

lemma b64_digit_ascii: "n < 64 \<Longrightarrow> ascii_char (b64_digit n)"
proof -
  assume n: "n < 64"
  have "byte c \<noteq> byte quot \<and> byte c \<noteq> byte backslash \<Longrightarrow> c \<noteq> quot \<and> c \<noteq> backslash" for c by auto
  moreover have "byte (b64_digit n) \<noteq> 34 \<and> byte (b64_digit n) \<noteq> 92 \<and> 32 \<le> byte (b64_digit n) \<and> byte (b64_digit n) < 128"
    using n by (auto simp: b64_digit_def)
  ultimately show ?thesis by (simp add: ascii_char_def plain_char_def)
qed

lemma base64_ascii: "list_all ascii_char (base64 s)"
proof -
  have eq: "ascii_char CHR ''=''" by (simp add: ascii_char_def plain_char_def)
  have top: "n < 16777216 \<Longrightarrow> n div 262144 < 64" for n :: nat by (simp add: less_mult_imp_div_less)
  have low: "n mod 64 < 64" for n :: nat by simp
  have lt: "byte a < 256" for a by simp
  show ?thesis
  proof (induction s rule: base64.induct)
    case (1 a b c s)
    show ?case
      using 1 b64_digit_ascii [OF top [OF three_bytes(4) [OF lt lt lt]], of a b c] b64_digit_ascii [OF low]
      by (simp add: Let_def)
  next
    case (2 a b)
    show ?case
      using b64_digit_ascii [OF top [OF three_bytes(4) [OF lt lt, of 0]], of a b] b64_digit_ascii [OF low] eq
      by (simp add: Let_def)
  next
    case (3 a)
    show ?case
      using b64_digit_ascii [OF top [OF three_bytes(4) [OF lt, of 0 0]], of a] b64_digit_ascii [OF low] eq
      by (simp add: Let_def)
  qed simp
qed

lemma pad_ascii: "list_all ascii_char (pad w n)"
  using nat_digits_props [of n] by (auto simp: pad_def Let_def list_all_iff intro!: is_digit_ascii)

lemma frac_part_ascii: "list_all ascii_char (frac_part n)"
  using strip_zeros_plain [of ascii_char "rev (pad 9 n)"] pad_ascii [of 9 n]
  by (auto simp: frac_part_def ascii_char_def plain_char_def)

lemma time_json_ascii: "time_json t = Some b \<Longrightarrow> \<exists>tt. b = quot # tt @ [quot] \<and> list_all ascii_char tt"
  by (auto simp: time_json_def Let_def split_beta pad_ascii frac_part_ascii ascii_char_def plain_char_def
      split: if_splits)

section \<open>A line as a JSON object\<close>

definition time_text :: "int \<Rightarrow> bytes" where
  "time_text t = (case time_json t of Some s \<Rightarrow> butlast (tl s) | None \<Rightarrow> [])"

definition entry_tree :: "Entry \<Rightarrow> json" where
  "entry_tree e = JObj
     [member ''received_at'' (JStr (time_text (ReceivedAt e))),
      member ''source'' (JStr (json_escape (e_Source e))),
      member ''reason'' (JStr (json_escape (Reason e))), member ''raw'' (JStr (base64 (Raw e)))]"

lemma time_text_json:
  assumes "time_json t = Some b"
  shows "b = quot # time_text t @ [quot]" and "list_all ascii_char (time_text t)"
  using time_json_ascii [OF assms] assms by (auto simp: time_text_def)

lemma marshal_entry_tree: "marshal_entry e = Some b \<Longrightarrow> b = print_json (entry_tree e)"
  by (auto simp: marshal_entry_def entry_tree_def member_def json_key_def json_string_def
      dest: time_text_json(1) split: option.splits)

lemma entry_keys_ascii:
  "list_all ascii_char ''received_at''" "list_all ascii_char ''source''" "list_all ascii_char ''reason''"
  "list_all ascii_char ''raw''"
  by (simp_all add: ascii_char_def plain_char_def)

lemma entry_parse:
  assumes "marshal_entry e = Some b"
  shows "parse b = Some (entry_tree e)"
proof -
  have "list_all ascii_char (time_text (ReceivedAt e))"
    using assms by (auto simp: marshal_entry_def split: option.splits intro: time_text_json)
  moreover have "0 < max_depth" by (simp add: max_depth_def)
  ultimately have "wf_json max_depth (entry_tree e)" "canonical (entry_tree e)"
    using entry_keys_ascii [THEN ascii_str_ok] ascii_str_ok [OF base64_ascii]
    by (simp_all add: entry_tree_def member_def json_escape_ok ascii_str_ok)
  with marshal_entry_tree [OF assms] show ?thesis by (simp add: parse_print)
qed

text \<open>What a tool that inspects the queue makes of a line.\<close>

definition read_line :: "bytes \<Rightarrow> (bytes \<times> bytes \<times> bytes \<times> bytes) option" where
  "read_line l =
     (case unmarshal_map l of
        Inl x \<Rightarrow> None
      | Inr m \<Rightarrow>
          (case (m ''received_at'', m ''source'', m ''reason'', m ''raw'') of
             (Some (A_string t), Some (A_string s), Some (A_string r), Some (A_string b)) \<Rightarrow>
               Some (t, s, r, unbase64 b)
           | _ \<Rightarrow> None))"

lemma entry_read:
  assumes "marshal_entry e = Some b"
  shows "read_line b =
    Some (time_text (ReceivedAt e), to_utf8 (e_Source e), to_utf8 (Reason e), Raw e)"
proof -
  have "list_all ascii_char (time_text (ReceivedAt e))"
    using assms by (auto simp: marshal_entry_def split: option.splits intro: time_text_json)
  then have "unmarshal_map b = Inr [''received_at'' \<mapsto> A_string (time_text (ReceivedAt e)),
      ''source'' \<mapsto> A_string (to_utf8 (e_Source e)), ''reason'' \<mapsto> A_string (to_utf8 (Reason e)),
      ''raw'' \<mapsto> A_string (base64 (Raw e))]"
    using entry_parse [OF assms] entry_keys_ascii [THEN unquote_ascii] unquote_ascii [OF base64_ascii]
    by (simp add: unmarshal_map_def entry_tree_def member_def unquote_json_escape unquote_ascii map_add_def)
  then show ?thesis by (simp add: read_line_def unbase64_base64)
qed

section \<open>Reading the file back\<close>

definition recovered_call :: "push_call \<Rightarrow> bytes \<times> bytes \<times> bytes \<times> bytes" where
  "recovered_call = (\<lambda>(io, source, reason, raw). (time_text (wall io), to_utf8 source, to_utf8 reason, raw))"

text \<open>
  C26: the dead letter file can be read back: whatever was pushed to an open file, as long as the
  writes succeed, decoding the lines behind those that were there already gives, in the order of the
  calls, the time, the source and the reason of every call (with bytes that are not UTF-8 replaced as
  the encoder does) and the raw payload, byte for byte. The file may be new or one an earlier process
  left, if its last line is not torn by a write that failed.
\<close>

theorem dead_letters_recovered:
  assumes "q_file d" and "untorn (q_disk d)" and "\<forall>p \<in> set ps. push_ok p"
  shows "map read_line (file_lines (q_disk (fst (push_all ps d s)))) =
    map read_line (file_lines (q_disk d)) @ map (Some \<circ> recovered_call) ps"
proof -
  have "file_lines (q_disk (fst (push_all ps d s))) = file_lines (q_disk d) @ map json_line ps"
    by (rule push_all_lines [OF assms])
  moreover have "read_line (json_line p) = Some (recovered_call p)" if "p \<in> set ps" for p
  proof -
    from assms(3) that obtain b where "marshal_entry (entry_of p) = Some b"
      using marshal_entry_of [of p] by (auto simp: push_ok_def)
    from entry_read [OF this] this show ?thesis
      by (cases p) (simp add: json_line_def entry_of_def recovered_call_def)
  qed
  ultimately show ?thesis by simp
qed

theorem dead_letters_recovered_witness:
  "map read_line (file_lines (q_disk (fst (push_all
      [(\<lparr>wall = 0, wr = Written, stack = []\<rparr>, ''a'', [newline], [CHR 0xFF])]
      \<lparr>q_cfg = \<lparr>Backend = ''file'', Target = ''t''\<rparr>, q_file = True, q_disk = []\<rparr>
      \<lparr>active = nopProvider, clock = 0, log_lines = []\<rparr>)))) =
    [Some (''1970-01-01T00:00:00Z'', ''a'', [newline], [CHR 0xFF])]"
proof -
  have time: "time_json 0 = Some (quot # ''1970-01-01T00:00:00Z'' @ [quot])" by code_simp
  have utf: "to_utf8 ''a'' = ''a''" "to_utf8 [newline] = [newline]" by code_simp+
  show ?thesis
    by (subst dead_letters_recovered)
      (simp_all add: push_ok_def printable_time_def untorn_def recovered_call_def time_text_def time utf)
qed

end
