(* ===== verification/Chan.thy ===== *)
theory Chan
  imports Prelude
begin

text \<open>
  Go's buffered channel as the dispatcher uses it: a non-blocking send (\<^verbatim>\<open>select\<close> with a
  \<^verbatim>\<open>default\<close>), a receive by \<^verbatim>\<open>range\<close>, and \<^verbatim>\<open>close\<close>. The interface is the locale
  \<open>fifo\<close>, the contract of a bounded first-in first-out queue; what a client may conclude from
  any sequence of sends and receives is proved in the locale, and the channel interprets it.
\<close>

section \<open>The contract of a bounded queue\<close>

datatype 'a queue_op = Send 'a | Recv

locale fifo =
  fixes contents :: "'q \<Rightarrow> 'a list"
    and bound :: "'q \<Rightarrow> nat"
    and send :: "'a \<Rightarrow> 'q \<Rightarrow> 'q option"
    and recv :: "'q \<Rightarrow> ('a \<times> 'q) option"
  assumes send_fails: "send x q = None \<longleftrightarrow> bound q \<le> length (contents q)"
    and send_contents: "send x q = Some q' \<Longrightarrow> contents q' = contents q @ [x] \<and> bound q' = bound q"
    and recv_fails: "recv q = None \<longleftrightarrow> contents q = []"
    and recv_contents: "recv q = Some (x, q') \<Longrightarrow> contents q = x # contents q' \<and> bound q' = bound q"
begin

text \<open>
  \<open>play ops q\<close> performs the operations one after the other: the values that were sent, the
  values that were received, both in order, and the queue at the end. A send that fails and a
  receive from an empty queue change nothing.
\<close>

fun play :: "'a queue_op list \<Rightarrow> 'q \<Rightarrow> 'a list \<times> 'a list \<times> 'q" where
  "play [] q = ([], [], q)"
| "play (Send x # ops) q =
     (case send x q of
        None \<Rightarrow> play ops q
      | Some q' \<Rightarrow> (let (ins, outs, q'') = play ops q' in (x # ins, outs, q'')))"
| "play (Recv # ops) q =
     (case recv q of
        None \<Rightarrow> play ops q
      | Some (x, q') \<Rightarrow> (let (ins, outs, q'') = play ops q' in (ins, x # outs, q'')))"

lemma play_order:
  "fst (snd (play ops q)) @ contents (snd (snd (play ops q))) = contents q @ fst (play ops q)"
proof (induction ops q rule: play.induct)
  case (2 x ops q)
  then show ?case by (cases "send x q") (auto simp: split_beta Let_def dest!: send_contents)
next
  case (3 ops q)
  then show ?case by (cases "recv q") (auto simp: split_beta Let_def dest!: recv_contents)
qed simp

lemma play_bound:
  "length (contents q) \<le> bound q \<Longrightarrow>
   length (contents (snd (snd (play ops q)))) \<le> bound q \<and> bound (snd (snd (play ops q))) = bound q"
proof (induction ops q rule: play.induct)
  case (2 x ops q)
  with send_fails [of x q] show ?case
    by (cases "send x q") (auto simp: split_beta Let_def dest!: send_contents)
next
  case (3 ops q)
  then show ?case by (cases "recv q") (auto simp: split_beta Let_def dest!: recv_contents)
qed simp

end

section \<open>Channels\<close>

record 'a chan =
  chan_cap :: nat
  chan_buf :: "'a list"
  chan_closed :: bool

text \<open>
  \<^verbatim>\<open>make(chan T, n)\<close> panics for a negative size and when header and elements, of \<open>elem\<close> bytes
  each, are beyond the address space of a 64-bit platform.
\<close>

definition chan_fits :: "int \<Rightarrow> int \<Rightarrow> bool" where
  "chan_fits elem n \<longleftrightarrow> 0 \<le> n \<and> n * elem \<le> 2 ^ 48 - 96"

definition make_chan :: "int \<Rightarrow> int \<Rightarrow> 'a chan call" where
  "make_chan elem n =
     (if \<not> chan_fits elem n then Panic ''makechan: size out of range''
      else Ret \<lparr>chan_cap = nat n, chan_buf = [], chan_closed = False\<rparr>)"

text \<open>
  The outcome of \<^verbatim>\<open>select { case c <- x: ... default: ... }\<close>: with a receiver parked on the
  empty channel the value goes to it directly; otherwise it is buffered when there is room.
\<close>

datatype send_outcome = Buffered | Handed_over | Would_block

definition try_send :: "bool \<Rightarrow> 'a \<Rightarrow> 'a chan \<Rightarrow> (send_outcome \<times> 'a chan) call" where
  "try_send parked x c =
     (if chan_closed c then Panic ''send on closed channel''
      else if parked \<and> chan_buf c = [] then Ret (Handed_over, c)
      else if length (chan_buf c) < chan_cap c
        then Ret (Buffered, c\<lparr>chan_buf := chan_buf c @ [x]\<rparr>)
      else Ret (Would_block, c))"

text \<open>The outcome of one round of \<^verbatim>\<open>for x := range c\<close>.\<close>

datatype 'a recv_outcome = Received 'a | Drained | Parked

definition range_recv :: "'a chan \<Rightarrow> 'a recv_outcome \<times> 'a chan" where
  "range_recv c =
     (case chan_buf c of
        x # xs \<Rightarrow> (Received x, c\<lparr>chan_buf := xs\<rparr>)
      | [] \<Rightarrow> (if chan_closed c then (Drained, c) else (Parked, c)))"

definition close_chan :: "'a chan \<Rightarrow> 'a chan call" where
  "close_chan c =
     (if chan_closed c then Panic ''close of closed channel'' else Ret (c\<lparr>chan_closed := True\<rparr>))"

text \<open>The channel as a queue, while it is open and no receiver is parked.\<close>

definition chan_send :: "'a \<Rightarrow> 'a chan \<Rightarrow> 'a chan option" where
  "chan_send x c =
     (case try_send False x (c\<lparr>chan_closed := False\<rparr>) of
        Ret (Buffered, c') \<Rightarrow> Some (c'\<lparr>chan_closed := chan_closed c\<rparr>)
      | _ \<Rightarrow> None)"

definition chan_recv :: "'a chan \<Rightarrow> ('a \<times> 'a chan) option" where
  "chan_recv c = (case range_recv c of (Received x, c') \<Rightarrow> Some (x, c') | _ \<Rightarrow> None)"

lemma chan_send_eq:
  "chan_send x c =
     (if length (chan_buf c) < chan_cap c then Some (c\<lparr>chan_buf := chan_buf c @ [x]\<rparr>) else None)"
  by (simp add: chan_send_def try_send_def)

lemma chan_recv_eq:
  "chan_recv c = (case chan_buf c of [] \<Rightarrow> None | x # xs \<Rightarrow> Some (x, c\<lparr>chan_buf := xs\<rparr>))"
  by (simp add: chan_recv_def range_recv_def split: list.split)

interpretation chan_q: fifo chan_buf chan_cap chan_send chan_recv
  by unfold_locales (auto simp: chan_send_eq chan_recv_eq split: if_splits list.splits)

end
