(* ===== verification/Dispatcher.thy ===== *)
theory Dispatcher
  imports Chan Middleware Batcher Dlq
begin

text \<open>
  Package \<^verbatim>\<open>internal/dispatcher\<close>: the bounded channel, \<^verbatim>\<open>Submit\<close>, and what a worker does
  with one payload. The state the pipeline stages share (process state, batcher, dead letter
  queue) is the record \<open>shared\<close>. A worker is given twice: \<open>processOne\<close> is the method as one
  goroutine runs it, and \<open>worker_step\<close> the same method cut at every access to shared state,
  with the program counter \<open>pc\<close>; the two agree. Theory \<open>Workers\<close> interleaves the steps.
\<close>

section \<open>Payloads and shared state\<close>

record Payload =
  p_Source :: bytes
  p_Data :: bytes

record 'z shared =
  penv :: "'z env_scheme"
  batcher :: Batcher
  dlq :: DLQ_state

definition new_result :: "Payload \<Rightarrow> Result" where
  "new_result p = \<lparr>Source = p_Source p, Data = p_Data p, Errors = []\<rparr>"

definition rejection :: "Payload \<Rightarrow> error \<Rightarrow> error" where
  "rejection p e = xl_New StageValidation CodeValidation (p_Source p) (Some e)"

definition panic_error :: "Payload \<Rightarrow> bytes \<Rightarrow> error" where
  "panic_error p m = xl_New StageDispatch CodePanic (p_Source p) (Some (Errorf [Lit m] None))"

definition panic_log :: "error \<Rightarrow> bytes \<Rightarrow> msg" where
  "panic_log pe trace =
     [Lit ''[dispatcher] worker panic recovered: ''] @ err_text pe @ [Lit [newline], Lit trace]"

section \<open>One payload, one goroutine\<close>

text \<open>
  An operation of the shared environment run inside a method: a panic stops the method. Each
  operation is a function on \<open>'z env_scheme\<close>.
\<close>

definition on_env :: "('z env_scheme \<Rightarrow> 'a call \<times> 'z env_scheme) \<Rightarrow> 'z shared \<Rightarrow> 'a call \<times> 'z shared" where
  "on_env f s = (let (out, e) = f (penv s) in (out, s\<lparr>penv := e\<rparr>))"

definition push_dead :: "fmt_env \<Rightarrow> io \<Rightarrow> Payload \<Rightarrow> msg \<Rightarrow> 'z shared \<Rightarrow> 'z shared" where
  "push_dead fe io p reason s =
     (let (d, e) = Push io (p_Source p) (render fe reason) (p_Data p) (dlq s) (penv s)
      in s\<lparr>dlq := d, penv := e\<rparr>)"

text \<open>The deferred function, once \<^verbatim>\<open>recover\<close> has returned a panic; its own panic would escape.\<close>

definition recovered :: "fmt_env \<Rightarrow> io \<Rightarrow> Payload \<Rightarrow> bytes \<Rightarrow> 'z shared \<Rightarrow> unit call \<times> 'z shared" where
  "recovered fe io p m s =
     (let pe = panic_error p m;
          s1 = s\<lparr>penv := log_Printf (panic_log pe (stack io)) (penv s)\<rparr>
      in case on_env RecordPanicRecovered s1 of
           (Panic x, s2) \<Rightarrow> (Panic x, s2)
         | (Ret _, s2) \<Rightarrow>
             (case on_env RecordDLQEnqueued s2 of
                (Panic x, s3) \<Rightarrow> (Panic x, s3)
              | (Ret _, s3) \<Rightarrow> (Ret (), push_dead fe io p (err_text pe) s3)))"

text \<open>The branch for a payload the chain rejects.\<close>

definition rejected :: "fmt_env \<Rightarrow> io \<Rightarrow> Payload \<Rightarrow> error \<Rightarrow> 'z shared \<Rightarrow> unit call \<times> 'z shared" where
  "rejected fe io p e s =
     (case on_env (RecordEventRejected (p_Source p) CodeValidation) s of
        (Panic x, s1) \<Rightarrow> (Panic x, s1)
      | (Ret _, s1) \<Rightarrow>
          (case on_env RecordDLQEnqueued s1 of
             (Panic x, s2) \<Rightarrow> (Panic x, s2)
           | (Ret _, s2) \<Rightarrow> (Ret (), push_dead fe io p (err_text (rejection p e)) s2)))"

definition add_batch :: "Payload \<Rightarrow> 'z shared \<Rightarrow> 'z shared" where
  "add_batch p s = s\<lparr>batcher := snd (Add (p_Data p) (batcher s))\<rparr>"

text \<open>The body of \<^verbatim>\<open>processOne\<close>, with the number of payloads waiting in the channel.\<close>

definition process_body ::
  "fmt_env \<Rightarrow> io \<Rightarrow> int \<Rightarrow> 'z Chain \<Rightarrow> Payload \<Rightarrow> 'z shared \<Rightarrow> unit call \<times> 'z shared" where
  "process_body fe io depth c p s =
     (case on_env (ObserveWorkerPoolDepth depth) s of
        (Panic x, s1) \<Rightarrow> (Panic x, s1)
      | (Ret _, s1) \<Rightarrow>
          (let (out, _, e) = Run c (new_result p) (penv s1); s2 = s1\<lparr>penv := e\<rparr>
           in case out of
                Panic x \<Rightarrow> (Panic x, s2)
              | Ret (Some err) \<Rightarrow> rejected fe io p err s2
              | Ret None \<Rightarrow> (Ret (), add_batch p s2)))"

definition processOne ::
  "fmt_env \<Rightarrow> io \<Rightarrow> int \<Rightarrow> 'z Chain \<Rightarrow> Payload \<Rightarrow> 'z shared \<Rightarrow> unit call \<times> 'z shared" where
  "processOne fe io depth c p s =
     (case process_body fe io depth c p s of
        (Ret _, s') \<Rightarrow> (Ret (), s')
      | (Panic m, s') \<Rightarrow> recovered fe io p m s')"

section \<open>The worker as a machine\<close>

datatype 'z pc =
    is_Ready: Ready
  | Observing Payload
  | Chaining Payload "'z handler list" Result
  | Rejecting Payload error
  | Counting bool Payload msg       \<comment> \<open>the flag: inside the deferred function\<close>
  | is_Pushing: Pushing Payload msg
  | Recovering Payload bytes
  | Panic_counting Payload msg
  | Adding Payload
  | is_Flushing: Flushing
  | is_Exited: Exited
  | is_Crashed: Crashed bytes

datatype dlabel =
    Accept Payload | Refuse Payload | Batched Payload | Dead Payload | Flushed "bytes list" | Tau

text \<open>Going on after an operation on the environment: normally, or with its panic.\<close>

definition cont_env ::
  "('z env_scheme \<Rightarrow> unit call \<times> 'z env_scheme) \<Rightarrow> 'z pc \<Rightarrow> (bytes \<Rightarrow> 'z pc) \<Rightarrow> 'z shared
   \<Rightarrow> 'z pc \<times> 'z shared \<times> dlabel" where
  "cont_env f next_pc panicked s =
     (case on_env f s of (Ret _, s') \<Rightarrow> (next_pc, s', Tau) | (Panic m, s') \<Rightarrow> (panicked m, s', Tau))"

fun worker_step ::
  "fmt_env \<Rightarrow> io \<Rightarrow> int \<Rightarrow> 'z Chain \<Rightarrow> 'z pc \<Rightarrow> 'z shared \<Rightarrow> 'z pc \<times> 'z shared \<times> dlabel" where
  "worker_step fe io depth c (Observing p) s =
     cont_env (ObserveWorkerPoolDepth depth) (Chaining p (handlers c) (new_result p)) (Recovering p) s"
| "worker_step fe io depth c (Chaining p (h # hs) r) s =
     (let (out, r', e) = h r (penv s); s' = s\<lparr>penv := e\<rparr>
      in (case out of
            Ret None \<Rightarrow> Chaining p hs r'
          | Ret (Some err) \<Rightarrow> Rejecting p err
          | Panic m \<Rightarrow> Recovering p m, s', Tau))"
| "worker_step fe io depth c (Chaining p [] r) s = (Adding p, s, Tau)"
| "worker_step fe io depth c (Rejecting p err) s =
     cont_env (RecordEventRejected (p_Source p) CodeValidation)
       (Counting False p (err_text (rejection p err))) (Recovering p) s"
| "worker_step fe io depth c (Counting deferred p reason) s =
     cont_env RecordDLQEnqueued (Pushing p reason) (if deferred then Crashed else Recovering p) s"
| "worker_step fe io depth c (Pushing p reason) s = (Ready, push_dead fe io p reason s, Dead p)"
| "worker_step fe io depth c (Recovering p m) s =
     (let pe = panic_error p m
      in (Panic_counting p (err_text pe),
          s\<lparr>penv := log_Printf (panic_log pe (stack io)) (penv s)\<rparr>, Tau))"
| "worker_step fe io depth c (Panic_counting p reason) s =
     cont_env RecordPanicRecovered (Counting True p reason) Crashed s"
| "worker_step fe io depth c (Adding p) s =
     (let (full, b) = add_locked (p_Data p) (batcher s)
      in (if full then Flushing else Ready, s\<lparr>batcher := b\<rparr>, Batched p))"
| "worker_step fe io depth c Flushing s =
     (case flush_locked (batcher s) of
        (None, b) \<Rightarrow> (Ready, s\<lparr>batcher := b\<rparr>, Tau)
      | (Some batch, b) \<Rightarrow> (Ready, s\<lparr>batcher := b\<rparr>, Flushed batch))"
| "worker_step fe io depth c Ready s = (Ready, s, Tau)"
| "worker_step fe io depth c Exited s = (Exited, s, Tau)"
| "worker_step fe io depth c (Crashed m) s = (Crashed m, s, Tau)"

text \<open>A worker between two receives of the channel.\<close>

fun busy :: "'z pc \<Rightarrow> bool" where
  "busy Ready = False" | "busy Exited = False" | "busy (Crashed m) = False" | "busy _ = True"

text \<open>How many steps a worker needs at most until it is ready again.\<close>

fun pc_weight :: "nat \<Rightarrow> 'z pc \<Rightarrow> nat" where
  "pc_weight n Ready = 1"
| "pc_weight n (Observing p) = n + 9"
| "pc_weight n (Chaining p hs r) = length hs + 8"
| "pc_weight n (Rejecting p e) = 7"
| "pc_weight n (Recovering p m) = 5"
| "pc_weight n (Panic_counting p r) = 4"
| "pc_weight n (Counting deferred p r) = (if deferred then 3 else 6)"
| "pc_weight n (Pushing p r) = 2"
| "pc_weight n (Adding p) = 3"
| "pc_weight n Flushing = 2"
| "pc_weight n Exited = 0"
| "pc_weight n (Crashed m) = 0"

section \<open>Counting calls never panic\<close>

text \<open>
  The unlabelled metrics calls are safe (the interpretations of \<open>safe_metric_call\<close> in theory
  \<open>Metrics\<close>), so the deferred function runs to its end and no panic leaves a worker.
\<close>

lemma on_env_safe:
  "fst (f (penv s)) = Ret () \<Longrightarrow> on_env f s = (Ret (), s\<lparr>penv := snd (f (penv s))\<rparr>)"
  by (simp add: on_env_def split_beta)

lemmas on_env_counting [step_simps] =
  on_env_safe [of RecordDLQEnqueued, OF m_dlq.emit_returns]
  on_env_safe [of RecordPanicRecovered, OF m_panic.emit_returns]
  on_env_safe [of "ObserveWorkerPoolDepth n" for n, OF m_depth.emit_returns]

lemma cont_env_counting [step_simps]:
  "cont_env RecordDLQEnqueued q k s = (q, s\<lparr>penv := snd (RecordDLQEnqueued (penv s))\<rparr>, Tau)"
  "cont_env RecordPanicRecovered q k s = (q, s\<lparr>penv := snd (RecordPanicRecovered (penv s))\<rparr>, Tau)"
  "cont_env (ObserveWorkerPoolDepth n) q k s =
     (q, s\<lparr>penv := snd (ObserveWorkerPoolDepth n (penv s))\<rparr>, Tau)"
  by (simp_all add: cont_env_def step_simps)

lemma recovered_eq:
  "recovered fe io p m s =
     (Ret (), push_dead fe io p (err_text (panic_error p m))
       (s\<lparr>penv := snd (RecordDLQEnqueued (snd (RecordPanicRecovered
          (log_Printf (panic_log (panic_error p m) (stack io)) (penv s)))))\<rparr>))"
  by (simp add: recovered_def Let_def step_simps)

lemma rejected_cases:
  obtains "rejected fe io p e s =
      (Ret (), push_dead fe io p (err_text (rejection p e))
        (s\<lparr>penv := snd (RecordDLQEnqueued (snd (RecordEventRejected (p_Source p) CodeValidation (penv s))))\<rparr>))"
      "fst (RecordEventRejected (p_Source p) CodeValidation (penv s)) = Ret ()"
  | m where "rejected fe io p e s =
      (Panic m, s\<lparr>penv := snd (RecordEventRejected (p_Source p) CodeValidation (penv s))\<rparr>)"
      "fst (RecordEventRejected (p_Source p) CodeValidation (penv s)) = Panic m"
proof (cases "fst (RecordEventRejected (p_Source p) CodeValidation (penv s))")
  case (Ret u)
  then show ?thesis
    by (intro that(1)) (simp_all add: rejected_def on_env_safe m_dlq.emit_returns)
next
  case (Panic m)
  then show ?thesis by (intro that(2)) (simp_all add: rejected_def on_env_def split_beta)
qed

lemma metric_dlq_log [simp]: "metric f (log_Printf m e) = metric f e"
  by (simp add: metric_def log_Printf_def)

section \<open>What processing one payload does\<close>

text \<open>
  \<open>dead_by out p e2 reason\<close>: the reason a payload is dead-lettered with, given how its
  chain ended: the wrapped error of the handler, or the wrapped panic, where the panic may also be
  the one of the metrics client refusing the label of the source.
\<close>

definition dead_by :: "error option call \<Rightarrow> Payload \<Rightarrow> 'z env_scheme \<Rightarrow> msg \<Rightarrow> bool" where
  "dead_by out p e reason \<longleftrightarrow>
     (case out of
        Panic m \<Rightarrow> reason = err_text (panic_error p m)
      | Ret None \<Rightarrow> False
      | Ret (Some err) \<Rightarrow>
          (case fst (RecordEventRejected (p_Source p) CodeValidation e) of
             Ret _ \<Rightarrow> reason = err_text (rejection p err)
           | Panic m \<Rightarrow> reason = err_text (panic_error p m)))"

lemma processOne_recovers:
  "\<exists>e3. snd (recovered fe io p m (s\<lparr>penv := e2\<rparr>)) =
      push_dead fe io p (err_text (panic_error p m)) (s\<lparr>penv := e3\<rparr>) \<and>
     metric dlqEnqueued e3 = map_option Suc (metric dlqEnqueued e2)"
  by (rule exI [where x = "snd (RecordDLQEnqueued (snd (RecordPanicRecovered
          (log_Printf (panic_log (panic_error p m) (stack io)) e2))))"]) (simp add: recovered_eq)

text \<open>
  C9: whatever the handlers do, \<^verbatim>\<open>processOne\<close> returns: a panic never leaves the worker. The
  payload ends in exactly one place: in the batcher when the chain lets it through; otherwise in
  the dead letter queue with its own source and bytes, under the reason that matches how the chain
  ended, after the counter of dead letters was raised by one. The batcher is left alone then, and
  the queue in the other case.
\<close>

theorem processOne_outcome:
  "let e1 = snd (ObserveWorkerPoolDepth depth (penv s));
       (out, _, e2) = Run c (new_result p) e1;
       (res, s') = processOne fe io depth c p s
   in res = Ret () \<and>
      (if out = Ret None then s' = add_batch p (s\<lparr>penv := e2\<rparr>)
       else \<exists>reason e3. dead_by out p e2 reason \<and>
         metric dlqEnqueued e3 = map_option Suc (metric dlqEnqueued e2) \<and>
         s' = push_dead fe io p reason (s\<lparr>penv := e3\<rparr>))"
proof -
  let ?e1 = "snd (ObserveWorkerPoolDepth depth (penv s))"
  obtain out r e2 where run: "Run c (new_result p) ?e1 = (out, r, e2)"
    by (cases "Run c (new_result p) ?e1")
  let ?s2 = "s\<lparr>penv := e2\<rparr>"
  show ?thesis
  proof (cases out)
    case (Panic m)
    with run have "processOne fe io depth c p s = recovered fe io p m ?s2"
      by (simp add: processOne_def process_body_def step_simps Let_def)
    with processOne_recovers [of fe io p m e2 s] run Panic show ?thesis
      by (auto simp: recovered_eq dead_by_def Let_def)
  next
    case (Ret o')
    show ?thesis
    proof (cases o')
      case None
      with run Ret show ?thesis by (simp add: processOne_def process_body_def step_simps Let_def)
    next
      case (Some err)
      have body: "process_body fe io depth c p s = rejected fe io p err ?s2"
        using run Ret Some by (simp add: process_body_def step_simps Let_def)
      show ?thesis
      proof (cases rule: rejected_cases [of fe io p err ?s2])
        case 1
        with body run Ret Some show ?thesis
          by (auto simp: processOne_def dead_by_def Let_def intro!: exI)
      next
        case (2 m)
        let ?e = "snd (RecordEventRejected (p_Source p) CodeValidation e2)"
        have "processOne fe io depth c p s = recovered fe io p m (s\<lparr>penv := ?e\<rparr>)"
          using 2 body by (simp add: processOne_def)
        with processOne_recovers [of fe io p m ?e s] run Ret Some 2 show ?thesis
          by (auto simp: recovered_eq dead_by_def Let_def)
      qed
    qed
  qed
qed

section \<open>The machine agrees with the method\<close>

text \<open>What a worker left alone at a program counter will have done to the shared state.\<close>

fun finish :: "fmt_env \<Rightarrow> io \<Rightarrow> int \<Rightarrow> 'z Chain \<Rightarrow> 'z pc \<Rightarrow> 'z shared \<Rightarrow> 'z shared" where
  "finish fe io depth c (Observing p) s = snd (processOne fe io depth c p s)"
| "finish fe io depth c (Chaining p hs r) s =
     (let (out, _, e) = run_handlers hs r (penv s); s2 = s\<lparr>penv := e\<rparr>
      in case out of
           Panic m \<Rightarrow> snd (recovered fe io p m s2)
         | Ret None \<Rightarrow> add_batch p s2
         | Ret (Some err) \<Rightarrow>
             (case rejected fe io p err s2 of
                (Ret _, s3) \<Rightarrow> s3 | (Panic m, s3) \<Rightarrow> snd (recovered fe io p m s3)))"
| "finish fe io depth c (Rejecting p err) s =
     (case rejected fe io p err s of
        (Ret _, s') \<Rightarrow> s' | (Panic m, s') \<Rightarrow> snd (recovered fe io p m s'))"
| "finish fe io depth c (Counting deferred p reason) s =
     push_dead fe io p reason (s\<lparr>penv := snd (RecordDLQEnqueued (penv s))\<rparr>)"
| "finish fe io depth c (Pushing p reason) s = push_dead fe io p reason s"
| "finish fe io depth c (Recovering p m) s = snd (recovered fe io p m s)"
| "finish fe io depth c (Panic_counting p reason) s =
     push_dead fe io p reason
       (s\<lparr>penv := snd (RecordDLQEnqueued (snd (RecordPanicRecovered (penv s))))\<rparr>)"
| "finish fe io depth c (Adding p) s = add_batch p s"
| "finish fe io depth c Flushing s = s\<lparr>batcher := snd (Flush (batcher s))\<rparr>"
| "finish fe io depth c pc s = s"

lemma cont_env_cases:
  obtains "cont_env f q k s = (q, s\<lparr>penv := snd (f (penv s))\<rparr>, Tau)" "fst (f (penv s)) = Ret ()"
  | m where "cont_env f q k s = (k m, s\<lparr>penv := snd (f (penv s))\<rparr>, Tau)" "fst (f (penv s)) = Panic m"
  by (cases "fst (f (penv s))") (auto simp: cont_env_def on_env_def split_beta)

lemma finish_step:
  "busy pc \<Longrightarrow> finish fe io depth c (fst (worker_step fe io depth c pc s))
      (fst (snd (worker_step fe io depth c pc s))) = finish fe io depth c pc s"
proof (cases "(fe, io, depth, c, pc, s)" rule: worker_step.cases)
  case (1 fe' io' depth' c' p s')
  then show ?thesis
    by (simp add: processOne_def process_body_def Run_def step_simps Let_def split_beta
        split: call.split option.split)
next
  case (2 fe' io' depth' c' p h hs r s')
  then show ?thesis by (simp add: Let_def split_beta split: call.split option.split)
next
  case (4 fe' io' depth' c' p err s')
  then show ?thesis
    by (cases rule: cont_env_cases [of "RecordEventRejected (p_Source p) CodeValidation"
          "Counting False p (err_text (rejection p err))" "Recovering p" s'];
        cases rule: rejected_cases [of fe' io' p err s']) simp_all
next
  case (9 fe' io' depth' c' p s')
  then show ?thesis
    by (simp add: add_batch_def Add_def split_beta Let_def)
next
  case (10 fe' io' depth' c' s')
  then show ?thesis by (simp add: Flush_def split: option.split prod.split)
qed (simp_all add: step_simps recovered_eq Let_def)

lemma worker_step_weight:
  "busy pc \<Longrightarrow> length (handlers c) \<le> n \<Longrightarrow>
     pc_weight n (fst (worker_step fe io depth c pc s)) < pc_weight n pc \<and>
     \<not> is_Exited (fst (worker_step fe io depth c pc s)) \<and>
     \<not> is_Crashed (fst (worker_step fe io depth c pc s))"
proof (cases "(fe, io, depth, c, pc, s)" rule: worker_step.cases)
  case (4 fe' io' depth' c' p err s')
  then show ?thesis
    by (cases rule: cont_env_cases [of "RecordEventRejected (p_Source p) CodeValidation"
          "Counting False p (err_text (rejection p err))" "Recovering p" s']) simp_all
qed (auto simp: step_simps Let_def split: call.split option.split prod.split)

text \<open>\<open>solo n\<close>: up to \<open>n\<close> steps of a worker nobody interferes with.\<close>

fun solo ::
  "nat \<Rightarrow> fmt_env \<Rightarrow> io \<Rightarrow> int \<Rightarrow> 'z Chain \<Rightarrow> 'z pc \<Rightarrow> 'z shared \<Rightarrow> 'z pc \<times> 'z shared" where
  "solo 0 fe io depth c pc s = (pc, s)"
| "solo (Suc n) fe io depth c pc s =
     (if busy pc then let (pc', s', _) = worker_step fe io depth c pc s in solo n fe io depth c pc' s'
      else (pc, s))"

lemma solo_finish:
  "busy pc \<Longrightarrow> length (handlers c) \<le> w \<Longrightarrow> pc_weight w pc \<le> n \<Longrightarrow>
   solo n fe io depth c pc s = (Ready, finish fe io depth c pc s)"
proof (induction n arbitrary: pc s)
  case 0
  then show ?case using worker_step_weight [of pc c w fe io depth s] by simp
next
  case (Suc n)
  obtain pc' s' l where step: "worker_step fe io depth c pc s = (pc', s', l)"
    by (cases "worker_step fe io depth c pc s")
  have w: "pc_weight w pc' < pc_weight w pc" "\<not> is_Exited pc'" "\<not> is_Crashed pc'"
    using worker_step_weight [OF Suc.prems(1,2), of fe io depth s] step by auto
  have fin: "finish fe io depth c pc' s' = finish fe io depth c pc s"
    using finish_step [OF Suc.prems(1), of fe io depth c s] step by simp
  show ?case
  proof (cases "busy pc'")
    case True
    with Suc.IH [of pc' s'] w fin step Suc.prems show ?thesis by simp
  next
    case False
    then have "pc' = Ready" using w by (cases pc') auto
    with fin step Suc.prems(1) show ?thesis by (cases n) auto
  qed
qed

text \<open>
  C12: a worker nobody interferes with does exactly what the method does: within a number of
  steps that depends only on the length of the chain it is ready for the next payload, and the
  shared state is the one \<^verbatim>\<open>processOne\<close> leaves.
\<close>

theorem worker_implements_processOne:
  "solo (length (handlers c) + 9) fe io depth c (Observing p) s =
     (Ready, snd (processOne fe io depth c p s))"
  by (simp add: solo_finish [where w = "length (handlers c)"])

end
