(* ===== verification/Workers.thy ===== *)
theory Workers
  imports Dispatcher Ratelimit "HOL-Library.Sublist"
begin

text \<open>
  The dispatcher as a concurrent program: \<open>dispatcher_New\<close> with its workers, \<open>Submit\<close>,
  \<open>Shutdown\<close>'s close of the channel, and the relation \<open>dstep\<close> that interleaves the steps of
  the workers, of the callers of \<^verbatim>\<open>Submit\<close> and of everything else that touches the process
  state. The invariants of reachable states, what has become of every accepted payload, and the
  drain after the close.
\<close>

section \<open>State\<close>

record 'z disp =
  d_cfg :: DispatcherConfig
  d_chain :: "'z Chain"
  buf :: "Payload chan"
  wg :: nat                      \<comment> \<open>the counter of the wait group\<close>
  procs :: "'z pc list"          \<comment> \<open>the worker goroutines\<close>
  observers :: nat               \<comment> \<open>callers of \<^verbatim>\<open>Submit\<close> about to observe the depth\<close>
  sh :: "'z shared"

text \<open>A \<^verbatim>\<open>Payload\<close> is a string header of two words and a slice header of three.\<close>

definition payload_bytes :: int where
  "payload_bytes = 40"

definition dispatcher_New ::
  "DispatcherConfig \<Rightarrow> 'z Chain \<Rightarrow> Batcher \<Rightarrow> DLQ_state \<Rightarrow> 'z env_scheme \<Rightarrow> 'z disp call" where
  "dispatcher_New cfg c bat q e =
     (case make_chan payload_bytes (BufferSize cfg) of
        Panic m \<Rightarrow> Panic m
      | Ret ch \<Rightarrow> Ret \<lparr>d_cfg = cfg, d_chain = c, buf = ch, wg = nat (Workers cfg),
          procs = replicate (nat (Workers cfg)) Ready, observers = 0,
          sh = \<lparr>penv = e, batcher = bat, dlq = q\<rparr>\<rparr>)"

definition depth :: "'z disp \<Rightarrow> int" where
  "depth d = int (length (chan_buf (buf d)))"

section \<open>Submit\<close>

text \<open>
  The \<^verbatim>\<open>select\<close>: \<open>parked = Some i\<close> when worker \<open>i\<close> is the receiver parked on the empty
  channel, which takes the payload directly. The observation of the depth is a second step.
\<close>

definition submit_send :: "nat option \<Rightarrow> Payload \<Rightarrow> 'z disp \<Rightarrow> bool call \<times> 'z disp" where
  "submit_send parked p d =
     (case try_send (parked \<noteq> None) p (buf d) of
        Panic m \<Rightarrow> (Panic m, d)
      | Ret (Would_block, ch) \<Rightarrow> (Ret False, d)
      | Ret (Buffered, ch) \<Rightarrow> (Ret True, d\<lparr>buf := ch, observers := Suc (observers d)\<rparr>)
      | Ret (Handed_over, ch) \<Rightarrow>
          (Ret True, d\<lparr>procs := (procs d)[the parked := Observing p],
                       observers := Suc (observers d)\<rparr>))"

definition submit_observe :: "'z disp \<Rightarrow> unit call \<times> 'z disp" where
  "submit_observe d =
     (let (out, s) = on_env (ObserveWorkerPoolDepth (depth d)) (sh d)
      in (out, d\<lparr>sh := s, observers := observers d - 1\<rparr>))"

definition Submit :: "nat option \<Rightarrow> Payload \<Rightarrow> 'z disp \<Rightarrow> bool call \<times> 'z disp" where
  "Submit parked p d =
     (case submit_send parked p d of
        (Ret True, d1) \<Rightarrow>
          (case submit_observe d1 of (Ret _, d2) \<Rightarrow> (Ret True, d2) | (Panic m, d2) \<Rightarrow> (Panic m, d2))
      | out \<Rightarrow> out)"

text \<open>Which workers can be parked: ready ones, while the channel is empty.\<close>

definition parked_ok :: "nat option \<Rightarrow> 'z disp \<Rightarrow> bool" where
  "parked_ok parked d \<longleftrightarrow>
     (case parked of None \<Rightarrow> True
      | Some i \<Rightarrow> i < length (procs d) \<and> is_Ready (procs d ! i) \<and> chan_buf (buf d) = [])"

text \<open>\<^verbatim>\<open>Shutdown\<close> closes the channel, then waits until the wait group is at zero.\<close>

definition shutdown_close :: "'z disp \<Rightarrow> unit call \<times> 'z disp" where
  "shutdown_close d =
     (case close_chan (buf d) of Panic m \<Rightarrow> (Panic m, d) | Ret ch \<Rightarrow> (Ret (), d\<lparr>buf := ch\<rparr>))"

definition shutdown_returns :: "'z disp \<Rightarrow> bool" where
  "shutdown_returns d \<longleftrightarrow> chan_closed (buf d) \<and> wg d = 0"

section \<open>The steps of a worker\<close>

text \<open>
  One step of worker \<open>i\<close>: a receive when it is ready (\<open>None\<close> when it would wait), the end
  of the goroutine on a closed and drained channel, or a step of \<^verbatim>\<open>processOne\<close>.
\<close>

definition worker_move :: "fmt_env \<Rightarrow> io \<Rightarrow> nat \<Rightarrow> 'z disp \<Rightarrow> (dlabel \<times> 'z disp) option" where
  "worker_move fe io i d =
     (let pc = procs d ! i in
      if is_Ready pc then
        (case range_recv (buf d) of
           (Received p, ch) \<Rightarrow> Some (Tau, d\<lparr>buf := ch, procs := (procs d)[i := Observing p]\<rparr>)
         | (Drained, ch) \<Rightarrow> Some (Tau, d\<lparr>wg := wg d - 1, procs := (procs d)[i := Exited]\<rparr>)
         | (Parked, ch) \<Rightarrow> None)
      else if busy pc then
        (let (pc', s', l) = worker_step fe io (depth d) (d_chain d) pc (sh d)
         in Some (l, d\<lparr>procs := (procs d)[i := pc'], sh := s'\<rparr>))
      else None)"

inductive wstep :: "fmt_env \<Rightarrow> 'z disp \<Rightarrow> dlabel \<Rightarrow> 'z disp \<Rightarrow> bool" for fe where
  wmove: "i < length (procs d) \<Longrightarrow> worker_move fe io i d = Some (l, d') \<Longrightarrow> wstep fe d l d'"

text \<open>
  All steps. \<open>ambient\<close> stands for the rest of the process: time passes, other goroutines log
  and count; they do not count dead letters.
\<close>

inductive dstep :: "fmt_env \<Rightarrow> 'z disp \<Rightarrow> dlabel \<Rightarrow> 'z disp \<Rightarrow> bool" for fe where
  accept: "parked_ok parked d \<Longrightarrow> submit_send parked p d = (Ret True, d') \<Longrightarrow> dstep fe d (Accept p) d'"
| refuse: "submit_send None p d = (Ret False, d') \<Longrightarrow> dstep fe d (Refuse p) d'"
| observe: "0 < observers d \<Longrightarrow> submit_observe d = (out, d') \<Longrightarrow> dstep fe d Tau d'"
| work: "wstep fe d l d' \<Longrightarrow> dstep fe d l d'"
| shut: "shutdown_close d = (Ret (), d') \<Longrightarrow> dstep fe d Tau d'"
| ambient: "metric dlqEnqueued e = metric dlqEnqueued (penv (sh d)) \<Longrightarrow>
     dstep fe d Tau (d\<lparr>sh := (sh d)\<lparr>penv := e\<rparr>\<rparr>)"

inductive druns :: "fmt_env \<Rightarrow> 'z disp \<Rightarrow> dlabel list \<Rightarrow> 'z disp \<Rightarrow> bool" for fe d where
  druns_nil: "druns fe d [] d"
| druns_snoc: "druns fe d tr d' \<Longrightarrow> dstep fe d' l d'' \<Longrightarrow> druns fe d (tr @ [l]) d''"

text \<open>The steps with their effects spelled out, which is what the proofs use.\<close>

lemma submit_send_True:
  "submit_send parked p d = (Ret True, d') \<longleftrightarrow>
     \<not> chan_closed (buf d) \<and>
     (if parked \<noteq> None \<and> chan_buf (buf d) = []
      then d' = d\<lparr>procs := (procs d)[the parked := Observing p], observers := Suc (observers d)\<rparr>
      else length (chan_buf (buf d)) < chan_cap (buf d) \<and>
        d' = d\<lparr>buf := (buf d)\<lparr>chan_buf := chan_buf (buf d) @ [p]\<rparr>, observers := Suc (observers d)\<rparr>)"
  by (auto simp: submit_send_def try_send_def)

lemma submit_send_False:
  "submit_send parked p d = (Ret False, d') \<longleftrightarrow>
     \<not> chan_closed (buf d) \<and> \<not> (parked \<noteq> None \<and> chan_buf (buf d) = []) \<and>
     chan_cap (buf d) \<le> length (chan_buf (buf d)) \<and> d' = d"
  by (auto simp: submit_send_def try_send_def)

lemma shutdown_close_Ret:
  "shutdown_close d = (Ret u, d') \<longleftrightarrow>
     \<not> chan_closed (buf d) \<and> d' = d\<lparr>buf := (buf d)\<lparr>chan_closed := True\<rparr>\<rparr>"
  by (auto simp: shutdown_close_def close_chan_def)

lemma submit_observe_eq:
  "submit_observe d = (Ret (), d\<lparr>sh := (sh d)\<lparr>penv := snd (ObserveWorkerPoolDepth (depth d) (penv (sh d)))\<rparr>,
     observers := observers d - 1\<rparr>)"
  by (simp add: submit_observe_def step_simps)

lemma worker_move_cases:
  assumes "worker_move fe io i d = Some (l, d')"
  obtains
    (take) p ps where "is_Ready (procs d ! i)" "chan_buf (buf d) = p # ps" "l = Tau"
      "d' = d\<lparr>buf := (buf d)\<lparr>chan_buf := ps\<rparr>, procs := (procs d)[i := Observing p]\<rparr>"
  | (exit) "is_Ready (procs d ! i)" "chan_buf (buf d) = []" "chan_closed (buf d)" "l = Tau"
      "d' = d\<lparr>wg := wg d - 1, procs := (procs d)[i := Exited]\<rparr>"
  | (step) pc' s' where "busy (procs d ! i)"
      "worker_step fe io (depth d) (d_chain d) (procs d ! i) (sh d) = (pc', s', l)"
      "d' = d\<lparr>procs := (procs d)[i := pc'], sh := s'\<rparr>"
  using assms
  by (auto simp: worker_move_def range_recv_def Let_def split: if_splits list.splits prod.splits)

inductive_cases wstepE: "wstep fe d l d'"
inductive_cases dstepE: "dstep fe d l d'"

section \<open>What becomes of a payload\<close>

text \<open>The payloads a step accepts, and those it settles: batched or dead-lettered.\<close>

fun accepted1 :: "dlabel \<Rightarrow> Payload list" where
  "accepted1 (Accept p) = [p]" | "accepted1 _ = []"

fun batched1 :: "dlabel \<Rightarrow> Payload list" where
  "batched1 (Batched p) = [p]" | "batched1 _ = []"

fun dead1 :: "dlabel \<Rightarrow> Payload list" where
  "dead1 (Dead p) = [p]" | "dead1 _ = []"

fun flushed1 :: "dlabel \<Rightarrow> bytes list" where
  "flushed1 (Flushed batch) = batch" | "flushed1 _ = []"

definition settled1 :: "dlabel \<Rightarrow> Payload list" where
  "settled1 l = batched1 l @ dead1 l"

abbreviation "accepted tr \<equiv> concat (map accepted1 tr)"
abbreviation "batched tr \<equiv> concat (map batched1 tr)"
abbreviation "dead tr \<equiv> concat (map dead1 tr)"
abbreviation "flushed tr \<equiv> concat (map flushed1 tr)"
abbreviation "settled tr \<equiv> concat (map settled1 tr)"

lemma settled_mset: "mset (settled tr) = mset (batched tr) + mset (dead tr)"
  by (induction tr) (auto simp: settled1_def)

fun held :: "'z pc \<Rightarrow> Payload list" where
  "held (Observing p) = [p]" | "held (Chaining p hs r) = [p]" | "held (Rejecting p e) = [p]"
| "held (Counting f p r) = [p]" | "held (Pushing p r) = [p]" | "held (Recovering p m) = [p]"
| "held (Panic_counting p r) = [p]" | "held (Adding p) = [p]" | "held _ = []"

definition in_flight :: "'z disp \<Rightarrow> Payload list" where
  "in_flight d = concat (map held (procs d))"

lemma worker_step_held:
  "busy pc \<Longrightarrow> worker_step fe io n c pc s = (pc', s', l) \<Longrightarrow>
     held pc = settled1 l @ held pc' \<and> accepted1 l = []"
  by (cases "(fe, io, n, c, pc, s)" rule: worker_step.cases;
      cases rule: cont_env_cases [of "RecordEventRejected (p_Source p) CodeValidation"
          "Counting False p r" "Recovering p" s for p r])
    (auto simp: step_simps settled1_def cont_env_def Let_def
      split: call.splits option.splits prod.splits if_splits)

lemma held_idle: "is_Ready pc \<Longrightarrow> held pc = []" "is_Exited pc \<Longrightarrow> held pc = []"
  by (cases pc; simp)+

text \<open>All the steps of the program, spelled out.\<close>

lemma dstep_cases:
  assumes "dstep fe d l d'"
  obtains
    (handoff) p i where "l = Accept p" "\<not> chan_closed (buf d)" "i < length (procs d)"
      "is_Ready (procs d ! i)" "chan_buf (buf d) = []"
      "d' = d\<lparr>procs := (procs d)[i := Observing p], observers := Suc (observers d)\<rparr>"
  | (buffer) p where "l = Accept p" "\<not> chan_closed (buf d)"
      "length (chan_buf (buf d)) < chan_cap (buf d)"
      "d' = d\<lparr>buf := (buf d)\<lparr>chan_buf := chan_buf (buf d) @ [p]\<rparr>, observers := Suc (observers d)\<rparr>"
  | (refused) p where "l = Refuse p" "\<not> chan_closed (buf d)"
      "chan_cap (buf d) \<le> length (chan_buf (buf d))" "d' = d"
  | (watched) e where "l = Tau" "0 < observers d" "metric dlqEnqueued e = metric dlqEnqueued (penv (sh d))"
      "d' = d\<lparr>sh := (sh d)\<lparr>penv := e\<rparr>, observers := observers d - 1\<rparr>"
  | (take) i p ps where "i < length (procs d)" "wstep fe d l d'" "l = Tau" "is_Ready (procs d ! i)"
      "chan_buf (buf d) = p # ps"
      "d' = d\<lparr>buf := (buf d)\<lparr>chan_buf := ps\<rparr>, procs := (procs d)[i := Observing p]\<rparr>"
  | (exit) i where "i < length (procs d)" "wstep fe d l d'" "l = Tau" "is_Ready (procs d ! i)"
      "chan_buf (buf d) = []" "chan_closed (buf d)"
      "d' = d\<lparr>wg := wg d - 1, procs := (procs d)[i := Exited]\<rparr>"
  | (step) i io pc' s' where "i < length (procs d)" "wstep fe d l d'" "busy (procs d ! i)"
      "worker_step fe io (depth d) (d_chain d) (procs d ! i) (sh d) = (pc', s', l)"
      "d' = d\<lparr>procs := (procs d)[i := pc'], sh := s'\<rparr>"
  | (closing) "l = Tau" "\<not> chan_closed (buf d)" "d' = d\<lparr>buf := (buf d)\<lparr>chan_closed := True\<rparr>\<rparr>"
  | (others) e where "l = Tau" "metric dlqEnqueued e = metric dlqEnqueued (penv (sh d))"
      "d' = d\<lparr>sh := (sh d)\<lparr>penv := e\<rparr>\<rparr>"
  using assms
proof (cases rule: dstep.cases)
  case (accept parked p)
  then show ?thesis
    using handoff [of p "the parked"] buffer [of p]
    by (auto simp: submit_send_True parked_ok_def split: if_splits option.splits)
next
  case (refuse p)
  then show ?thesis using refused [of p] by (auto simp: submit_send_False)
next
  case (observe out)
  then show ?thesis
    using watched [of "snd (ObserveWorkerPoolDepth (depth d) (penv (sh d)))"]
    by (auto simp: submit_observe_eq)
next
  case work
  then obtain i io where i: "i < length (procs d)" "worker_move fe io i d = Some (l, d')"
    by (auto elim: wstepE)
  from i(2) show ?thesis
    by (cases rule: worker_move_cases) (use i(1) work in \<open>auto intro: take exit step\<close>)
next
  case shut
  then show ?thesis using closing by (simp add: shutdown_close_Ret)
next
  case (ambient e)
  then show ?thesis using others by blast
qed

lemma in_flight_update:
  "i < length (procs d) \<Longrightarrow> in_flight d' = concat (map held ((procs d)[i := pc])) \<Longrightarrow>
     mset (in_flight d') + mset (held (procs d ! i)) = mset (in_flight d) + mset (held pc)"
  by (simp add: in_flight_def mset_concat_update)

lemma dstep_conserves:
  assumes "dstep fe d l d'"
  shows "mset (chan_buf (buf d')) + mset (in_flight d') + mset (settled1 l) =
     mset (chan_buf (buf d)) + mset (in_flight d) + mset (accepted1 l)"
  using assms
proof (cases rule: dstep_cases)
  case (handoff p i)
  then have "mset (in_flight d') = mset (in_flight d) + {#p#}"
    using in_flight_update [of i d d' "Observing p"] by (simp add: in_flight_def held_idle)
  with handoff show ?thesis by (simp add: settled1_def)
next
  case (take i p ps)
  then have "mset (in_flight d') = mset (in_flight d) + {#p#}"
    using in_flight_update [of i d d' "Observing p"] by (simp add: in_flight_def held_idle)
  with take show ?thesis by (simp add: settled1_def)
next
  case (exit i)
  then have "mset (in_flight d') = mset (in_flight d)"
    using in_flight_update [of i d d' Exited] by (simp add: in_flight_def held_idle)
  with exit show ?thesis by (simp add: settled1_def)
next
  case (step i io pc' s')
  have "mset (in_flight d') + mset (settled1 l) = mset (in_flight d)"
    using in_flight_update [of i d d' pc'] worker_step_held [OF step(3,4)] step
    by (simp add: in_flight_def)
  with worker_step_held [OF step(3,4)] step show ?thesis by (simp add: ac_simps)
qed (simp_all add: in_flight_def settled1_def)

lemma dstep_order:
  "dstep fe d l d' \<Longrightarrow> length (procs d) = 1 \<Longrightarrow>
     settled1 l @ in_flight d' @ chan_buf (buf d') = in_flight d @ chan_buf (buf d) @ accepted1 l \<and>
     length (procs d') = 1"
proof -
  assume step: "dstep fe d l d'" and one: "length (procs d) = 1"
  then obtain pc where pc: "procs d = [pc]" by (auto simp: length_Suc_conv)
  from step show ?thesis
    by (cases rule: dstep_cases)
      (use pc in \<open>auto simp: in_flight_def settled1_def held_idle dest!: worker_step_held\<close>)
qed

section \<open>The invariant of the workers\<close>

definition live :: "'z disp \<Rightarrow> nat" where
  "live d = length (filter (\<lambda>pc. \<not> is_Exited pc) (procs d))"

definition workers_ok :: "'z disp \<Rightarrow> bool" where
  "workers_ok d \<longleftrightarrow> length (chan_buf (buf d)) \<le> chan_cap (buf d) \<and> wg d = live d \<and>
     (\<forall>pc \<in> set (procs d). \<not> is_Crashed pc) \<and>
     (live d < length (procs d) \<longrightarrow> chan_closed (buf d) \<and> chan_buf (buf d) = [])"

lemma live_update:
  "i < length (procs d) \<Longrightarrow> procs d' = (procs d)[i := pc] \<Longrightarrow>
     live d' + (if is_Exited (procs d ! i) then 0 else 1) = live d + (if is_Exited pc then 0 else 1)"
  using length_filter_update [of i "procs d" "\<lambda>pc. \<not> is_Exited pc" pc]
  by (cases "is_Exited (procs d ! i)"; cases "is_Exited pc"; simp add: live_def)

lemma set_update_ok:
  "\<forall>x \<in> set xs. P x \<Longrightarrow> P y \<Longrightarrow> \<forall>x \<in> set (xs[i := y]). P x"
  using set_update_subset_insert [of xs i y] by blast

lemma not_idle: "is_Ready pc \<Longrightarrow> \<not> is_Exited pc" "busy pc \<Longrightarrow> \<not> is_Exited pc"
  by (cases pc; simp)+

lemma dstep_static:
  "dstep fe d l d' \<Longrightarrow> d_chain d' = d_chain d \<and> chan_cap (buf d') = chan_cap (buf d) \<and>
     length (procs d') = length (procs d) \<and> (chan_closed (buf d) \<longrightarrow> chan_closed (buf d'))"
  by (cases rule: dstep_cases) auto

lemma dstep_workers_ok:
  assumes "dstep fe d l d'" and "workers_ok d"
  shows "workers_ok d'"
proof -
  have no_crash: "\<forall>q \<in> set ((procs d)[i := pc]). \<not> is_Crashed q" if "\<not> is_Crashed pc" for pc i
    using that assms(2) by (intro set_update_ok) (simp_all add: workers_ok_def)
  from assms(1) show ?thesis
  proof (cases rule: dstep_cases)
    case (handoff p i)
    with assms(2) live_update [of i d d' "Observing p"] no_crash [of "Observing p" i] show ?thesis
      by (auto simp: workers_ok_def not_idle)
  next
    case (take i p ps)
    with assms(2) live_update [of i d d' "Observing p"] no_crash [of "Observing p" i] show ?thesis
      by (auto simp: workers_ok_def not_idle)
  next
    case (exit i)
    with assms(2) live_update [of i d d' Exited] no_crash [of Exited i] show ?thesis
      by (auto simp: workers_ok_def not_idle)
  next
    case (step i io pc' s')
    have pc': "\<not> is_Exited pc'" "\<not> is_Crashed pc'"
      using worker_step_weight [OF step(3) order_refl, of "d_chain d" fe io "depth d" "sh d"] step(4)
      by auto
    with step assms(2) live_update [of i d d' pc'] no_crash [of pc' i] show ?thesis
      by (auto simp: workers_ok_def not_idle)
  qed (use assms(2) in \<open>auto simp: workers_ok_def live_def\<close>)
qed

section \<open>Reachable states\<close>

definition fresh :: "'z disp \<Rightarrow> bool" where
  "fresh d \<longleftrightarrow> workers_ok d \<and> chan_buf (buf d) = [] \<and> in_flight d = []"

lemma held_replicate [simp]: "concat (map held (replicate n Ready)) = []"
  by (induction n) auto

lemma New_fresh:
  assumes "dispatcher_New cfg c bat q e = Ret d"
  shows "fresh d" and "length (procs d) = nat (Workers cfg)" and "d_chain d = c"
    and "int (chan_cap (buf d)) = BufferSize cfg" and "sh d = \<lparr>penv = e, batcher = bat, dlq = q\<rparr>"
    and "procs d = replicate (nat (Workers cfg)) Ready"
  using assms
  by (auto simp: dispatcher_New_def make_chan_def chan_fits_def fresh_def workers_ok_def in_flight_def live_def
      split: if_splits)

lemma druns_static:
  "druns fe d tr d' \<Longrightarrow> d_chain d' = d_chain d \<and> chan_cap (buf d') = chan_cap (buf d) \<and>
     length (procs d') = length (procs d)"
  by (induction rule: druns.induct) (auto dest: dstep_static)

lemma druns_workers_ok: "druns fe d tr d' \<Longrightarrow> workers_ok d \<Longrightarrow> workers_ok d'"
  by (induction rule: druns.induct) (auto intro: dstep_workers_ok)

lemma druns_conserves:
  "druns fe d tr d' \<Longrightarrow> mset (chan_buf (buf d')) + mset (in_flight d') + mset (settled tr) =
     mset (chan_buf (buf d)) + mset (in_flight d) + mset (accepted tr)"
proof (induction rule: druns.induct)
  case (druns_snoc tr d' l d'')
  from balance_trans [OF dstep_conserves [OF druns_snoc.hyps(2)] druns_snoc.IH] show ?case by simp
qed simp

lemma druns_order:
  "druns fe d tr d' \<Longrightarrow> length (procs d) = 1 \<Longrightarrow> chan_buf (buf d) = [] \<Longrightarrow> in_flight d = [] \<Longrightarrow>
     settled tr @ in_flight d' @ chan_buf (buf d') = accepted tr \<and> length (procs d') = 1"
proof (induction rule: druns.induct)
  case (druns_snoc tr d' l d'')
  then have "length (procs d') = 1" and so_far: "settled tr @ in_flight d' @ chan_buf (buf d') = accepted tr"
    by auto
  from dstep_order [OF druns_snoc.hyps(2) this(1)] so_far show ?case
    by (simp flip: append_assoc) (simp add: append_assoc flip: so_far)
qed simp

lemma held_length: "length (held pc) \<le> 1"
  by (cases pc) auto

lemma in_flight_length: "length (in_flight d) \<le> length (procs d)"
proof -
  have "length (concat (map held pcs)) \<le> length pcs" for pcs :: "'z pc list"
    by (induction pcs) (auto simp: le_Suc_eq dest: order_trans [OF add_mono [OF held_length]])
  then show ?thesis by (simp add: in_flight_def)
qed

text \<open>
  C8: no payload is lost or duplicated: in every interleaving, what has been accepted is what
  has been handed to the batcher, what has been dead-lettered, what waits in the channel and what
  the workers are holding, each as often as it was accepted. The channel never holds more than
  \<^verbatim>\<open>BufferSize\<close> payloads and the workers never more than one each.
\<close>

theorem dispatcher_conservation:
  assumes "dispatcher_New cfg c bat q e = Ret d0" and "druns fe d0 tr d"
  shows "mset (accepted tr) =
      mset (batched tr) + mset (dead tr) + mset (chan_buf (buf d)) + mset (in_flight d) \<and>
    int (length (chan_buf (buf d))) \<le> BufferSize cfg \<and> length (in_flight d) \<le> nat (Workers cfg)"
proof (intro conjI)
  note new = New_fresh [OF assms(1)] and run = assms(2)
  show "mset (accepted tr) =
      mset (batched tr) + mset (dead tr) + mset (chan_buf (buf d)) + mset (in_flight d)"
    using druns_conserves [OF run] new(1) settled_mset [of tr] by (simp add: fresh_def ac_simps)
  show "int (length (chan_buf (buf d))) \<le> BufferSize cfg"
    using druns_workers_ok [OF run] druns_static [OF run] new(1,4)
    by (auto simp: fresh_def workers_ok_def)
  show "length (in_flight d) \<le> nat (Workers cfg)"
    using in_flight_length [of d] druns_static [OF run] new(2) by simp
qed

text \<open>
  With one worker payloads are settled in the order of acceptance: those batched or
  dead-lettered so far, then the one the worker holds, then those waiting, are the accepted ones
  in their order.
\<close>

lemma dispatcher_fifo:
  assumes "dispatcher_New cfg c bat q e = Ret d0" and "druns fe d0 tr d" and "Workers cfg = 1"
  shows "accepted tr = settled tr @ in_flight d @ chan_buf (buf d)"
  using druns_order [OF assms(2)] New_fresh(1,2) [OF assms(1)] assms(3) by (simp add: fresh_def)

text \<open>
  C11: no panic escapes a worker, in any interleaving: there are always as many worker goroutines
  as configured, none has crashed, the wait group counts the ones that have not ended, and a
  worker ends only when the channel is closed and drained.
\<close>

theorem workers_survive:
  assumes "dispatcher_New cfg c bat q e = Ret d0" and "druns fe d0 tr d"
  shows "length (procs d) = nat (Workers cfg) \<and> (\<forall>pc \<in> set (procs d). \<not> is_Crashed pc) \<and>
    wg d = live d \<and>
    (\<not> chan_closed (buf d) \<or> chan_buf (buf d) \<noteq> [] \<longrightarrow> live d = nat (Workers cfg))"
proof -
  have "live d \<le> length (procs d)" by (simp add: live_def)
  then show ?thesis
    using druns_workers_ok [OF assms(2)] druns_static [OF assms(2)] New_fresh(1,2) [OF assms(1)]
    by (auto simp: fresh_def workers_ok_def)
qed

lemma live_0: "live d = 0 \<Longrightarrow> in_flight d = []"
  by (auto simp: live_def in_flight_def filter_empty_conv held_idle)

lemma drained:
  assumes "dispatcher_New cfg c bat q e = Ret d0" and "druns fe d0 tr d"
    and "shutdown_returns d" and "1 \<le> Workers cfg"
  shows "mset (accepted tr) = mset (batched tr) + mset (dead tr)"
proof -
  note new = New_fresh [OF assms(1)]
  have ok: "workers_ok d" using druns_workers_ok [OF assms(2)] new(1) by (simp add: fresh_def)
  with assms(3) have none: "live d = 0" by (simp add: shutdown_returns_def workers_ok_def)
  moreover have "0 < length (procs d)"
    using druns_static [OF assms(2)] new(2) assms(4) by simp
  ultimately have "chan_buf (buf d) = []" using ok by (auto simp: workers_ok_def)
  then show ?thesis
    using druns_conserves [OF assms(2)] new(1) settled_mset [of tr] live_0 [OF none]
    by (simp add: fresh_def)
qed

text \<open>
  When \<^verbatim>\<open>Shutdown\<close> returns, nothing is left behind: every payload ever accepted has
  been handed to the batcher or to the dead letter queue.
\<close>

lemma shutdown_complete:
  assumes "dispatcher_New cfg c bat q e = Ret d0" and "druns fe d0 tr d"
    and "shutdown_returns d" and "1 \<le> Workers cfg"
  shows "mset (accepted tr) = mset (batched tr) + mset (dead tr)"
  using assms by (rule drained)

section \<open>The drain after the close\<close>

text \<open>A worker in the chain has a suffix of its handlers still to run.\<close>

fun chain_pos :: "'z Chain \<Rightarrow> 'z pc \<Rightarrow> bool" where
  "chain_pos c (Chaining p hs r) = suffix hs (handlers c)"
| "chain_pos c pc = True"

lemma worker_step_chain_pos:
  "chain_pos c pc \<Longrightarrow> chain_pos c (fst (worker_step fe io n c pc s))"
  by (cases "(fe, io, n, c, pc, s)" rule: worker_step.cases;
      cases rule: cont_env_cases [of "RecordEventRejected (p_Source p) CodeValidation"
          "Counting False p r" "Recovering p" s for p r])
    (auto simp: step_simps cont_env_def Let_def suffix_ConsD
      split: call.splits option.splits prod.splits)

lemma chain_pos_idle [simp]: "chain_pos c (Observing p)" "chain_pos c Exited" "chain_pos c Ready"
  by simp_all

lemma dstep_chain_pos:
  assumes "dstep fe d l d'" and "\<forall>pc \<in> set (procs d). chain_pos (d_chain d) pc"
  shows "\<forall>pc \<in> set (procs d'). chain_pos (d_chain d') pc"
proof -
  have upd: "\<forall>q \<in> set ((procs d)[i := pc]). chain_pos (d_chain d) q" if "chain_pos (d_chain d) pc" for pc i
    using that assms(2) by (intro set_update_ok) simp_all
  from assms(1) show ?thesis
  proof (cases rule: dstep_cases)
    case (step i io pc' s')
    then have "chain_pos (d_chain d) pc'"
      using worker_step_chain_pos [of "d_chain d" "procs d ! i" fe io "depth d" "sh d"] assms(2) by simp
    with step upd show ?thesis by simp
  qed (simp_all, (use upd [OF chain_pos_idle(1)] upd [OF chain_pos_idle(2)] assms(2) in blast)+)
qed

lemma druns_chain_pos:
  "druns fe d tr d' \<Longrightarrow> \<forall>pc \<in> set (procs d). chain_pos (d_chain d) pc \<Longrightarrow>
     \<forall>pc \<in> set (procs d'). chain_pos (d_chain d') pc"
  by (induction rule: druns.induct) (auto dest!: dstep_chain_pos)

text \<open>The work that is left: the steps of the busy workers and those each waiting payload takes.\<close>

definition work_unit :: "'z disp \<Rightarrow> nat" where
  "work_unit d = length (handlers (d_chain d)) + 9"

definition backlog :: "'z disp \<Rightarrow> nat" where
  "backlog d = sum_list (map (pc_weight (length (handlers (d_chain d)))) (procs d)) +
     length (chan_buf (buf d)) * work_unit d"

lemma pc_weight_le: "chain_pos c pc \<Longrightarrow> pc_weight (length (handlers c)) pc \<le> length (handlers c) + 9"
  by (cases pc) (auto dest: suffix_length_le)

lemma backlog_le:
  assumes "\<forall>pc \<in> set (procs d). chain_pos (d_chain d) pc"
  shows "backlog d \<le> (length (procs d) + length (chan_buf (buf d))) * work_unit d"
proof -
  have "sum_list (map (pc_weight (length (handlers (d_chain d)))) pcs) \<le> length pcs * work_unit d"
    if "\<forall>pc \<in> set pcs. chain_pos (d_chain d) pc" for pcs
    using that by (induction pcs) (auto simp: work_unit_def intro!: add_mono pc_weight_le)
  from this [OF assms] show ?thesis by (simp add: backlog_def algebra_simps)
qed

lemma backlog_update:
  "i < length (procs d) \<Longrightarrow> procs d' = (procs d)[i := pc] \<Longrightarrow> d_chain d' = d_chain d \<Longrightarrow>
     backlog d' + pc_weight (length (handlers (d_chain d))) (procs d ! i) +
        length (chan_buf (buf d)) * work_unit d =
     backlog d + pc_weight (length (handlers (d_chain d))) pc + length (chan_buf (buf d')) * work_unit d"
  using sum_list_update_nat [of i "procs d" "pc_weight (length (handlers (d_chain d)))" pc]
  by (simp add: backlog_def work_unit_def)

lemma is_ReadyD: "is_Ready pc \<Longrightarrow> pc = Ready"
  by (cases pc) auto

lemma wstep_backlog: "wstep fe d l d' \<Longrightarrow> backlog d' < backlog d"
proof (elim wstepE)
  fix i io
  assume i: "i < length (procs d)" and move: "worker_move fe io i d = Some (l, d')"
  from move show ?thesis
  proof (cases rule: worker_move_cases)
    case (take p ps)
    with i backlog_update [of i d d' "Observing p"] is_ReadyD [OF take(1)] show ?thesis
      by (simp add: work_unit_def)
  next
    case exit
    with i backlog_update [of i d d' Exited] is_ReadyD [OF exit(1)] show ?thesis by simp
  next
    case (step pc' s')
    with i backlog_update [of i d d' pc']
      worker_step_weight [OF step(1) order_refl, of "d_chain d" fe io "depth d" "sh d"]
    show ?thesis by simp
  qed
qed

lemma dstep_backlog:
  assumes "dstep fe d l d'" and "chan_closed (buf d)"
  shows "backlog d' \<le> backlog d"
  using assms(1)
  by (cases rule: dstep_cases)
    (use assms(2) in \<open>auto dest!: wstep_backlog simp: backlog_def work_unit_def\<close>)

lemma worker_can_move:
  assumes "workers_ok d" and "chan_closed (buf d)" and "0 < wg d"
  shows "\<exists>l d'. wstep fe d l d'"
proof -
  from assms obtain i where i: "i < length (procs d)" "\<not> is_Exited (procs d ! i)"
    by (auto simp: workers_ok_def live_def filter_empty_conv in_set_conv_nth)
  then have "\<not> is_Crashed (procs d ! i)" using assms(1) by (simp add: workers_ok_def)
  then have "is_Ready (procs d ! i) \<or> busy (procs d ! i)" using i(2) by (cases "procs d ! i") auto
  then have "worker_move fe \<lparr>wall = 0, wr = Written, stack = []\<rparr> i d \<noteq> None"
    using assms(2) by (auto simp: worker_move_def range_recv_def Let_def split_beta split: list.split)
  with i show ?thesis by (auto intro: wmove)
qed

text \<open>Runs with the number of steps the workers made in them.\<close>

inductive wruns :: "fmt_env \<Rightarrow> 'z disp \<Rightarrow> nat \<Rightarrow> 'z disp \<Rightarrow> bool" for fe d where
  wruns_nil: "wruns fe d 0 d"
| wruns_work: "wruns fe d n d' \<Longrightarrow> wstep fe d' l d'' \<Longrightarrow> wruns fe d (Suc n) d''"
| wruns_other: "wruns fe d n d' \<Longrightarrow> dstep fe d' l d'' \<Longrightarrow> wruns fe d n d''"

lemma wruns_inv:
  "wruns fe d n d' \<Longrightarrow> workers_ok d \<Longrightarrow> chan_closed (buf d) \<Longrightarrow>
     workers_ok d' \<and> chan_closed (buf d') \<and> n + backlog d' \<le> backlog d"
proof (induction rule: wruns.induct)
  case (wruns_work n d' l d'')
  then have step: "dstep fe d' l d''" by (auto intro: dstep.work)
  from wruns_work have "workers_ok d'" "chan_closed (buf d')" "n + backlog d' \<le> backlog d" by auto
  with dstep_workers_ok [OF step] dstep_static [OF step] wstep_backlog [OF wruns_work.hyps(2)]
  show ?case by auto
next
  case (wruns_other n d' l d'')
  then have "workers_ok d'" "chan_closed (buf d')" "n + backlog d' \<le> backlog d" by auto
  with dstep_workers_ok [OF wruns_other.hyps(2)] dstep_static [OF wruns_other.hyps(2)]
    dstep_backlog [OF wruns_other.hyps(2)]
  show ?case by auto
qed simp

text \<open>
  C10: \<^verbatim>\<open>Shutdown\<close> does not hang: once the channel is closed, the workers make at most
  (workers + buffered payloads) * (length of the chain + 9) further steps, whatever else goes on,
  and as long as the wait group is not at zero one of them can make a step.
\<close>

theorem shutdown_terminates:
  assumes "dispatcher_New cfg c bat q e = Ret d0" and "druns fe d0 tr d"
    and "chan_closed (buf d)" and "wruns fe d n d'"
  shows "n \<le> (nat (Workers cfg) + nat (BufferSize cfg)) * (length (handlers c) + 9) \<and>
    (shutdown_returns d' \<or> (\<exists>l d''. wstep fe d' l d''))"
proof (intro conjI)
  note new = New_fresh [OF assms(1)] and static = druns_static [OF assms(2)]
  have ok: "workers_ok d" using druns_workers_ok [OF assms(2)] new(1) by (simp add: fresh_def)
  note run = wruns_inv [OF assms(4) ok assms(3)]
  have "\<forall>pc \<in> set (procs d0). chain_pos (d_chain d0) pc" using new(6) by simp
  then have "backlog d \<le> (length (procs d) + length (chan_buf (buf d))) * work_unit d"
    by (intro backlog_le druns_chain_pos [OF assms(2)])
  also have "\<dots> \<le> (nat (Workers cfg) + nat (BufferSize cfg)) * (length (handlers c) + 9)"
    using ok static new by (intro mult_le_mono) (auto simp: workers_ok_def work_unit_def)
  finally show "n \<le> (nat (Workers cfg) + nat (BufferSize cfg)) * (length (handlers c) + 9)"
    using run by simp
  show "shutdown_returns d' \<or> (\<exists>l d''. wstep fe d' l d'')"
    using run worker_can_move [of d' fe] by (auto simp: shutdown_returns_def)
qed

section \<open>Counting dead letters\<close>

definition pushing :: "'z disp \<Rightarrow> nat" where
  "pushing d = length (filter is_Pushing (procs d))"

lemma pushing_update:
  "i < length (procs d) \<Longrightarrow> procs d' = (procs d)[i := pc] \<Longrightarrow>
     pushing d' + (if is_Pushing (procs d ! i) then 1 else 0) = pushing d + (if is_Pushing pc then 1 else 0)"
  using length_filter_update [of i "procs d" is_Pushing pc] by (simp add: pushing_def)

lemma ready_not_pushing: "is_Ready pc \<Longrightarrow> \<not> is_Pushing pc"
  by (cases pc) auto

text \<open>
  What the counter of dead letters relies on: the handlers of the chain leave it alone. Under this
  contract the counter is always the number of payloads pushed plus those about to be.
\<close>

locale quiet_chain =
  fixes c :: "'z Chain"
  assumes quiet: "h \<in> set (handlers c) \<Longrightarrow>
    metric dlqEnqueued (snd (snd (h r s))) = metric dlqEnqueued s"
begin

lemma worker_step_counts:
  assumes "busy pc" and "chain_pos c pc" and "worker_step fe io n c pc s = (pc', s', l)"
    and "metric dlqEnqueued (penv s) = Some k"
  shows "\<exists>k'. metric dlqEnqueued (penv s') = Some k' \<and>
    k' + (if is_Pushing pc then 1 else 0) = k + (if is_Pushing pc' then 1 else 0) + length (dead1 l)"
proof (cases pc)
  case (Chaining p hs r)
  show ?thesis
  proof (cases hs)
    case (Cons h ks)
    then have "h \<in> set (handlers c)" using assms(2) Chaining by (auto simp: suffix_def)
    from quiet [OF this] Chaining Cons assms(3,4) show ?thesis
      by (auto simp: Let_def split_beta split: call.splits option.splits)
  qed (use Chaining assms(3,4) in auto)
next
  case (Rejecting p e)
  with assms(3,4) show ?thesis
    by (cases rule: cont_env_cases [of "RecordEventRejected (p_Source p) CodeValidation"
          "Counting False p (err_text (rejection p e))" "Recovering p" s]) auto
next
  case (Pushing p reason)
  with assms(3,4) show ?thesis
    by (auto simp: push_dead_def split_beta Let_def metric_def frame_simps)
qed (use assms in \<open>auto simp: step_simps Let_def split: prod.splits option.splits if_splits\<close>)

lemma dstep_counts:
  assumes "dstep fe d l d'" and "d_chain d = c" and "\<forall>pc \<in> set (procs d). chain_pos c pc"
    and "metric dlqEnqueued (penv (sh d)) = Some k"
  shows "\<exists>k'. metric dlqEnqueued (penv (sh d')) = Some k' \<and>
    k' + pushing d = k + pushing d' + length (dead1 l)"
  using assms(1)
proof (cases rule: dstep_cases)
  case (step i io pc' s')
  then have "chain_pos c (procs d ! i)" using assms(3) by simp
  with worker_step_counts [OF step(3) this, of fe io "depth d" "sh d"] step assms(2,4)
    pushing_update [of i d d' pc']
  show ?thesis by fastforce
qed (use assms(4) pushing_update [of _ d d'] ready_not_pushing in
      \<open>(fastforce simp: pushing_def)+\<close>)

lemma druns_counts:
  assumes "druns fe d tr d'" and "d_chain d = c" and "\<forall>pc \<in> set (procs d). chain_pos c pc"
    and "metric dlqEnqueued (penv (sh d)) = Some k"
  shows "\<exists>k'. metric dlqEnqueued (penv (sh d')) = Some k' \<and>
    k' + pushing d = k + pushing d' + length (dead tr)"
  using assms
proof (induction rule: druns.induct)
  case (druns_snoc tr d' l d'')
  then obtain k' where k': "metric dlqEnqueued (penv (sh d')) = Some k'"
      "k' + pushing d = k + pushing d' + length (dead tr)" by auto
  have "d_chain d' = c" using druns_static [OF druns_snoc.hyps(1)] druns_snoc.prems(1) by simp
  with druns_chain_pos [OF druns_snoc.hyps(1)] druns_snoc.prems(1,2)
    dstep_counts [OF druns_snoc.hyps(2) _ _ k'(1)] k'(2)
  show ?case by fastforce
qed simp

end

lemma metric_buckets [simp]: "metric f (s\<lparr>buckets := m\<rparr>) = metric f s"
  by (simp add: metric_def)

lemma rl_handler_quiet:
  "metric dlqEnqueued (snd (snd (rl_Middleware cfg r s))) = metric dlqEnqueued s"
  by (simp add: rl_Middleware_def Let_def split_beta split: call.split)

interpretation rl_chain: quiet_chain "NewChain [rl_Middleware cfg]"
  by unfold_locales (auto simp: NewChain_def rl_handler_quiet)

text \<open>
  The counter of dead letters tells the truth: with handlers that leave it alone, in every
  reachable state it is its initial value plus the payloads pushed to the queue so far plus
  those whose push is the worker's very next step.
\<close>

lemma dead_letters_counted:
  assumes "dispatcher_New cfg c bat q e = Ret d0" and "druns fe d0 tr d"
    and "\<And>h r s. h \<in> set (handlers c) \<Longrightarrow> metric dlqEnqueued (snd (snd (h r s))) = metric dlqEnqueued s"
    and "metric dlqEnqueued e = Some k"
  shows "metric dlqEnqueued (penv (sh d)) = Some (k + length (dead tr) + pushing d)"
proof -
  have contract: "quiet_chain c" using assms(3) by (rule quiet_chain.intro)
  note new = New_fresh [OF assms(1)]
  have "pushing d0 = 0" using new(6) by (simp add: pushing_def)
  with quiet_chain.druns_counts [OF contract assms(2) new(3)] new(5,6) assms(4)
  show ?thesis by (auto simp: add.assoc)
qed

section \<open>The dispatcher and the batcher\<close>

text \<open>
  Every step of the dispatcher is a step of the batcher's interleaved protocol (\<open>bstep\<close> in
  theory \<open>Batcher\<close>), with the workers between \<^verbatim>\<open>Add\<close> and \<^verbatim>\<open>Flush\<close> as its pending
  callers, or leaves the batcher alone.
\<close>

definition flushing :: "'z disp \<Rightarrow> nat" where
  "flushing d = length (filter is_Flushing (procs d))"

definition batch_view :: "'z disp \<Rightarrow> Batcher \<times> nat" where
  "batch_view d = (batcher (sh d), flushing d)"

lemma flushing_update:
  "i < length (procs d) \<Longrightarrow> procs d' = (procs d)[i := pc] \<Longrightarrow>
     flushing d' + (if is_Flushing (procs d ! i) then 1 else 0) = flushing d + (if is_Flushing pc then 1 else 0)"
  using length_filter_update [of i "procs d" is_Flushing pc] by (simp add: flushing_def)

lemma ready_not_flushing: "is_Ready pc \<Longrightarrow> \<not> is_Flushing pc"
  by (cases pc) auto

definition silent :: "dlabel \<Rightarrow> bool" where
  "silent l \<longleftrightarrow> batched1 l = [] \<and> flushed1 l = []"

lemma worker_step_batcher:
  assumes "busy pc" and "worker_step fe io n c pc s = (pc', s', l)"
  obtains
    (add) p full where "pc = Adding p" "l = Batched p"
      "add_locked (p_Data p) (batcher s) = (full, batcher s')" "pc' = (if full then Flushing else Ready)"
  | (flush) batch where "is_Flushing pc" "pc' = Ready" "l = Flushed batch"
      "flush_locked (batcher s) = (Some batch, batcher s')"
  | (flush_none) "is_Flushing pc" "pc' = Ready" "l = Tau"
      "flush_locked (batcher s) = (None, batcher s')"
  | (other) "\<not> is_Flushing pc" "\<not> is_Flushing pc'" "silent l" "batcher s' = batcher s"
proof (cases pc)
  case (Adding p)
  with assms(2) add show ?thesis by (auto simp: Let_def split: prod.splits)
next
  case Flushing
  with assms(2) flush flush_none show ?thesis by (auto split: option.splits prod.splits)
next
  case (Chaining p hs r)
  with assms other show ?thesis
    by (cases hs) (auto simp: silent_def Let_def split: call.splits option.splits prod.splits)
next
  case (Rejecting p e)
  with assms(2) other show ?thesis
    by (cases rule: cont_env_cases [of "RecordEventRejected (p_Source p) CodeValidation"
          "Counting False p (err_text (rejection p e))" "Recovering p" s]) (auto simp: silent_def)
qed (use assms other in \<open>auto simp: silent_def step_simps Let_def push_dead_def split: prod.splits\<close>)

lemma dstep_batcher:
  assumes "dstep fe d l d'"
  shows "(silent l \<and> batch_view d' = batch_view d) \<or>
    (\<exists>ev. bstep (batch_view d) ev (batch_view d') \<and> ev_added ev = map p_Data (batched1 l) \<and>
      ev_flushed ev = flushed1 l)"
  using assms
proof (cases rule: dstep_cases)
  case (step i io pc' s')
  note upd = flushing_update [OF step(1), of d' pc']
  from step(3,4) show ?thesis
  proof (cases rule: worker_step_batcher)
    case (add p full)
    have "flushing d' = (if full then Suc (flushing d) else flushing d)" using upd add step by auto
    with badd [OF add(3), of "flushing d"] step add show ?thesis
      by (intro disjI2 exI [of _ "BAdded (p_Data p)"]) (auto simp: batch_view_def)
  next
    case (flush batch)
    have "flushing d = Suc (flushing d')" using upd flush step by auto
    with bflush [OF flush(4), of "flushing d'"] step flush show ?thesis
      by (intro disjI2 exI [of _ "BFlushed batch"]) (auto simp: batch_view_def)
  next
    case flush_none
    have "flushing d = Suc (flushing d')" using upd flush_none step by auto
    with bflush_empty [OF flush_none(4), of "flushing d'"] step flush_none show ?thesis
      by (intro disjI2 exI [of _ BNothing]) (auto simp: batch_view_def)
  next
    case other
    with upd step show ?thesis by (auto simp: batch_view_def)
  qed
next
  case (handoff p i)
  with flushing_update [of i d d' "Observing p"] ready_not_flushing [of "procs d ! i"] show ?thesis
    by (simp add: batch_view_def silent_def)
next
  case (take i p ps)
  with flushing_update [of i d d' "Observing p"] ready_not_flushing [of "procs d ! i"] show ?thesis
    by (simp add: batch_view_def silent_def)
next
  case (exit i)
  with flushing_update [of i d d' Exited] ready_not_flushing [of "procs d ! i"] show ?thesis
    by (simp add: batch_view_def silent_def)
qed (simp_all add: batch_view_def flushing_def silent_def)

lemma druns_batcher:
  "druns fe d tr d' \<Longrightarrow> flushing d = 0 \<Longrightarrow>
     \<exists>evs. bruns (batcher (sh d), 0) evs (batch_view d') \<and>
       concat (map ev_added evs) = map p_Data (batched tr) \<and>
       concat (map ev_flushed evs) = flushed tr"
proof (induction rule: druns.induct)
  case druns_nil
  then show ?case using bruns_nil by (intro exI [of _ "[]"]) (simp add: batch_view_def)
next
  case (druns_snoc tr d' l d'')
  then obtain evs where evs: "bruns (batcher (sh d), 0) evs (batch_view d')"
      "concat (map ev_added evs) = map p_Data (batched tr)" "concat (map ev_flushed evs) = flushed tr"
    by auto
  from dstep_batcher [OF druns_snoc.hyps(2)] show ?case
  proof (elim disjE exE conjE)
    fix ev
    assume "bstep (batch_view d') ev (batch_view d'')" "ev_added ev = map p_Data (batched1 l)"
      "ev_flushed ev = flushed1 l"
    with bruns_snoc [OF evs(1)] evs(2,3) show ?thesis by (intro exI [of _ "evs @ [ev]"]) simp
  qed (use evs in \<open>auto simp: silent_def\<close>)
qed

text \<open>
  C13: nothing the workers hand to the batcher is lost or reordered there either: the batches
  flushed so far followed by the buffer are the data of the batched payloads in the order they
  were added, and the buffer holds fewer than \<^verbatim>\<open>MaxSize\<close> payloads plus one for each worker
  that is about to flush.
\<close>

theorem dispatcher_batches:
  assumes "dispatcher_New cfg c bat q e = Ret d0" and "druns fe d0 tr d"
    and "b_buf bat = []" and "1 \<le> MaxSize (b_cfg bat)"
  shows "flushed tr @ b_buf (batcher (sh d)) = map p_Data (batched tr) \<and>
    int (length (b_buf (batcher (sh d)))) \<le> MaxSize (b_cfg bat) - 1 + int (flushing d)"
proof -
  note new = New_fresh [OF assms(1)]
  have "flushing d0 = 0" using new(6) by (simp add: flushing_def)
  from druns_batcher [OF assms(2) this] obtain evs where evs:
      "bruns (bat, 0) evs (batcher (sh d), flushing d)"
      "concat (map ev_added evs) = map p_Data (batched tr)" "concat (map ev_flushed evs) = flushed tr"
    using new(5) by (auto simp: batch_view_def)
  from bruns_inv [OF evs(1) assms(3,4)] evs(2,3) show ?thesis by (auto simp: overshoot_ok_def)
qed

section \<open>What a caller of Submit sees\<close>

text \<open>
  C15: \<^verbatim>\<open>Submit\<close> never blocks and never loses a payload: it returns false exactly when the
  buffer is full and no worker is waiting, and then nothing has changed; it returns true exactly
  when the payload is the newest of the buffer or in the hands of the waiting worker (\<open>parked\<close> names
  it, one of the pool in every step by \<open>parked_ok\<close>), and then nothing else has changed but the gauge of
  the depth: the other workers, the bound and the flag of the channel, the wait group, the batcher
  and the dead letter queue are as before; on a closed channel, and only then, it panics.
\<close>

theorem Submit_outcome:
  "let full = chan_cap (buf d) \<le> length (chan_buf (buf d));
       waiting = parked \<noteq> None \<and> chan_buf (buf d) = [];
       (out, d') = Submit parked p d;
       gauged = (sh d)\<lparr>penv := snd (ObserveWorkerPoolDepth (int (length (chan_buf (buf d')))) (penv (sh d)))\<rparr>
   in if chan_closed (buf d) then out = Panic ''send on closed channel'' \<and> d' = d
      else if waiting then
        out = Ret True \<and> buf d' = buf d \<and> procs d' = (procs d)[the parked := Observing p] \<and>
        d' = d\<lparr>procs := procs d', sh := gauged\<rparr>
      else if full then out = Ret False \<and> d' = d
      else out = Ret True \<and> chan_buf (buf d') = chan_buf (buf d) @ [p] \<and> procs d' = procs d \<and>
        d' = d\<lparr>buf := (buf d)\<lparr>chan_buf := chan_buf (buf d')\<rparr>, sh := gauged\<rparr>"
  by (simp add: Submit_def submit_send_def try_send_def submit_observe_eq depth_def Let_def)

section \<open>A run\<close>

text \<open>
  One worker, room for one payload and no handlers: a payload is accepted, batched, the channel
  closed and the worker ends. The run shows that the hypotheses of the properties can hold.
\<close>

abbreviation demo_cfg :: DispatcherConfig where
  "demo_cfg \<equiv> \<lparr>Workers = 1, BufferSize = 1\<rparr>"

abbreviation demo_batcher :: Batcher where
  "demo_batcher \<equiv> \<lparr>b_cfg = \<lparr>MaxSize = 2, FlushInterval = 5\<rparr>, b_buf = [], b_ticking = True\<rparr>"

abbreviation demo_queue :: DLQ_state where
  "demo_queue \<equiv> \<lparr>q_cfg = \<lparr>Backend = ''log'', Target = []\<rparr>, q_file = False, q_disk = []\<rparr>"

abbreviation demo_env :: env where
  "demo_env \<equiv> \<lparr>active = new_provider (\<lambda>_. None) xyllo_collectors, clock = 0, log_lines = []\<rparr>"

abbreviation demo_payload :: Payload where
  "demo_payload \<equiv> \<lparr>p_Source = ''a'', p_Data = ''{}''\<rparr>"

abbreviation demo_start :: "unit disp" where
  "demo_start \<equiv> \<lparr>d_cfg = demo_cfg, d_chain = NewChain [],
     buf = \<lparr>chan_cap = 1, chan_buf = [], chan_closed = False\<rparr>, wg = 1, procs = [Ready],
     observers = 0, sh = \<lparr>penv = demo_env, batcher = demo_batcher, dlq = demo_queue\<rparr>\<rparr>"

abbreviation demo_shared :: "unit shared" where
  "demo_shared \<equiv> \<lparr>penv = snd (ObserveWorkerPoolDepth 0 demo_env),
     batcher = demo_batcher\<lparr>b_buf := [''{}'']\<rparr>, dlq = demo_queue\<rparr>"

abbreviation demo_closed :: "unit disp" where
  "demo_closed \<equiv> \<lparr>d_cfg = demo_cfg, d_chain = NewChain [],
     buf = \<lparr>chan_cap = 1, chan_buf = [], chan_closed = True\<rparr>, wg = 1, procs = [Ready],
     observers = 1, sh = demo_shared\<rparr>"

abbreviation demo_end :: "unit disp" where
  "demo_end \<equiv> demo_closed\<lparr>wg := 0, procs := [Exited]\<rparr>"

lemma demo_New:
  "dispatcher_New demo_cfg (NewChain []) demo_batcher demo_queue demo_env = Ret demo_start"
  by (simp add: dispatcher_New_def make_chan_def chan_fits_def payload_bytes_def)

lemma demo_move:
  "worker_move fe \<lparr>wall = 0, wr = Written, stack = []\<rparr> 0 d = Some (l, d') \<Longrightarrow> 0 < length (procs d) \<Longrightarrow>
     wstep fe d l d'"
  by (blast intro: wmove)

lemma demo_last: "wstep fe demo_closed Tau demo_end"
  by (rule demo_move) (simp_all add: worker_move_def range_recv_def)

lemma demo_run: "druns fe demo_start [Accept demo_payload, Tau, Tau, Batched demo_payload, Tau] demo_closed"
proof -
  let ?d1 = "demo_start\<lparr>procs := [Observing demo_payload], observers := 1\<rparr>"
  let ?env = "snd (ObserveWorkerPoolDepth 0 demo_env)"
  let ?d2 = "?d1\<lparr>procs := [Chaining demo_payload [] (new_result demo_payload)],
    sh := (sh demo_start)\<lparr>penv := ?env\<rparr>\<rparr>"
  let ?d3 = "?d2\<lparr>procs := [Adding demo_payload]\<rparr>"
  let ?d4 = "?d2\<lparr>procs := [Ready], sh := demo_shared\<rparr>"
  have "dstep fe demo_start (Accept demo_payload) ?d1"
    by (rule accept [of "Some 0"]) (simp_all add: parked_ok_def submit_send_def try_send_def)
  note s1 = druns_snoc [OF druns_nil this]
  have "wstep fe ?d1 Tau ?d2"
    by (rule demo_move) (simp_all add: worker_move_def step_simps depth_def NewChain_def)
  note s2 = druns_snoc [OF s1 work [OF this]]
  have "wstep fe ?d2 Tau ?d3"
    by (rule demo_move) (simp_all add: worker_move_def)
  note s3 = druns_snoc [OF s2 work [OF this]]
  have "wstep fe ?d3 (Batched demo_payload) ?d4"
    by (rule demo_move) (simp_all add: worker_move_def add_locked_def)
  note s4 = druns_snoc [OF s3 work [OF this]]
  have "dstep fe ?d4 Tau demo_closed"
    by (rule shut) (simp add: shutdown_close_def close_chan_def)
  from druns_snoc [OF s4 this] show ?thesis by simp
qed

lemma demo_finished:
  "druns fe demo_start [Accept demo_payload, Tau, Tau, Batched demo_payload, Tau, Tau] demo_end"
  using druns_snoc [OF demo_run work [OF demo_last]] by simp

theorem dispatcher_conservation_witness:
  "mset (accepted [Accept demo_payload, Tau, Tau, Batched demo_payload, Tau]) =
     {#demo_payload#} + {#} + {#} + mset (in_flight demo_closed)"
  using dispatcher_conservation [OF demo_New demo_run] by simp

lemma dispatcher_fifo_example:
  "accepted [Accept demo_payload, Tau, Tau, Batched demo_payload, Tau] =
     settled [Accept demo_payload, Tau, Tau, Batched demo_payload, Tau] @ in_flight demo_closed"
  using dispatcher_fifo [OF demo_New demo_run] by simp

theorem workers_survive_witness: "wg demo_closed = live demo_closed \<and> length (procs demo_closed) = 1"
  using workers_survive [OF demo_New demo_run] by simp

lemma shutdown_complete_example:
  "mset (accepted [Accept demo_payload, Tau, Tau, Batched demo_payload, Tau, Tau]) = {#demo_payload#} + {#}"
  using shutdown_complete [OF demo_New demo_finished] by (simp add: shutdown_returns_def)

theorem shutdown_terminates_witness: "shutdown_returns demo_end \<and> (1 :: nat) \<le> (1 + 1) * (0 + 9)"
proof -
  have "wruns fe demo_closed (Suc 0) demo_end" for fe
    by (rule wruns_work [OF wruns_nil demo_last])
  from shutdown_terminates [OF demo_New demo_run _ this] show ?thesis
    by (auto simp: NewChain_def shutdown_returns_def)
qed

lemma dead_letters_counted_example:
  "metric dlqEnqueued (penv (sh demo_closed)) = Some (0 + 0 + pushing demo_closed)"
  using dead_letters_counted [OF demo_New demo_run, of 0]
  by (simp add: NewChain_def metric_def new_provider_def)

theorem dispatcher_batches_witness:
  "[] @ b_buf (batcher (sh demo_closed)) = [''{}''] \<and> flushing demo_closed = 0"
  using dispatcher_batches [OF demo_New demo_run] by (simp add: flushing_def)

end
