(* ===== verification/Aliasing.thy ===== *)
theory Aliasing
  imports Workers
begin

text \<open>
  The memory behind the sources of payloads. \<^verbatim>\<open>handleIngest\<close> takes the source from \<^verbatim>\<open>c.Get\<close>, whose
  string is a view of the request buffer, and Fiber reuses that buffer once the handler has returned,
  unless its configuration says \<^verbatim>\<open>Immutable\<close>, which \<^verbatim>\<open>buildApp\<close> does not set. So the sources of the
  payloads in the channel and with the workers, and every text made of them, can change between any
  two steps (\<open>rewritten\<close>); the \<^verbatim>\<open>Data\<close> of a payload is fresh memory of \<^verbatim>\<open>json.Marshal\<close> and cannot.
  The runs \<open>aruns\<close> are those of the dispatcher with such changes in between. What does not depend on
  the sources survives them: no event is lost or duplicated and no worker dies.
\<close>

section \<open>Changed sources\<close>

definition same_data :: "Payload \<Rightarrow> Payload \<Rightarrow> bool" where
  "same_data p p' \<longleftrightarrow> p_Data p' = p_Data p"

text \<open>A worker after the change: where it was, with the same handlers to run and the same bytes.\<close>

inductive reread :: "'z pc \<Rightarrow> 'z pc \<Rightarrow> bool" where
  "reread pc pc"
| "same_data p p' \<Longrightarrow> reread (Observing p) (Observing p')"
| "same_data p p' \<Longrightarrow> Data r' = Data r \<Longrightarrow> reread (Chaining p hs r) (Chaining p' hs r')"
| "same_data p p' \<Longrightarrow> reread (Rejecting p err) (Rejecting p' err')"
| "same_data p p' \<Longrightarrow> reread (Counting deferred p reason) (Counting deferred p' reason')"
| "same_data p p' \<Longrightarrow> reread (Pushing p reason) (Pushing p' reason')"
| "same_data p p' \<Longrightarrow> reread (Recovering p m) (Recovering p' m')"
| "same_data p p' \<Longrightarrow> reread (Panic_counting p reason) (Panic_counting p' reason')"
| "same_data p p' \<Longrightarrow> reread (Adding p) (Adding p')"

definition rewritten :: "'z disp \<Rightarrow> Payload list \<Rightarrow> 'z pc list \<Rightarrow> bool" where
  "rewritten d ps pcs \<longleftrightarrow>
     list_all2 same_data (chan_buf (buf d)) ps \<and> list_all2 reread (procs d) pcs"

inductive astep :: "fmt_env \<Rightarrow> 'z disp \<Rightarrow> dlabel \<Rightarrow> 'z disp \<Rightarrow> bool" for fe where
  program: "dstep fe d l d' \<Longrightarrow> astep fe d l d'"
| reuse: "rewritten d ps pcs \<Longrightarrow>
     astep fe d Tau (d\<lparr>buf := (buf d)\<lparr>chan_buf := ps\<rparr>, procs := pcs\<rparr>)"

inductive aruns :: "fmt_env \<Rightarrow> 'z disp \<Rightarrow> dlabel list \<Rightarrow> 'z disp \<Rightarrow> bool" for fe d where
  aruns_nil: "aruns fe d [] d"
| aruns_snoc: "aruns fe d tr d' \<Longrightarrow> astep fe d' l d'' \<Longrightarrow> aruns fe d (tr @ [l]) d''"

lemma druns_aruns: "druns fe d tr d' \<Longrightarrow> aruns fe d tr d'"
  by (induction rule: druns.induct) (auto intro: aruns.intros program)

section \<open>What a change leaves alone\<close>

text \<open>The events of a list of payloads, as often as they occur.\<close>

abbreviation "events ps \<equiv> mset (map p_Data ps)"

lemma reread_held: "reread pc pc' \<Longrightarrow> map p_Data (held pc') = map p_Data (held pc)"
  by (cases rule: reread.cases) (auto simp: same_data_def)

lemma reread_place:
  assumes "reread pc pc'"
  shows "is_Ready pc' = is_Ready pc" "is_Exited pc' = is_Exited pc" "is_Crashed pc' = is_Crashed pc"
    "pc_weight n pc' = pc_weight n pc"
  using assms by (cases rule: reread.cases; simp)+

lemma same_data_events: "list_all2 same_data ps ps' \<Longrightarrow> map p_Data ps' = map p_Data ps"
  by (induction rule: list_all2_induct) (auto simp: same_data_def)

lemma reread_events:
  "list_all2 reread pcs pcs' \<Longrightarrow>
     map p_Data (concat (map held pcs')) = map p_Data (concat (map held pcs))"
  by (induction rule: list_all2_induct) (auto simp: reread_held)

lemma reread_places:
  "list_all2 reread pcs pcs' \<Longrightarrow>
     length (filter (\<lambda>pc. \<not> is_Exited pc) pcs') = length (filter (\<lambda>pc. \<not> is_Exited pc) pcs) \<and>
     ((\<forall>pc \<in> set pcs'. \<not> is_Crashed pc) \<longleftrightarrow> (\<forall>pc \<in> set pcs. \<not> is_Crashed pc)) \<and>
     sum_list (map (pc_weight n) pcs') = sum_list (map (pc_weight n) pcs)"
  by (induction rule: list_all2_induct) (auto simp: reread_place)

lemma reuse_workers_ok:
  assumes "workers_ok d" and "rewritten d ps pcs"
  shows "workers_ok (d\<lparr>buf := (buf d)\<lparr>chan_buf := ps\<rparr>, procs := pcs\<rparr>)"
  using assms reread_places [of "procs d" pcs]
  by (auto simp: workers_ok_def rewritten_def live_def dest: list_all2_lengthD)

lemma reuse_backlog:
  "rewritten d ps pcs \<Longrightarrow> backlog (d\<lparr>buf := (buf d)\<lparr>chan_buf := ps\<rparr>, procs := pcs\<rparr>) = backlog d"
  using reread_places [of "procs d" pcs]
  by (auto simp: backlog_def work_unit_def rewritten_def dest: list_all2_lengthD)

section \<open>What survives\<close>

lemma events_balance:
  assumes "mset bs + mset fs + mset ss = mset bs0 + mset fs0 + mset as"
  shows "events bs + events fs + events ss = events bs0 + events fs0 + events as"
  using arg_cong [OF assms, of "image_mset p_Data"] by simp

lemma astep_conserves:
  assumes "astep fe d l d'"
  shows "events (chan_buf (buf d')) + events (in_flight d') + events (settled1 l) =
     events (chan_buf (buf d)) + events (in_flight d) + events (accepted1 l)"
  using assms
proof cases
  case program
  then show ?thesis by (rule events_balance [OF dstep_conserves])
next
  case (reuse ps pcs)
  then show ?thesis
    using same_data_events [of "chan_buf (buf d)" ps] reread_events [of "procs d" pcs]
    by (simp add: rewritten_def in_flight_def settled1_def)
qed

lemma aruns_conserves:
  "aruns fe d tr d' \<Longrightarrow> events (chan_buf (buf d')) + events (in_flight d') + events (settled tr) =
     events (chan_buf (buf d)) + events (in_flight d) + events (accepted tr)"
proof (induction rule: aruns.induct)
  case (aruns_snoc tr d' l d'')
  from balance_trans [OF astep_conserves [OF aruns_snoc.hyps(2)] aruns_snoc.IH] show ?case by simp
qed simp

lemma astep_workers_ok: "astep fe d l d' \<Longrightarrow> workers_ok d \<Longrightarrow> workers_ok d'"
  by (auto elim!: astep.cases intro: dstep_workers_ok reuse_workers_ok)

lemma astep_static:
  "astep fe d l d' \<Longrightarrow> length (procs d') = length (procs d) \<and> (chan_closed (buf d) \<longrightarrow> chan_closed (buf d'))"
  by (auto elim!: astep.cases dest: dstep_static simp: rewritten_def list_all2_lengthD)

lemma aruns_invariant:
  "aruns fe d tr d' \<Longrightarrow> workers_ok d \<Longrightarrow> workers_ok d' \<and> length (procs d') = length (procs d)"
  by (induction rule: aruns.induct) (auto dest: astep_workers_ok astep_static)

lemma astep_backlog:
  assumes "astep fe d l d'" and "chan_closed (buf d)"
  shows "backlog d' \<le> backlog d"
  using assms by (cases rule: astep.cases) (auto simp: dstep_backlog reuse_backlog)

text \<open>
  C14: Whatever becomes of the memory behind the sources, no event is lost or duplicated: what has
  been accepted is what has been batched, what has been dead-lettered, what waits in the channel and
  what the workers hold, each as often. No worker crashes, the wait group counts the live ones, and
  once \<^verbatim>\<open>Shutdown\<close> has returned every event has been batched or dead-lettered.
\<close>

theorem events_survive_reuse:
  assumes "dispatcher_New cfg c bat q e = Ret d0" and "aruns fe d0 tr d" and "1 \<le> Workers cfg"
  shows "events (accepted tr) =
      events (batched tr) + events (dead tr) + events (chan_buf (buf d)) + events (in_flight d) \<and>
    (\<forall>pc \<in> set (procs d). \<not> is_Crashed pc) \<and> wg d = live d \<and>
    (shutdown_returns d \<longrightarrow> events (accepted tr) = events (batched tr) + events (dead tr))"
proof -
  note new = New_fresh [OF assms(1)]
  have ok: "workers_ok d" and some: "0 < length (procs d)"
    using aruns_invariant [OF assms(2)] new(1,2) assms(3) by (auto simp: fresh_def)
  have "events (settled tr) = events (batched tr) + events (dead tr)"
    using arg_cong [OF settled_mset [of tr], of "image_mset p_Data"] by simp
  with aruns_conserves [OF assms(2)] new(1)
  have all: "events (accepted tr) =
      events (batched tr) + events (dead tr) + events (chan_buf (buf d)) + events (in_flight d)"
    by (simp add: fresh_def ac_simps)
  have "chan_buf (buf d) = [] \<and> in_flight d = []" if "shutdown_returns d"
    using that ok some live_0 [of d] by (auto simp: shutdown_returns_def workers_ok_def)
  with all ok show ?thesis by (auto simp: workers_ok_def)
qed

text \<open>
  Nor does it keep \<^verbatim>\<open>Shutdown\<close> from returning: after the close a worker can make a step as long as
  the wait group is not at zero, each such step takes something from the backlog, and no step adds to it.
\<close>

lemma drain_survives_reuse:
  assumes "dispatcher_New cfg c bat q e = Ret d0" and "aruns fe d0 tr d" and "chan_closed (buf d)"
  shows "astep fe d l d' \<Longrightarrow> backlog d' \<le> backlog d" and "wstep fe d l d' \<Longrightarrow> backlog d' < backlog d"
    and "shutdown_returns d \<or> (\<exists>l d'. wstep fe d l d')"
proof -
  show "astep fe d l d' \<Longrightarrow> backlog d' \<le> backlog d" using assms(3) by (rule astep_backlog [rotated])
  show "wstep fe d l d' \<Longrightarrow> backlog d' < backlog d" by (rule wstep_backlog)
  have "workers_ok d"
    using aruns_invariant [OF assms(2)] New_fresh(1) [OF assms(1)] by (simp add: fresh_def)
  with worker_can_move [OF this assms(3)] assms(3)
  show "shutdown_returns d \<or> (\<exists>l d'. wstep fe d l d')" by (auto simp: shutdown_returns_def)
qed

text \<open>
  What does not survive is the source itself: a worker about to push a payload to the dead letter
  queue may, the request that brought it long answered, push it under any other source.
\<close>

lemma dead_letter_under_another_source:
  assumes "i < length (procs d)" and "procs d ! i = Pushing p reason" and "p_Data p' = p_Data p"
  shows "\<exists>d'. aruns fe d [Tau, Dead p'] d'"
proof -
  let ?pcs = "(procs d)[i := Pushing p' reason]"
  have "reread (Pushing p reason) (Pushing p' reason)"
    by (rule reread.intros) (simp add: same_data_def assms(3))
  then have "list_all2 reread (procs d) ?pcs"
    using assms(1,2) by (simp add: list_all2_conv_all_nth nth_list_update reread.intros(1))
  moreover have "list_all2 same_data ps ps" for ps by (rule list_all2_refl) (simp add: same_data_def)
  ultimately have "astep fe d Tau (d\<lparr>buf := (buf d)\<lparr>chan_buf := chan_buf (buf d)\<rparr>, procs := ?pcs\<rparr>)"
    by (intro reuse) (simp add: rewritten_def)
  then have first: "aruns fe d [Tau] (d\<lparr>procs := ?pcs\<rparr>)" using aruns_snoc [OF aruns_nil] by fastforce
  obtain d' where "worker_move fe \<lparr>wall = 0, wr = Written, stack = []\<rparr> i (d\<lparr>procs := ?pcs\<rparr>) = Some (Dead p', d')"
    using assms(1) by (simp add: worker_move_def)
  then have "wstep fe (d\<lparr>procs := ?pcs\<rparr>) (Dead p') d'" using assms(1) by (auto intro: wmove)
  from aruns_snoc [OF first program [OF dstep.work [OF this]]] show ?thesis by auto
qed

abbreviation demo_other :: Payload where
  "demo_other \<equiv> \<lparr>p_Source = ''b'', p_Data = ''{}''\<rparr>"

lemma demo_reused:
  "aruns fe demo_start [Accept demo_payload, Tau] (demo_start\<lparr>procs := [Observing demo_other], observers := 1\<rparr>)"
proof -
  let ?d1 = "demo_start\<lparr>procs := [Observing demo_payload], observers := 1\<rparr>"
  have "dstep fe demo_start (Accept demo_payload) ?d1"
    by (rule accept [of "Some 0"]) (simp_all add: parked_ok_def submit_send_def try_send_def)
  note first = aruns_snoc [OF aruns_nil program [OF this]]
  have "rewritten ?d1 [] [Observing demo_other]"
    by (auto simp: rewritten_def same_data_def intro: reread.intros)
  from aruns_snoc [OF first reuse [OF this]] show ?thesis by simp
qed

theorem events_survive_reuse_witness:
  "events (accepted [Accept demo_payload, Tau]) = {#''{}''#} \<and> demo_other \<noteq> demo_payload"
  using events_survive_reuse [OF demo_New demo_reused] by (simp add: in_flight_def)

end
