(* ===== verification/Schema.thy ===== *)
theory Schema
  imports Middleware Jsonvalue
begin

text \<open>
  Package \<^verbatim>\<open>internal/middleware\<close>, file \<^verbatim>\<open>middleware.go\<close>, the two validators: the
  handlers \<^verbatim>\<open>SchemaValidator\<close> and \<^verbatim>\<open>TypeChecker\<close>. Both decode the payload into a
  \<^verbatim>\<open>map[string]any\<close> and look at well-known fields; neither changes anything. The property:
  the payloads that pass both are exactly the JSON objects with the four required fields in order.
\<close>

section \<open>SchemaValidator\<close>

definition schema_required :: "bytes list" where
  "schema_required = [''id'', ''source'', ''event_type'', ''timestamp_ms'']"

definition op_error :: "bytes \<Rightarrow> msg \<Rightarrow> error" where
  "op_error op m = Errorf ([Lit op] @ m) None"

definition invalid_json :: "bytes \<Rightarrow> lib_error \<Rightarrow> error" where
  "invalid_json op e = errorf_w [Lit op, Lit '': invalid JSON: ''] (Lib_error e)"

definition missing_field :: "bytes \<Rightarrow> error" where
  "missing_field key = op_error ''SchemaValidator'' [Lit '': missing required field '', Quoted key]"

definition schema_field :: "(bytes \<rightharpoonup> any) \<Rightarrow> bytes \<Rightarrow> error option" where
  "schema_field m key =
     (case m key of
        None \<Rightarrow> Some (missing_field key)
      | Some A_nil \<Rightarrow> Some (missing_field key)
      | Some (A_string s) \<Rightarrow>
          if s = [] then Some (op_error ''SchemaValidator''
            [Lit '': field '', Quoted key, Lit '' must not be empty'']) else None
      | Some (A_float raw) \<Rightarrow>
          if num_zero raw then Some (op_error ''SchemaValidator''
            [Lit '': field '', Quoted key, Lit '' must not be zero'']) else None
      | Some _ \<Rightarrow> None)"

definition schema_check :: "Result \<Rightarrow> error option" where
  "schema_check r =
     (case unmarshal_map (Data r) of
        Inl e \<Rightarrow> Some (invalid_json ''SchemaValidator'' e)
      | Inr m \<Rightarrow> first_error (map (schema_field m) schema_required))"

definition SchemaValidator :: "'z handler" where
  "SchemaValidator = pure_handler schema_check"

section \<open>TypeChecker\<close>

text \<open>What \<^verbatim>\<open>%T\<close> prints for a decoded value.\<close>

fun type_name :: "any \<Rightarrow> bytes" where
  "type_name A_nil = ''<nil>''"
| "type_name (A_bool b) = ''bool''"
| "type_name (A_float raw) = ''float64''"
| "type_name (A_string s) = ''string''"
| "type_name (A_slice vs) = ''[]interface {}''"
| "type_name (A_map ms) = ''map[string]interface {}''"

definition wrong_type :: "bytes \<Rightarrow> bytes \<Rightarrow> any \<Rightarrow> error" where
  "wrong_type key expected v = op_error ''TypeChecker''
     [Lit '': field '', Quoted key, Lit '' must be a '', Lit expected, Lit '', got '', Lit (type_name v)]"

definition string_field :: "(bytes \<rightharpoonup> any) \<Rightarrow> bytes \<Rightarrow> error option" where
  "string_field m key =
     (case m key of
        None \<Rightarrow> None
      | Some (A_string s) \<Rightarrow> None
      | Some v \<Rightarrow> Some (wrong_type key ''string'' v))"

definition number_field :: "(bytes \<rightharpoonup> any) \<Rightarrow> bytes \<Rightarrow> error option" where
  "number_field m key =
     (case m key of
        None \<Rightarrow> None
      | Some (A_float raw) \<Rightarrow> None
      | Some v \<Rightarrow> Some (wrong_type key ''number'' v))"

definition string_fields :: "bytes list" where
  "string_fields = [''id'', ''source'', ''event_type'']"

definition type_check :: "Result \<Rightarrow> error option" where
  "type_check r =
     (case unmarshal_map (Data r) of
        Inl e \<Rightarrow> Some (invalid_json ''TypeChecker'' e)
      | Inr m \<Rightarrow> first_error (map (string_field m) string_fields @ [number_field m ''timestamp_ms'']))"

definition TypeChecker :: "'z handler" where
  "TypeChecker = pure_handler type_check"

section \<open>What passes\<close>

text \<open>The events the pipeline is meant to let through.\<close>

definition complete_event :: "(bytes \<rightharpoonup> any) \<Rightarrow> bool" where
  "complete_event m \<longleftrightarrow>
     (\<exists>i src et ts. m ''id'' = Some (A_string i) \<and> i \<noteq> [] \<and> m ''source'' = Some (A_string src) \<and>
        src \<noteq> [] \<and> m ''event_type'' = Some (A_string et) \<and> et \<noteq> [] \<and>
        m ''timestamp_ms'' = Some (A_float ts) \<and> \<not> num_zero ts)"

lemma schema_field_None:
  "schema_field m key = None \<longleftrightarrow>
     (\<exists>v. m key = Some v \<and> v \<noteq> A_nil \<and> v \<noteq> A_string [] \<and> (\<forall>raw. v = A_float raw \<longrightarrow> \<not> num_zero raw))"
  by (auto simp: schema_field_def split: option.split any.split)

lemma string_field_None: "string_field m key = None \<longleftrightarrow> (\<forall>v. m key = Some v \<longrightarrow> (\<exists>s. v = A_string s))"
  by (auto simp: string_field_def split: option.split any.split)

lemma number_field_None: "number_field m key = None \<longleftrightarrow> (\<forall>v. m key = Some v \<longrightarrow> (\<exists>raw. v = A_float raw))"
  by (auto simp: number_field_def split: option.split any.split)

lemma checks_complete:
  "(\<forall>key \<in> set schema_required. schema_field m key = None) \<and>
   (\<forall>key \<in> set string_fields. string_field m key = None) \<and> number_field m ''timestamp_ms'' = None \<longleftrightarrow>
   complete_event m"
  by (auto simp: schema_required_def string_fields_def schema_field_None string_field_None
      number_field_None complete_event_def)

text \<open>What the chain of the two validators says of a payload.\<close>

definition verdict :: "bytes \<Rightarrow> error option" where
  "verdict data =
     (let r = \<lparr>Source = [], Data = data, Errors = []\<rparr>
      in case schema_check r of Some e \<Rightarrow> Some e | None \<Rightarrow> type_check r)"

lemma check_data: "schema_check r = schema_check (r\<lparr>Source := s, Errors := es\<rparr>)"
    "type_check r = type_check (r\<lparr>Source := s, Errors := es\<rparr>)"
  by (simp_all add: schema_check_def type_check_def)

lemma run_validators:
  "run_handlers [SchemaValidator, TypeChecker] r s = (Ret (verdict (Data r)), r, s)"
proof -
  have eq: "schema_check r = schema_check \<lparr>Source = [], Data = Data r, Errors = []\<rparr>"
      "type_check r = type_check \<lparr>Source = [], Data = Data r, Errors = []\<rparr>"
    by (simp_all add: schema_check_def type_check_def)
  show ?thesis
    using run_pure [of "[schema_check, type_check]" r s]
    by (simp add: SchemaValidator_def TypeChecker_def verdict_def Let_def eq split: option.split)
qed

lemma verdict_None:
  "verdict data = None \<longleftrightarrow> (\<exists>m. unmarshal_map data = Inr m \<and> complete_event m)"
proof (cases "unmarshal_map data")
  case (Inl e)
  then show ?thesis by (simp add: verdict_def schema_check_def Let_def)
next
  case (Inr m)
  then have "verdict data = None \<longleftrightarrow>
      first_error (map (schema_field m) schema_required) = None \<and>
      first_error (map (string_field m) string_fields @ [number_field m ''timestamp_ms'']) = None"
    by (simp add: verdict_def schema_check_def type_check_def Let_def split: option.split)
  also have "\<dots> \<longleftrightarrow> (\<forall>key \<in> set schema_required. schema_field m key = None) \<and>
      (\<forall>key \<in> set string_fields. string_field m key = None) \<and> number_field m ''timestamp_ms'' = None"
    unfolding first_error_None by auto
  finally show ?thesis using Inr checks_complete [of m] by simp
qed

text \<open>
  C40: the two validators together let through exactly the payloads that are JSON objects, every
  number in them within the range of \<^verbatim>\<open>float64\<close>, whose last members named id, source and
  event_type are non-empty strings and whose last timestamp_ms is a number that is not zero; they
  change neither the result nor any state, and never panic.
\<close>

theorem validators_accept:
  "\<exists>v. run_handlers [SchemaValidator, TypeChecker] r s = (Ret v, r, s) \<and>
     (v = None \<longleftrightarrow> (\<exists>m. unmarshal_map (Data r) = Inr m \<and> complete_event m))"
  by (intro exI [of _ "verdict (Data r)"] conjI run_validators verdict_None)

end
