(* ===== verification/Translator.thy ===== *)
theory Translator
  imports Schema Xlerr
begin

text \<open>
  Package \<^verbatim>\<open>internal/translator\<close>: the canonical \<^verbatim>\<open>Event\<close>, the registry of inbound
  translators with its fallback, \<^verbatim>\<open>Passthrough\<close> and \<^verbatim>\<open>JSONOutbound\<close>. A translator is any
  function the program registers; it is given the readings of the clock it makes. The registry is
  a map with a default, whose laws are the locale \<open>selection\<close>. The lemmas end in what connects
  this package with the validators: which marshalled events pass them.
\<close>

section \<open>Events and their JSON\<close>

text \<open>Times are nanoseconds since 1970; a nil \<^verbatim>\<open>Body\<close> is \<open>None\<close>.\<close>

record Event =
  ID :: bytes
  ev_Source :: bytes
  EventType :: bytes
  TimestampMS :: int
  ev_ReceivedAt :: int
  Body :: "bytes option"

definition body_json :: "Event \<Rightarrow> bytes option" where
  "body_json e = (case Body e of None \<Rightarrow> Some ''null'' | Some b \<Rightarrow> compact b)"

text \<open>\<^verbatim>\<open>json.Marshal(event)\<close>: it fails on a body that is not JSON and on a time out of range.\<close>

definition marshal_event :: "Event \<Rightarrow> lib_error + bytes" where
  "marshal_event e =
     (case (time_json (ev_ReceivedAt e), body_json e) of
        (Some t, Some b) \<Rightarrow>
          Inr (''{'' @ str_member ''id'' (ID e) @ '','' @ str_member ''source'' (ev_Source e) @ '','' @
            str_member ''event_type'' (EventType e) @ '','' @
            json_key ''timestamp_ms'' @ itoa (TimestampMS e) @ '','' @
            json_key ''received_at'' @ t @ '','' @ json_key ''body'' @ b @ ''}'')
      | _ \<Rightarrow> Inl Json_marshaler)"

definition JSONOutbound_Marshal :: "Event \<Rightarrow> error + bytes" where
  "JSONOutbound_Marshal e = (case marshal_event e of Inl x \<Rightarrow> Inl (Lib_error x) | Inr b \<Rightarrow> Inr b)"

section \<open>The registry\<close>

record readings =
  now_ts :: int             \<comment> \<open>the reading that may become the timestamp\<close>
  now_received :: int

text \<open>
  An implementation of the interface returns an event or an error. One registered from outside that
  panics, or returns neither, is not such a function and is not modelled.
\<close>

type_synonym translator = "readings \<Rightarrow> bytes \<Rightarrow> bytes \<Rightarrow> error + Event"

record Registry =
  translators :: "bytes \<rightharpoonup> translator"
  fallback :: translator

definition Register :: "bytes \<Rightarrow> translator \<Rightarrow> Registry \<Rightarrow> Registry" where
  "Register source t r = r\<lparr>translators := (translators r)(source \<mapsto> t)\<rparr>"

definition selected :: "Registry \<Rightarrow> bytes \<Rightarrow> translator" where
  "selected r source = (case translators r source of Some t \<Rightarrow> t | None \<Rightarrow> fallback r)"

definition Translate :: "Registry \<Rightarrow> translator" where
  "Translate r tm source raw = selected r source tm source raw"

text \<open>
  What the ingestors rely on: after any sequence of registrations a source gets the translator
  registered for it last, or the default.
\<close>

locale selection =
  fixes select :: "'r \<Rightarrow> 'k \<Rightarrow> 'v"
    and register :: "'k \<Rightarrow> 'v \<Rightarrow> 'r \<Rightarrow> 'r"
    and start :: 'r
    and default :: 'v
  assumes select_register: "select (register k v r) k' = (if k' = k then v else select r k')"
    and select_start: "select start k = default"
begin

lemma select_fold:
  "select (fold (\<lambda>(k, v). register k v) kvs r) k =
     (case map_of (rev kvs) k of Some v \<Rightarrow> v | None \<Rightarrow> select r k)"
proof (induction kvs arbitrary: r)
  case (Cons kv kvs)
  then show ?case
    by (cases kv) (auto simp: map_add_def select_register split: option.split)
qed simp

lemma select_history:
  "select (fold (\<lambda>(k, v). register k v) kvs start) k =
     (case map_of (rev kvs) k of Some v \<Rightarrow> v | None \<Rightarrow> default)"
  by (simp add: select_fold select_start split: option.split)

end

section \<open>Passthrough\<close>

text \<open>
  The fields of the envelope are found by name up to case: \<^verbatim>\<open>encoding/json\<close> folds every rune to
  the smallest of its case orbit, which for the letters of the names means the capital letter;
  U+017F and U+212A are in the orbits of s and k.
\<close>

record envelope =
  en_type :: bytes
  en_ts :: int
  en_body :: "bytes option"

function runes :: "bytes \<Rightarrow> nat list" where
  "runes [] = []"
| "runes (c # s) = (let (r, n) = decode_rune (c # s) in r # runes (drop n (c # s)))"
  by pat_completeness auto
termination
  by (relation "measure length") (auto dest: sym [THEN decode_shorter])

definition fold_rune :: "nat \<Rightarrow> nat" where
  "fold_rune r =
     (if 97 \<le> r \<and> r \<le> 122 then r - 32 else if r = 383 then 83 else if r = 8490 then 75 else r)"

definition names_field :: "bytes \<Rightarrow> bytes \<Rightarrow> bool" where
  "names_field name key \<longleftrightarrow> map fold_rune (runes key) = map (\<lambda>c. fold_rune (byte c)) name"

text \<open>
  Decoding one member into the envelope: the new envelope and whether its type is wrong; null
  leaves a string or an integer as it is. Decoding goes on after a wrong type and reports it at
  the end.
\<close>

definition decode_member :: "bytes \<times> bytes \<times> json \<Rightarrow> envelope \<Rightarrow> bool \<times> envelope" where
  "decode_member m env =
     (case m of (k, raw, v) \<Rightarrow>
        let key = unquote k in
        if names_field ''event_type'' key then
          (case v of JStr s \<Rightarrow> (False, env\<lparr>en_type := unquote s\<rparr>) | JNull \<Rightarrow> (False, env) | _ \<Rightarrow> (True, env))
        else if names_field ''timestamp_ms'' key then
          (case v of
             JNum n \<Rightarrow> (case int_literal n of Some x \<Rightarrow> (False, env\<lparr>en_ts := x\<rparr>) | None \<Rightarrow> (True, env))
           | JNull \<Rightarrow> (False, env) | _ \<Rightarrow> (True, env))
        else if names_field ''body'' key then (False, env\<lparr>en_body := Some raw\<rparr>)
        else (False, env))"

fun decode_members :: "(bytes \<times> bytes \<times> json) list \<Rightarrow> envelope \<Rightarrow> bool \<times> envelope" where
  "decode_members [] env = (False, env)"
| "decode_members (m # ms) env =
     (let (bad, env1) = decode_member m env; (bad', env2) = decode_members ms env1 in (bad \<or> bad', env2))"

definition unmarshal_envelope :: "bytes \<Rightarrow> lib_error + envelope" where
  "unmarshal_envelope s =
     (let zero = \<lparr>en_type = [], en_ts = 0, en_body = None\<rparr> in
      case parse s of
        None \<Rightarrow> Inl Json_syntax
      | Some JNull \<Rightarrow> Inr zero
      | Some (JObj ms) \<Rightarrow>
          (let (bad, env) = decode_members ms zero in if bad then Inl Json_unmarshal_type else Inr env)
      | Some _ \<Rightarrow> Inl Json_unmarshal_type)"

definition malformed :: "bytes \<Rightarrow> lib_error \<Rightarrow> error" where
  "malformed source e =
     errorf_w [Lit ''passthrough translator: malformed JSON from source '', Quoted source, Lit '': ''] (Lib_error e)"

definition Passthrough :: translator where
  "Passthrough tm source raw =
     (case unmarshal_envelope raw of
        Inl e \<Rightarrow> Inl (malformed source e)
      | Inr env \<Rightarrow>
          (let ts = (if en_ts env = 0 then now_ts tm div 1000000 else en_ts env);
               body = (case en_body env of None \<Rightarrow> raw | Some b \<Rightarrow> if b = [] then raw else b)
           in Inr \<lparr>ID = [], ev_Source = source, EventType = en_type env, TimestampMS = ts,
                ev_ReceivedAt = now_received tm, Body = Some body\<rparr>))"

definition NewRegistry :: Registry where
  "NewRegistry = \<lparr>translators = Map.empty, fallback = Passthrough\<rparr>"

interpretation registry: selection selected Register NewRegistry Passthrough
  by unfold_locales (auto simp: selected_def Register_def NewRegistry_def split: option.split)

text \<open>
  The registry hands every source to the translator registered for it last, whatever was
  registered for others in between, and to \<^verbatim>\<open>Passthrough\<close> when there is none.
\<close>

lemma registry_selects:
  "Translate (fold (\<lambda>(k, t). Register k t) regs NewRegistry) tm source raw =
     (case map_of (rev regs) source of
        Some t \<Rightarrow> t tm source raw
      | None \<Rightarrow> Passthrough tm source raw)"
  by (simp add: Translate_def registry.select_history split: option.split)

section \<open>The JSON of an event is read back\<close>

text \<open>The tree of the body: what \<^verbatim>\<open>json.Marshal\<close> parses before it compacts.\<close>

definition body_tree :: "Event \<Rightarrow> json option" where
  "body_tree e = (case Body e of None \<Rightarrow> Some JNull | Some b \<Rightarrow> parse b)"

definition event_tree :: "Event \<Rightarrow> bytes \<Rightarrow> json \<Rightarrow> json" where
  "event_tree e t v = JObj
     [member ''id'' (JStr (json_escape (ID e))), member ''source'' (JStr (json_escape (ev_Source e))),
      member ''event_type'' (JStr (json_escape (EventType e))),
      member ''timestamp_ms'' (JNum (itoa (TimestampMS e))), member ''received_at'' (JStr t),
      member ''body'' (compact_json v)]"

definition event_map :: "Event \<Rightarrow> bytes \<Rightarrow> json \<Rightarrow> bytes \<rightharpoonup> any" where
  "event_map e t v =
     [''id'' \<mapsto> A_string (to_utf8 (ID e)), ''source'' \<mapsto> A_string (to_utf8 (ev_Source e)),
      ''event_type'' \<mapsto> A_string (to_utf8 (EventType e)),
      ''timestamp_ms'' \<mapsto> A_float (itoa (TimestampMS e)), ''received_at'' \<mapsto> A_string (unquote t),
      ''body'' \<mapsto> any_of (compact_json v)]"

lemma body_json_tree:
  "body_json e = Some b \<longleftrightarrow> (\<exists>v. body_tree e = Some v \<and> b = print_json (compact_json v))"
  by (auto simp: body_json_def body_tree_def compact_Some split: option.splits)

lemma marshal_event_works:
  "(\<exists>data. marshal_event e = Inr data) \<longleftrightarrow> time_json (ev_ReceivedAt e) \<noteq> None \<and> body_tree e \<noteq> None"
proof -
  have "body_json e \<noteq> None \<longleftrightarrow> body_tree e \<noteq> None"
    using body_json_tree [of e] by auto
  then show ?thesis by (auto simp: marshal_event_def split: option.splits)
qed

lemma marshal_event_tree:
  assumes "marshal_event e = Inr data"
  shows "\<exists>t v. body_tree e = Some v \<and> str_ok t \<and> data = print_json (event_tree e t v)"
proof -
  from assms obtain tj b where p: "time_json (ev_ReceivedAt e) = Some tj" "body_json e = Some b"
    by (auto simp: marshal_event_def split: option.splits)
  from time_json_text [OF p(1)] obtain t where t: "tj = quot # t @ [quot]" "str_ok t" by blast
  from p(2) obtain v where v: "body_tree e = Some v" "b = print_json (compact_json v)"
    unfolding body_json_tree by blast
  have "data = print_json (event_tree e t v)"
    using assms p t(1) v(2)
    by (simp add: marshal_event_def event_tree_def member_def str_member_def json_key_def json_string_def)
  with t v show ?thesis by blast
qed

lemma body_tree_wf: "body_tree e = Some v \<Longrightarrow> wf_json max_depth v"
  by (auto simp: body_tree_def parse_wf split: option.splits)

lemma event_keys_ok [simp]:
  "str_ok ''id''" "str_ok ''source''" "str_ok ''event_type''" "str_ok ''timestamp_ms''"
  "str_ok ''received_at''" "str_ok ''body''"
  by (rule plain_str_ok, simp add: plain_char_def)+

lemma event_tree_wf:
  assumes "wf_json max_depth v" and "str_ok t" and "0 < d"
  shows "wf_json d (event_tree e t v) \<longleftrightarrow> nesting v \<le> d - 1" and "canonical (event_tree e t v)"
proof -
  have wf: "wf_json max_depth (compact_json v)" "canonical (compact_json v)"
    using compact_json_wf [OF assms(1)] by auto
  show "wf_json d (event_tree e t v) \<longleftrightarrow> nesting v \<le> d - 1"
    using wf_nesting [OF wf(1), of "d - 1"] assms compact_json_same [of v]
    by (simp add: event_tree_def member_def json_escape_ok itoa_num_ok)
  show "canonical (event_tree e t v)" using wf(2) by (simp add: event_tree_def member_def)
qed

lemma event_parse:
  assumes "marshal_event e = Inr data" and "body_tree e = Some v"
  shows "parse data = (if nesting v < max_depth then parse data else None)"
    and "nesting v < max_depth \<Longrightarrow> \<exists>t. parse data = Some (event_tree e t v)"
proof -
  obtain t where t: "str_ok t" "data = print_json (event_tree e t v)"
    using marshal_event_tree [OF assms(1)] assms(2) by auto
  let ?T = "event_tree e t v"
  note wf = body_tree_wf [OF assms(2)]
  have pos: "0 < max_depth" "0 < Suc max_depth" by (simp_all add: max_depth_def)
  show "\<exists>t. parse data = Some (event_tree e t v)" if "nesting v < max_depth"
    using parse_print [of ?T] event_tree_wf [OF wf t(1) pos(1)] that t(2) by auto
  have "nesting v < max_depth" if "parse data = Some T" for T
  proof -
    from that obtain r where T: "value_at max_depth (skip_ws data) T r" "skip_ws r = []"
      by (auto simp: parse_def parser_is_grammar split: option.splits if_splits)
    have deep: "wf_json (Suc max_depth) ?T" "canonical ?T"
      using event_tree_wf [OF wf t(1) pos(2)] wf_nesting [OF wf, of max_depth] wf by auto
    then have "num_stop [] \<longrightarrow> value_at (Suc max_depth) (data @ []) ?T []"
      using print_reads_back [OF deep] t(2) unfolding reads_back_def by blast
    then have "parse_value (Suc max_depth) data = Some (?T, [])" by (simp add: at_parse(1))
    moreover have "skip_ws data = data" using skip_ws_print [OF deep(1), of "[]"] t(2) by simp
    then have "value_at (Suc max_depth) data T r" using at_deeper(1) [OF T(1)] by simp
    then have "parse_value (Suc max_depth) data = Some (T, r)" by (rule at_parse(1))
    ultimately have "T = ?T" by simp
    then have "wf_json max_depth ?T" using at_wf(1) [OF T(1)] by simp
    then show ?thesis using event_tree_wf(1) [OF wf t(1) pos(1)] pos by auto
  qed
  then show "parse data = (if nesting v < max_depth then parse data else None)"
    by (cases "parse data") auto
qed

lemma unquote_keys [simp]:
  "unquote ''id'' = ''id''" "unquote ''source'' = ''source''" "unquote ''event_type'' = ''event_type''"
  "unquote ''timestamp_ms'' = ''timestamp_ms''" "unquote ''received_at'' = ''received_at''"
  "unquote ''body'' = ''body''"
  by (simp_all add: unquote_plain)

lemma event_unmarshal:
  assumes "parse data = Some (event_tree e t v)" and "in_int64 (TimestampMS e)"
  shows "unmarshal_map data = (if in_range v then Inr (event_map e t v) else Inl Json_unmarshal_type)"
  using assms compact_json_same [of v] itoa_in_range [OF assms(2)]
  by (simp add: unmarshal_map_def event_tree_def member_def event_map_def unquote_json_escape map_add_def)

lemma event_map_complete:
  "complete_event (event_map e t v) \<longleftrightarrow>
     ID e \<noteq> [] \<and> ev_Source e \<noteq> [] \<and> EventType e \<noteq> [] \<and> TimestampMS e \<noteq> 0"
  by (simp add: complete_event_def event_map_def itoa_zero)

lemma event_verdict:
  assumes "marshal_event e = Inr data" and "body_tree e = Some v" and "in_int64 (TimestampMS e)"
  shows "verdict data = None \<longleftrightarrow>
    ID e \<noteq> [] \<and> ev_Source e \<noteq> [] \<and> EventType e \<noteq> [] \<and> TimestampMS e \<noteq> 0 \<and>
    nesting v < max_depth \<and> in_range v"
proof (cases "nesting v < max_depth")
  case True
  then obtain t where "parse data = Some (event_tree e t v)" using event_parse(2) [OF assms(1,2)] by blast
  then show ?thesis
    using event_unmarshal [OF _ assms(3)] True by (auto simp: verdict_None event_map_complete)
next
  case False
  then have "parse data = None" using event_parse(1) [OF assms(1,2)] by simp
  then show ?thesis using False by (simp add: verdict_None unmarshal_map_def)
qed

text \<open>
  C38: what the ingestors send down the pipeline passes the validators exactly when the event has
  an id, a source, a type and a timestamp, its body leaves room for one more level of nesting and
  every number in the body is within the range of \<^verbatim>\<open>float64\<close>.
\<close>

theorem marshalled_event_verdict:
  assumes "marshal_event e = Inr data" and "body_tree e = Some v" and "in_int64 (TimestampMS e)"
  shows "verdict data = None \<longleftrightarrow>
    ID e \<noteq> [] \<and> ev_Source e \<noteq> [] \<and> EventType e \<noteq> [] \<and> TimestampMS e \<noteq> 0 \<and>
    nesting v < max_depth \<and> in_range v"
  using assms by (rule event_verdict)

theorem marshalled_event_verdict_witness:
  "\<exists>data. marshal_event \<lparr>ID = ''1'', ev_Source = ''web'', EventType = ''click'', TimestampMS = 5,
       ev_ReceivedAt = 0, Body = Some ''[1,{}]''\<rparr> = Inr data \<and> verdict data = None"
proof -
  let ?v = "JArr [JNum ''1'', JObj []]"
  let ?e = "\<lparr>ID = ''1'', ev_Source = ''web'', EventType = ''click'', TimestampMS = 5,
       ev_ReceivedAt = 0, Body = Some ''[1,{}]''\<rparr>"
  have "num_ok ''1''" by code_simp
  then have "wf_json max_depth ?v" by (simp add: max_depth_def)
  then have "parse (print_json ?v) = Some ?v" by (rule parse_print) simp
  moreover have "print_json ?v = ''[1,{}]''" by simp
  ultimately have tree: "body_tree ?e = Some ?v" by (simp add: body_tree_def)
  have "time_json (ev_ReceivedAt ?e) \<noteq> None" by code_simp
  moreover have "body_tree ?e \<noteq> None" unfolding tree by simp
  ultimately obtain data where data: "marshal_event ?e = Inr data"
    using marshal_event_works [of ?e] by blast
  have "nesting ?v < max_depth" by (simp add: max_depth_def)
  moreover have "itoa 1 = ''1''" by code_simp
  then have "in_range ?v" using itoa_in_range [of 1] by (simp add: in_int64_def int64_min_def int64_max_def)
  moreover have "in_int64 5" by code_simp
  ultimately have "verdict data = None"
    using marshalled_event_verdict [OF data tree] by simp
  with data show ?thesis by blast
qed
section \<open>What Passthrough accepts and makes\<close>

text \<open>A member of the wrong type for the field it names.\<close>

definition wrong_member :: "bytes \<times> bytes \<times> json \<Rightarrow> bool" where
  "wrong_member m \<longleftrightarrow> fst (decode_member m \<lparr>en_type = [], en_ts = 0, en_body = None\<rparr>)"

lemma decode_member_wrong: "fst (decode_member m env) = wrong_member m"
  by (cases m) (auto simp: wrong_member_def decode_member_def Let_def split: json.split option.split)

lemma decode_members_wrong: "fst (decode_members ms env) \<longleftrightarrow> (\<exists>m \<in> set ms. wrong_member m)"
  by (induction ms arbitrary: env) (auto simp: split_beta Let_def decode_member_wrong)

text \<open>What the envelope can hold once decoded.\<close>

definition envelope_ok :: "(bytes \<times> bytes \<times> json) list \<Rightarrow> envelope \<Rightarrow> bool" where
  "envelope_ok ms env \<longleftrightarrow> in_int64 (en_ts env) \<and>
     (\<forall>b. en_body env = Some b \<longrightarrow> (\<exists>k v. (k, b, v) \<in> set ms))"

lemma int_literal_range: "int_literal raw = Some x \<Longrightarrow> in_int64 x"
  by (auto simp: int_literal_def Let_def split: if_splits)

lemma decode_member_ok:
  "m \<in> set ms \<Longrightarrow> envelope_ok ms env \<Longrightarrow> envelope_ok ms (snd (decode_member m env))"
  by (cases m) (auto simp: envelope_ok_def decode_member_def Let_def int_literal_range
      split: json.splits option.splits)

lemma decode_members_ok:
  "set ms' \<subseteq> set ms \<Longrightarrow> envelope_ok ms env \<Longrightarrow> envelope_ok ms (snd (decode_members ms' env))"
  by (induction ms' arbitrary: env) (auto simp: split_beta Let_def decode_member_ok)

lemma empty_envelope_ok: "envelope_ok ms \<lparr>en_type = [], en_ts = 0, en_body = None\<rparr>"
  by (simp add: envelope_ok_def in_int64_def int64_min_def int64_max_def)

lemma unmarshal_envelope_Inr:
  assumes "unmarshal_envelope raw = Inr env"
  obtains ms where "envelope_ok ms env"
    and "(parse raw = Some JNull \<and> ms = [] \<and> en_type env = []) \<or> (parse raw = Some (JObj ms) \<and> (\<forall>m \<in> set ms. \<not> wrong_member m))"
proof -
  from assms consider "parse raw = Some JNull" "env = \<lparr>en_type = [], en_ts = 0, en_body = None\<rparr>"
    | ms where "parse raw = Some (JObj ms)" "decode_members ms \<lparr>en_type = [], en_ts = 0, en_body = None\<rparr> = (False, env)"
    by (auto simp: unmarshal_envelope_def Let_def split: option.splits json.splits prod.splits if_splits)
  then show ?thesis
  proof cases
    case 1
    with empty_envelope_ok that [of "[]"] show ?thesis by simp
  next
    case (2 ms)
    with decode_members_ok [OF subset_refl empty_envelope_ok, of ms]
      decode_members_wrong [of ms "\<lparr>en_type = [], en_ts = 0, en_body = None\<rparr>"] that [of ms]
    show ?thesis by auto
  qed
qed

lemma unmarshal_envelope_Inl:
  "unmarshal_envelope raw = Inl x \<longleftrightarrow>
     (case parse raw of
        None \<Rightarrow> x = Json_syntax
      | Some t \<Rightarrow> x = Json_unmarshal_type \<and> t \<noteq> JNull \<and>
          (case t of JObj ms \<Rightarrow> \<exists>m \<in> set ms. wrong_member m | _ \<Rightarrow> True))"
proof (cases "parse raw")
  case (Some t)
  then show ?thesis
  proof (cases t)
    case (JObj ms)
    then show ?thesis
      using Some decode_members_wrong [of ms "\<lparr>en_type = [], en_ts = 0, en_body = None\<rparr>"]
      by (simp add: unmarshal_envelope_def split_beta) blast
  qed (auto simp: unmarshal_envelope_def)
qed (auto simp: unmarshal_envelope_def)

lemma malformed_says:
  "mentions (err_text (malformed source x)) source" "errors_Is (Some (malformed source x)) (Lib_error x)"
  by (simp_all add: malformed_def errorf_w_def mentions_def errors_Is_def)

lemma Passthrough_Inr:
  "Passthrough tm source raw = Inr e \<longleftrightarrow>
     (\<exists>env. unmarshal_envelope raw = Inr env \<and>
        e = \<lparr>ID = [], ev_Source = source, EventType = en_type env,
          TimestampMS = (if en_ts env = 0 then now_ts tm div 1000000 else en_ts env),
          ev_ReceivedAt = now_received tm,
          Body = Some (case en_body env of None \<Rightarrow> raw | Some b \<Rightarrow> if b = [] then raw else b)\<rparr>)"
  unfolding Passthrough_def Let_def by (cases "unmarshal_envelope raw") auto

lemma Passthrough_Inl:
  "Passthrough tm source raw = Inl err \<longleftrightarrow> (\<exists>x. unmarshal_envelope raw = Inl x \<and> err = malformed source x)"
  unfolding Passthrough_def Let_def by (cases "unmarshal_envelope raw") auto

lemma Passthrough_body:
  assumes "Passthrough tm source raw = Inr e"
  shows "\<exists>v. body_tree e = Some v"
proof -
  from assms obtain env where env: "unmarshal_envelope raw = Inr env"
      "Body e = Some (case en_body env of None \<Rightarrow> raw | Some b \<Rightarrow> if b = [] then raw else b)"
    unfolding Passthrough_Inr by auto
  from unmarshal_envelope_Inr [OF env(1)] obtain ms where ms: "envelope_ok ms env"
      "(parse raw = Some JNull \<and> ms = []) \<or> parse raw = Some (JObj ms)" by blast
  then have "\<exists>v. parse raw = Some v" by blast
  moreover have "\<exists>v. parse b = Some v" if "en_body env = Some b" for b
    using ms that member_text [of raw ms] unfolding envelope_ok_def by fastforce
  ultimately show ?thesis using env(2) by (auto simp: body_tree_def split: option.split)
qed

definition clock_ok :: "readings \<Rightarrow> bool" where
  "clock_ok tm \<longleftrightarrow> 1000000 \<le> now_ts tm \<and> in_int64 (now_ts tm)"

lemma Passthrough_ts:
  assumes "Passthrough tm source raw = Inr e" and "clock_ok tm"
  shows "TimestampMS e \<noteq> 0 \<and> in_int64 (TimestampMS e)"
proof -
  from assms(1) obtain env where env: "unmarshal_envelope raw = Inr env"
      "TimestampMS e = (if en_ts env = 0 then now_ts tm div 1000000 else en_ts env)"
    unfolding Passthrough_Inr by auto
  from unmarshal_envelope_Inr [OF env(1)] obtain ms where "envelope_ok ms env" by blast
  moreover have "1 \<le> now_ts tm div 1000000" "now_ts tm div 1000000 \<le> now_ts tm"
    using assms(2) by (auto simp: clock_ok_def)
  ultimately show ?thesis
    using env(2) assms(2) by (auto simp: envelope_ok_def clock_ok_def in_int64_def int64_min_def)
qed


end
