(* ===== verification/Pool.thy ===== *)
theory Pool
  imports Prelude
begin

text \<open>
  Package \<^verbatim>\<open>internal/pool\<close> with the memory it recycles: objects, their backing arrays and
  the free objects a \<^verbatim>\<open>sync.Pool\<close> keeps. A \<^verbatim>\<open>[]byte\<close> field is a reference to an array and a
  length, so that \<^verbatim>\<open>append\<close> writes in place when the array has room, and two owners of one
  array would see each other's bytes. The locale \<open>scratch_space\<close> is the contract a borrower
  relies on; its lemma package is the table of leases \<open>leases_ok\<close>.
\<close>

section \<open>Memory\<close>

record pobj =
  po_Source :: bytes
  po_arr :: nat              \<comment> \<open>the backing array of \<^verbatim>\<open>Data\<close>\<close>
  po_len :: nat

record pool_mem =
  arrays :: "bytes list"     \<comment> \<open>the whole arrays, up to their capacity\<close>
  objects :: "pobj list"
  free :: "nat list"         \<comment> \<open>the objects in the pool\<close>

definition pool_init :: pool_mem where
  "pool_init = \<lparr>arrays = [], objects = [], free = []\<rparr>"

definition pool_data :: "nat \<Rightarrow> pool_mem \<Rightarrow> bytes" where
  "pool_data ob s = (let x = objects s ! ob in take (po_len x) (arrays s ! po_arr x))"

text \<open>\<^verbatim>\<open>payloadPool.New\<close>: an object with an empty slice over a fresh array of 4096 zeros.\<close>

definition pool_New :: "pool_mem \<Rightarrow> nat \<times> pool_mem" where
  "pool_New s =
     (length (objects s),
      s\<lparr>arrays := arrays s @ [replicate 4096 (CHR 0x00)],
        objects := objects s @ [\<lparr>po_Source = [], po_arr = length (arrays s), po_len = 0\<rparr>]\<rparr>)"

text \<open>
  \<^verbatim>\<open>sync.Pool\<close> hands out any object it holds, or a new one even when it holds some; \<open>choice\<close>
  is what it does. It may drop what it holds at any time.
\<close>

fun remove_nth :: "nat \<Rightarrow> 'a list \<Rightarrow> 'a list" where
  "remove_nth i [] = []"
| "remove_nth 0 (x # xs) = xs"
| "remove_nth (Suc i) (x # xs) = x # remove_nth i xs"

definition pool_Get :: "nat option \<Rightarrow> pool_mem \<Rightarrow> nat \<times> pool_mem" where
  "pool_Get choice s =
     (case choice of
        None \<Rightarrow> pool_New s
      | Some i \<Rightarrow> if i < length (free s) then (free s ! i, s\<lparr>free := remove_nth i (free s)\<rparr>) else pool_New s)"

definition pool_drop :: "nat \<Rightarrow> pool_mem \<Rightarrow> pool_mem" where
  "pool_drop i s = s\<lparr>free := remove_nth i (free s)\<rparr>"

definition pool_Put :: "nat \<Rightarrow> pool_mem \<Rightarrow> pool_mem" where
  "pool_Put ob s =
     s\<lparr>objects := (objects s)[ob := (objects s ! ob)\<lparr>po_Source := [], po_len := 0\<rparr>],
       free := ob # free s\<rparr>"

definition set_source :: "nat \<Rightarrow> bytes \<Rightarrow> pool_mem \<Rightarrow> pool_mem" where
  "set_source ob src s = s\<lparr>objects := (objects s)[ob := (objects s ! ob)\<lparr>po_Source := src\<rparr>]\<rparr>"

text \<open>
  \<^verbatim>\<open>p.Data = append(p.Data, b...)\<close>: in place when the capacity allows, otherwise into a new
  array, \<open>extra\<close> bytes larger than needed.
\<close>

definition append_data :: "nat \<Rightarrow> nat \<Rightarrow> bytes \<Rightarrow> pool_mem \<Rightarrow> pool_mem" where
  "append_data extra ob b s =
     (let x = objects s ! ob; arr = arrays s ! po_arr x; n = po_len x; m = n + length b in
      if m \<le> length arr
      then s\<lparr>arrays := (arrays s)[po_arr x := take n arr @ b @ drop m arr],
             objects := (objects s)[ob := x\<lparr>po_len := m\<rparr>]\<rparr>
      else s\<lparr>arrays := arrays s @ [take n arr @ b @ replicate extra (CHR 0x00)],
             objects := (objects s)[ob := x\<lparr>po_arr := length (arrays s), po_len := m\<rparr>]\<rparr>)"

section \<open>The contract of recycled memory\<close>

text \<open>
  \<open>valid s L\<close>: the memory is in order and the objects \<open>L\<close> are on loan. An object taken out is
  not on loan and empty; whatever is done with one object leaves the others as they are.
\<close>

locale scratch_space =
  fixes valid :: "'s \<Rightarrow> 'o set \<Rightarrow> bool"
    and contents :: "'o \<Rightarrow> 's \<Rightarrow> bytes"
    and take_out :: "'c \<Rightarrow> 's \<Rightarrow> 'o \<times> 's"
    and give_back :: "'o \<Rightarrow> 's \<Rightarrow> 's"
    and extend :: "'e \<Rightarrow> 'o \<Rightarrow> bytes \<Rightarrow> 's \<Rightarrow> 's"
    and shrink :: "'i \<Rightarrow> 's \<Rightarrow> 's"
  assumes take_out: "valid s L \<Longrightarrow> take_out c s = (ob, s') \<Longrightarrow>
      ob \<notin> L \<and> valid s' (insert ob L) \<and> contents ob s' = [] \<and> (\<forall>q \<in> L. contents q s' = contents q s)"
    and give_back: "valid s L \<Longrightarrow> ob \<in> L \<Longrightarrow>
      valid (give_back ob s) (L - {ob}) \<and> (\<forall>q \<in> L - {ob}. contents q (give_back ob s) = contents q s)"
    and extend: "valid s L \<Longrightarrow> ob \<in> L \<Longrightarrow>
      valid (extend e ob b s) L \<and> contents ob (extend e ob b s) = contents ob s @ b \<and>
      (\<forall>q \<in> L - {ob}. contents q (extend e ob b s) = contents q s)"
    and shrink: "valid s L \<Longrightarrow> valid (shrink i s) L \<and> (\<forall>q \<in> L. contents q (shrink i s) = contents q s)"
begin

text \<open>
  A table of leases: who holds which object, and the bytes they have put into it. No two
  borrowers hold the same object, and each reads back exactly what is written in the table.
\<close>

definition on_loan :: "('k \<rightharpoonup> 'o \<times> bytes) \<Rightarrow> 'o set" where
  "on_loan H = {ob. \<exists>k b. H k = Some (ob, b)}"

definition leases_ok :: "'s \<Rightarrow> ('k \<rightharpoonup> 'o \<times> bytes) \<Rightarrow> bool" where
  "leases_ok s H \<longleftrightarrow> valid s (on_loan H) \<and>
     (\<forall>k k' ob b b'. H k = Some (ob, b) \<longrightarrow> H k' = Some (ob, b') \<longrightarrow> k = k') \<and>
     (\<forall>k ob b. H k = Some (ob, b) \<longrightarrow> contents ob s = b)"

lemma on_loanI: "H k = Some (ob, b) \<Longrightarrow> ob \<in> on_loan H"
  by (auto simp: on_loan_def)

lemma on_loan_new: "H k = None \<Longrightarrow> on_loan (H(k \<mapsto> (ob, b))) = insert ob (on_loan H)"
  by (auto simp: on_loan_def) (metis option.distinct(1))

lemma on_loan_rewritten: "H k = Some (ob, b) \<Longrightarrow> on_loan (H(k \<mapsto> (ob, b'))) = on_loan H"
  by (auto simp: on_loan_def) (metis option.inject prod.inject)

lemma leases_reads: "leases_ok s H \<Longrightarrow> H k = Some (ob, b) \<Longrightarrow> contents ob s = b"
  by (auto simp: leases_ok_def)

lemma leases_valid: "leases_ok s H \<Longrightarrow> valid s (on_loan H)"
  by (simp add: leases_ok_def)

lemma leases_others:
  "leases_ok s H \<Longrightarrow> H k = Some (ob, b) \<Longrightarrow> H j = Some (q, c) \<Longrightarrow> j \<noteq> k \<Longrightarrow> q \<in> on_loan H - {ob}"
  by (auto simp: leases_ok_def on_loan_def)

lemma on_loan_without:
  "leases_ok s H \<Longrightarrow> H k = Some (ob, b) \<Longrightarrow> on_loan (H(k := None)) = on_loan H - {ob}"
  by (auto simp: leases_ok_def on_loan_def split: if_splits) (metis option.inject prod.inject)

lemma leases_take:
  assumes "leases_ok s H" and "H k = None" and "take_out c s = (ob, s')"
  shows "leases_ok s' (H(k \<mapsto> (ob, [])))" and "ob \<notin> on_loan H"
proof -
  note t = take_out [OF leases_valid [OF assms(1)] assms(3)]
  show "ob \<notin> on_loan H" using t by blast
  then show "leases_ok s' (H(k \<mapsto> (ob, [])))"
    using t assms(1,2) on_loanI [of H] unfolding leases_ok_def on_loan_new [of H k, OF assms(2)]
    by (auto split: if_splits)
qed

lemma leases_give:
  assumes "leases_ok s H" and "H k = Some (ob, b)"
  shows "leases_ok (give_back ob s) (H(k := None))"
  using give_back [OF leases_valid [OF assms(1)] on_loanI [of H k, OF assms(2)]] assms
    leases_others [OF assms] on_loan_without [OF assms]
  unfolding leases_ok_def by (auto split: if_splits)

lemma leases_extend:
  assumes "leases_ok s H" and "H k = Some (ob, b)"
  shows "leases_ok (extend e ob b' s) (H(k \<mapsto> (ob, b @ b')))"
  using extend [OF leases_valid [OF assms(1)] on_loanI [of H k, OF assms(2)], of e b'] assms
    leases_others [OF assms] on_loan_rewritten [of H k ob b, OF assms(2)]
  unfolding leases_ok_def by (auto split: if_splits)

lemma leases_shrink: "leases_ok s H \<Longrightarrow> leases_ok (shrink i s) H"
  using shrink [of s "on_loan H" i] on_loanI [of H] unfolding leases_ok_def by auto

end

section \<open>The pool keeps the contract\<close>

definition pool_ok :: "pool_mem \<Rightarrow> nat set \<Rightarrow> bool" where
  "pool_ok s L \<longleftrightarrow>
     distinct (free s) \<and> set (free s) \<inter> L = {} \<and> set (free s) \<union> L \<subseteq> {..<length (objects s)} \<and>
     distinct (map po_arr (objects s)) \<and>
     (\<forall>x \<in> set (objects s). po_arr x < length (arrays s) \<and> po_len x \<le> length (arrays s ! po_arr x)) \<and>
     (\<forall>ob \<in> set (free s). objects s ! ob = \<lparr>po_Source = [], po_arr = po_arr (objects s ! ob), po_len = 0\<rparr>)"

lemma pool_ok_init: "pool_ok pool_init {}"
  by (simp add: pool_ok_def pool_init_def)

lemma set_remove_nth: "distinct xs \<Longrightarrow> i < length xs \<Longrightarrow> set (remove_nth i xs) = set xs - {xs ! i}"
proof (induction i xs rule: remove_nth.induct)
  case (3 i x xs)
  then have "x \<noteq> xs ! i" by (auto simp: in_set_conv_nth)
  with 3 show ?case by (simp add: insert_Diff_if)
qed simp_all

lemma remove_nth_subset: "set (remove_nth i xs) \<subseteq> set xs"
  by (induction i xs rule: remove_nth.induct) auto

lemma remove_nth_distinct: "distinct xs \<Longrightarrow> distinct (remove_nth i xs)"
  by (induction i xs rule: remove_nth.induct) (auto dest: remove_nth_subset [THEN subsetD])

lemma pool_ok_free: "pool_ok s L \<Longrightarrow> distinct xs \<Longrightarrow> set xs \<subseteq> set (free s) \<Longrightarrow> pool_ok (s\<lparr>free := xs\<rparr>) L"
  unfolding pool_ok_def by auto

text \<open>Two objects never share an array.\<close>

lemma pool_arrays_apart:
  "pool_ok s L \<Longrightarrow> p < length (objects s) \<Longrightarrow> q < length (objects s) \<Longrightarrow> p \<noteq> q \<Longrightarrow>
   po_arr (objects s ! p) \<noteq> po_arr (objects s ! q)"
  by (auto simp: pool_ok_def distinct_conv_nth)

lemma pool_obj:
  assumes "pool_ok s L" and "ob < length (objects s)"
  shows "po_arr (objects s ! ob) < length (arrays s)"
    and "po_len (objects s ! ob) \<le> length (arrays s ! po_arr (objects s ! ob))"
  using assms by (auto simp: pool_ok_def)

lemma pool_ok_drop: "pool_ok s L \<Longrightarrow> pool_ok (pool_drop i s) L"
  unfolding pool_drop_def by (rule pool_ok_free) (auto simp: pool_ok_def remove_nth_distinct
      dest: remove_nth_subset [THEN subsetD])

lemma pool_ok_lend:
  assumes "pool_ok s L" and "i < length (free s)"
  shows "pool_ok (s\<lparr>free := remove_nth i (free s)\<rparr>) (insert (free s ! i) L)"
    and "free s ! i \<notin> L" and "po_len (objects s ! (free s ! i)) = 0"
proof -
  have f: "free s ! i \<in> set (free s)" using assms(2) by simp
  with assms(1) show "free s ! i \<notin> L" by (auto simp: pool_ok_def)
  from f assms(1) show "po_len (objects s ! (free s ! i)) = 0"
    unfolding pool_ok_def by (metis pobj.select_convs(3))
  have "set (remove_nth i (free s)) = set (free s) - {free s ! i}"
    using assms by (simp add: set_remove_nth pool_ok_def)
  with f assms(1) show "pool_ok (s\<lparr>free := remove_nth i (free s)\<rparr>) (insert (free s ! i) L)"
    unfolding pool_ok_def by (auto simp: remove_nth_distinct)
qed

lemma pool_ok_New:
  assumes "pool_ok s L"
  shows "pool_ok (snd (pool_New s)) (insert (length (objects s)) L)"
    and "length (objects s) \<notin> L"
    and "ob < length (objects s) \<Longrightarrow> pool_data ob (snd (pool_New s)) = pool_data ob s"
proof -
  show "length (objects s) \<notin> L" using assms by (auto simp: pool_ok_def)
  have "po_arr x \<noteq> length (arrays s)" if "x \<in> set (objects s)" for x
    using assms that by (auto simp: pool_ok_def)
  then show "pool_ok (snd (pool_New s)) (insert (length (objects s)) L)"
    using assms unfolding pool_ok_def pool_New_def by (auto simp: nth_append)
  show "pool_data ob (snd (pool_New s)) = pool_data ob s" if "ob < length (objects s)"
    using that pool_obj [OF assms that] by (simp add: pool_New_def pool_data_def Let_def nth_append)
qed

lemma pool_ok_Put:
  assumes "pool_ok s L" and "ob \<in> L"
  shows "pool_ok (pool_Put ob s) (L - {ob})" and "q \<noteq> ob \<Longrightarrow> pool_data q (pool_Put ob s) = pool_data q s"
proof -
  have ob: "ob < length (objects s)" "ob \<notin> set (free s)" using assms by (auto simp: pool_ok_def)
  have same: "map po_arr (objects (pool_Put ob s)) = map po_arr (objects s)"
    using ob(1) by (auto simp: pool_Put_def map_update intro: list_update_same_conv [THEN iffD2])
  show "pool_ok (pool_Put ob s) (L - {ob})"
    using assms ob pool_obj [OF assms(1) ob(1)] same
    unfolding pool_ok_def
    by (auto simp: pool_Put_def nth_list_update dest!: set_update_subset_insert [THEN subsetD])
  show "pool_data q (pool_Put ob s) = pool_data q s" if "q \<noteq> ob"
    using that by (simp add: pool_Put_def pool_data_def)
qed

lemma pool_Get_ok:
  assumes "pool_ok s L" and "pool_Get c s = (ob, s')"
  shows "ob \<notin> L \<and> pool_ok s' (insert ob L) \<and> pool_data ob s' = [] \<and> (\<forall>q \<in> L. pool_data q s' = pool_data q s)"
proof (cases "\<exists>i. c = Some i \<and> i < length (free s)")
  case True
  then obtain i where "c = Some i" "i < length (free s)" by blast
  with assms(2) have ob: "ob = free s ! i" "s' = s\<lparr>free := remove_nth i (free s)\<rparr>"
    by (simp_all add: pool_Get_def)
  with pool_ok_lend [OF assms(1) \<open>i < length (free s)\<close>] show ?thesis
    by (simp add: pool_data_def)
next
  case False
  with assms(2) have "pool_New s = (ob, s')"
    by (auto simp: pool_Get_def split: option.splits if_splits)
  then have new: "ob = length (objects s)" "s' = snd (pool_New s)" by (simp_all add: pool_New_def)
  moreover have "q < length (objects s)" if "q \<in> L" for q
    using assms(1) that by (auto simp: pool_ok_def)
  moreover have "pool_data ob s' = []" using new by (simp add: pool_New_def pool_data_def)
  ultimately show ?thesis using pool_ok_New [OF assms(1)] by simp
qed

text \<open>Rewriting one object together with the array it will own.\<close>

lemma pool_ok_rewrite:
  assumes "pool_ok s L" and "ob \<in> L" and "po_arr y = a \<and> po_len y = n"
    and "a < length as" and "n \<le> length (as ! a)" and "length (arrays s) \<le> length as"
    and "\<forall>q < length (objects s). q \<noteq> ob \<longrightarrow> po_arr (objects s ! q) \<noteq> a \<and>
           as ! po_arr (objects s ! q) = arrays s ! po_arr (objects s ! q)"
  shows "pool_ok (s\<lparr>arrays := as, objects := (objects s)[ob := y]\<rparr>) L"
    and "q \<in> L \<Longrightarrow> q \<noteq> ob \<Longrightarrow> pool_data q (s\<lparr>arrays := as, objects := (objects s)[ob := y]\<rparr>) = pool_data q s"
proof -
  have ob: "ob < length (objects s)" "ob \<notin> set (free s)" using assms(1,2) by (auto simp: pool_ok_def)
  let ?os = "(objects s)[ob := y]"
  have "po_arr (?os ! p) \<noteq> po_arr (?os ! q)"
    if "p < length (objects s)" "q < length (objects s)" "p \<noteq> q" for p q
    using that assms(3,7) ob(1) pool_arrays_apart [OF assms(1) that] by (auto simp: nth_list_update)
  then have "distinct (map po_arr ?os)" by (simp add: distinct_conv_nth)
  moreover have "po_arr (?os ! q) < length as \<and> po_len (?os ! q) \<le> length (as ! po_arr (?os ! q))"
    if "q < length (objects s)" for q
    using that ob(1) assms(3-7) pool_obj [OF assms(1) that] by (auto simp: nth_list_update)
  then have "\<forall>x \<in> set ?os. po_arr x < length as \<and> po_len x \<le> length (as ! po_arr x)"
    by (auto simp: in_set_conv_nth simp del: nth_list_update)
  moreover have "?os ! q = objects s ! q" if "q \<in> set (free s)" for q
    using that ob(2) by (metis nth_list_update_neq)
  ultimately show "pool_ok (s\<lparr>arrays := as, objects := ?os\<rparr>) L"
    using assms(1) unfolding pool_ok_def by simp
  show "pool_data q (s\<lparr>arrays := as, objects := ?os\<rparr>) = pool_data q s" if "q \<in> L" "q \<noteq> ob"
  proof -
    from that(1) assms(1) have "q < length (objects s)" by (auto simp: pool_ok_def)
    with assms(7) that(2) show ?thesis by (simp add: pool_data_def Let_def)
  qed
qed

lemma append_data_ok:
  assumes "pool_ok s L" and "ob \<in> L"
  shows "pool_ok (append_data e ob b s) L \<and> pool_data ob (append_data e ob b s) = pool_data ob s @ b \<and>
    (\<forall>q \<in> L - {ob}. pool_data q (append_data e ob b s) = pool_data q s)"
proof -
  have ob: "ob < length (objects s)" using assms by (auto simp: pool_ok_def)
  let ?x = "objects s ! ob"
  let ?arr = "arrays s ! po_arr ?x"
  let ?n = "po_len ?x"
  let ?m = "?n + length b"
  note x = pool_obj [OF assms(1) ob]
  have apart: "po_arr (objects s ! q) \<noteq> po_arr ?x" if "q < length (objects s)" "q \<noteq> ob" for q
    using pool_arrays_apart [OF assms(1) that(1) ob that(2)] .
  show ?thesis
  proof (cases "?m \<le> length ?arr")
    case True
    let ?as = "(arrays s)[po_arr ?x := take ?n ?arr @ b @ drop ?m ?arr]"
    let ?y = "?x\<lparr>po_len := ?m\<rparr>"
    have r: "append_data e ob b s = s\<lparr>arrays := ?as, objects := (objects s)[ob := ?y]\<rparr>"
      using True by (simp add: append_data_def Let_def)
    have "pool_data ob (append_data e ob b s) = pool_data ob s @ b"
      unfolding r using x ob by (simp add: pool_data_def min_def Let_def)
    moreover have "\<forall>q < length (objects s). q \<noteq> ob \<longrightarrow> po_arr (objects s ! q) \<noteq> po_arr ?x \<and>
           ?as ! po_arr (objects s ! q) = arrays s ! po_arr (objects s ! q)"
      using apart by (metis nth_list_update_neq)
    ultimately show ?thesis
      using pool_ok_rewrite [OF assms, of ?y "po_arr ?x" ?m ?as] x True unfolding r by simp
  next
    case False
    let ?as = "arrays s @ [take ?n ?arr @ b @ replicate e (CHR 0x00)]"
    let ?y = "?x\<lparr>po_arr := length (arrays s), po_len := ?m\<rparr>"
    have r: "append_data e ob b s = s\<lparr>arrays := ?as, objects := (objects s)[ob := ?y]\<rparr>"
      using False by (simp add: append_data_def Let_def)
    have "pool_data ob (append_data e ob b s) = pool_data ob s @ b"
      unfolding r using x ob by (simp add: pool_data_def min_def Let_def)
    moreover have "\<forall>q < length (objects s). q \<noteq> ob \<longrightarrow> po_arr (objects s ! q) \<noteq> length (arrays s) \<and>
           ?as ! po_arr (objects s ! q) = arrays s ! po_arr (objects s ! q)"
      using pool_obj(1) [OF assms(1)] by (metis nth_append less_irrefl)
    ultimately show ?thesis
      using pool_ok_rewrite [OF assms, of ?y "length (arrays s)" ?m ?as] x False unfolding r by simp
  qed
qed

interpretation pooled: scratch_space pool_ok pool_data pool_Get pool_Put append_data pool_drop
proof
  show "pool_ok (pool_Put ob s) (L - {ob}) \<and> (\<forall>q \<in> L - {ob}. pool_data q (pool_Put ob s) = pool_data q s)"
    if "pool_ok s L" "ob \<in> L" for s L ob
    using pool_ok_Put [OF that] by simp
  show "pool_ok (pool_drop i s) L \<and> (\<forall>q \<in> L. pool_data q (pool_drop i s) = pool_data q s)"
    if "pool_ok s L" for s L i
    using pool_ok_drop [OF that] by (simp add: pool_drop_def pool_data_def)
qed (rule pool_Get_ok append_data_ok; assumption)+

lemma set_source_ok:
  assumes "pool_ok s L" and "ob \<in> L"
  shows "pool_ok (set_source ob src s) L" and "pool_data q (set_source ob src s) = pool_data q s"
proof -
  have ob: "ob < length (objects s)" using assms by (auto simp: pool_ok_def)
  let ?y = "(objects s ! ob)\<lparr>po_Source := src\<rparr>"
  have "set_source ob src s = s\<lparr>arrays := arrays s, objects := (objects s)[ob := ?y]\<rparr>"
    by (simp add: set_source_def)
  then show "pool_ok (set_source ob src s) L"
    using pool_ok_rewrite(1) [OF assms, of ?y "po_arr ?y" "po_len ?y" "arrays s"]
      pool_obj [OF assms(1) ob] pool_arrays_apart [OF assms(1) _ ob] by simp
  show "pool_data q (set_source ob src s) = pool_data q s"
    using ob by (cases "q = ob") (simp_all add: set_source_def pool_data_def Let_def)
qed

lemma leases_source:
  assumes "pooled.leases_ok s H" and "H k = Some (ob, b)"
  shows "pooled.leases_ok (set_source ob src s) H"
  using assms set_source_ok [OF pooled.leases_valid [OF assms(1)] pooled.on_loanI [of H k, OF assms(2)]]
  unfolding pooled.leases_ok_def by auto

lemma pool_Get_source:
  assumes "pool_ok s L" and "pool_Get c s = (ob, s')"
  shows "po_Source (objects s' ! ob) = []"
proof (cases "\<exists>i. c = Some i \<and> i < length (free s)")
  case True
  then obtain i where "c = Some i" "i < length (free s)" by blast
  moreover from this have "free s ! i \<in> set (free s)" by simp
  then have "po_Source (objects s ! (free s ! i)) = []"
    using assms(1) unfolding pool_ok_def by (metis pobj.select_convs(1))
  ultimately show ?thesis using assms(2) by (auto simp: pool_Get_def)
next
  case False
  with assms(2) show ?thesis
    by (auto simp: pool_Get_def pool_New_def split: option.splits if_splits)
qed

text \<open>A borrower may also never return its object.\<close>

lemma leases_forget:
  assumes "pooled.leases_ok s H"
  shows "pooled.leases_ok s (H(k := None))"
proof -
  have "pooled.on_loan (H(k := None)) \<subseteq> pooled.on_loan H"
    by (auto simp: pooled.on_loan_def split: if_splits)
  moreover have "pool_ok s L'" if "pool_ok s L" "L' \<subseteq> L" for L L'
    using that by (auto simp: pool_ok_def)
  ultimately show ?thesis
    using assms unfolding pooled.leases_ok_def by (auto split: if_splits)
qed

section \<open>Many borrowers\<close>

text \<open>
  Goroutines, numbered, that take an object out, append to it and put it back, in any order, while
  the garbage collector empties the pool as it likes. \<open>borrowed\<close> records what each has written.
  An action a goroutine cannot perform in its state changes nothing.
\<close>

datatype pool_act =
    Act_get nat "nat option"
  | Act_append nat nat bytes
  | Act_source nat bytes
  | Act_put nat
  | Act_drop nat

record borrowing =
  mem :: pool_mem
  borrowed :: "nat \<rightharpoonup> nat \<times> bytes"

fun pool_do :: "borrowing \<Rightarrow> pool_act \<Rightarrow> borrowing" where
  "pool_do w (Act_get k choice) =
     (case borrowed w k of
        None \<Rightarrow> (let (ob, m) = pool_Get choice (mem w)
                 in w\<lparr>mem := m, borrowed := (borrowed w)(k \<mapsto> (ob, []))\<rparr>)
      | Some _ \<Rightarrow> w)"
| "pool_do w (Act_append k extra b) =
     (case borrowed w k of
        None \<Rightarrow> w
      | Some (ob, b0) \<Rightarrow> w\<lparr>mem := append_data extra ob b (mem w), borrowed := (borrowed w)(k \<mapsto> (ob, b0 @ b))\<rparr>)"
| "pool_do w (Act_source k src) =
     (case borrowed w k of None \<Rightarrow> w | Some (ob, b0) \<Rightarrow> w\<lparr>mem := set_source ob src (mem w)\<rparr>)"
| "pool_do w (Act_put k) =
     (case borrowed w k of
        None \<Rightarrow> w
      | Some (ob, b0) \<Rightarrow> w\<lparr>mem := pool_Put ob (mem w), borrowed := (borrowed w)(k := None)\<rparr>)"
| "pool_do w (Act_drop i) = w\<lparr>mem := pool_drop i (mem w)\<rparr>"

definition borrowing_init :: borrowing where
  "borrowing_init = \<lparr>mem = pool_init, borrowed = Map.empty\<rparr>"

lemma pool_act_leases:
  "pooled.leases_ok (mem w) (borrowed w) \<Longrightarrow> pooled.leases_ok (mem (pool_do w a)) (borrowed (pool_do w a))"
  by (cases "(w, a)" rule: pool_do.cases)
    (auto simp: split_beta Let_def pooled.leases_shrink pooled.leases_give pooled.leases_extend leases_source
      intro: pooled.leases_take(1) [OF _ _ surjective_pairing] split: option.splits)

lemma pool_acts_leases: "pooled.leases_ok (mem (foldl pool_do borrowing_init acts)) (borrowed (foldl pool_do borrowing_init acts))"
proof (induction acts rule: rev_induct)
  case Nil
  show ?case
    by (simp add: borrowing_init_def pooled.leases_ok_def pooled.on_loan_def pool_ok_init)
next
  case (snoc a acts)
  then show ?case by (simp add: pool_act_leases)
qed

text \<open>
  C32: after any interleaving of borrowers and the garbage collector, every borrower reads back
  exactly the bytes it has appended since it took its object out, no two borrowers share an object,
  and the next object taken out belongs to nobody and is zeroed.
\<close>

theorem pool_isolation:
  "let w = foldl pool_do borrowing_init acts in
     (borrowed w k = Some (ob, b) \<longrightarrow> pool_data ob (mem w) = b) \<and>
     (borrowed w k = Some (ob, b) \<and> borrowed w k' = Some (ob, b') \<longrightarrow> k = k') \<and>
     (case pool_Get choice (mem w) of (new, m) \<Rightarrow>
        borrowed w k \<noteq> Some (new, b) \<and> pool_data new m = [] \<and> po_Source (objects m ! new) = [])"
proof -
  define w where "w = foldl pool_do borrowing_init acts"
  have ok: "pooled.leases_ok (mem w) (borrowed w)" unfolding w_def by (rule pool_acts_leases)
  obtain new m where get: "pool_Get choice (mem w) = (new, m)" by fastforce
  have "new \<notin> pooled.on_loan (borrowed w) \<and> pool_data new m = []"
    using pool_Get_ok [OF pooled.leases_valid [OF ok] get] by blast
  then have "borrowed w k \<noteq> Some (new, b) \<and> pool_data new m = []"
    using pooled.on_loanI [of "borrowed w" k new b] by blast
  moreover have "po_Source (objects m ! new) = []"
    by (rule pool_Get_source [OF pooled.leases_valid [OF ok] get])
  moreover have "pool_data ob (mem w) = b" if "borrowed w k = Some (ob, b)"
    using ok that by (rule pooled.leases_reads)
  moreover have "k = k'" if "borrowed w k = Some (ob, b)" "borrowed w k' = Some (ob, b')"
    using ok that unfolding pooled.leases_ok_def by blast
  ultimately show ?thesis unfolding w_def [symmetric] Let_def get by simp
qed

theorem pool_isolation_witness:
  "(let w = foldl pool_do borrowing_init
        [Act_get 1 None, Act_append 1 0 ''abc'', Act_put 1, Act_get 2 (Some 0), Act_append 2 0 ''xy'']
    in borrowed w 2 = Some (0, ''xy'') \<and> pool_data 0 (mem w) = ''xy'')"
proof -
  let ?acts = "[Act_get 1 None, Act_append 1 0 ''abc'', Act_put 1, Act_get 2 (Some 0), Act_append 2 0 ''xy'']"
  have "borrowed (foldl pool_do borrowing_init ?acts) 2 = Some (0, ''xy'')"
    by (simp add: borrowing_init_def pool_Get_def pool_New_def pool_init_def pool_Put_def)
  with pool_isolation [of ?acts 2 0 "''xy''" 2 "''xy''" None] show ?thesis
    unfolding Let_def by blast
qed

end
