(* ===== verification/Http.thy ===== *)
theory Http
  imports Config Jsontext
begin

text \<open>
  The part of Fiber the handlers are written against: a request as the handlers read it, a JSON
  response, and a handler, which either answers or returns an error to the application's error
  handler. Parsing of requests and routing belong to Fiber; a handler may also panic, and neither
  Fiber nor the program recovers from that.
\<close>

record http_request =
  rq_header :: "bytes \<Rightarrow> bytes"      \<comment> \<open>the value of a header, empty when it is absent\<close>
  rq_body :: bytes

record http_response =
  rs_status :: int
  rs_body :: bytes

type_synonym 's fiber_handler = "http_request \<Rightarrow> 's \<Rightarrow> (error + http_response) call \<times> 's"

text \<open>\<^verbatim>\<open>c.Get(name, def)\<close>\<close>

definition header_or :: "http_request \<Rightarrow> bytes \<Rightarrow> bytes \<Rightarrow> bytes" where
  "header_or rq name def = (if rq_header rq name = [] then def else rq_header rq name)"

text \<open>\<^verbatim>\<open>c.Status(code).JSON(v)\<close>, with the JSON of the value\<close>

definition reply :: "int \<Rightarrow> bytes \<Rightarrow> 's \<Rightarrow> (error + http_response) call \<times> 's" where
  "reply code b s = (Ret (Inr \<lparr>rs_status = code, rs_body = b\<rparr>), s)"

lemma reply_eq [simp]:
  "reply code b s = reply code' b' s' \<longleftrightarrow> code = code' \<and> b = b' \<and> s = s'"
  by (simp add: reply_def)

definition StatusOK :: int where "StatusOK = 200"
definition StatusAccepted :: int where "StatusAccepted = 202"
definition StatusBadRequest :: int where "StatusBadRequest = 400"
definition StatusUnauthorized :: int where "StatusUnauthorized = 401"
definition StatusUnprocessableEntity :: int where "StatusUnprocessableEntity = 422"
definition StatusTooManyRequests :: int where "StatusTooManyRequests = 429"
definition StatusInternalServerError :: int where "StatusInternalServerError = 500"

lemmas status_defs = StatusOK_def StatusAccepted_def StatusBadRequest_def StatusUnauthorized_def
  StatusUnprocessableEntity_def StatusTooManyRequests_def StatusInternalServerError_def

end
