(* ===== verification/Auth.thy ===== *)
theory Auth
  imports Http Jsonvalue
begin

unbundle bit_operations_syntax

text \<open>
  Package \<^verbatim>\<open>internal/auth\<close>: API keys, JWT bearer tokens and the middleware that guards a
  route. The JWT library is a parameter, the function \<open>jwt_Parse\<close>; what the properties need of its
  documented behaviour is \<open>jwt_documented\<close>. The constant-time comparison of \<^verbatim>\<open>crypto/subtle\<close>
  is kept as the bit operations it is made of.
\<close>

section \<open>Comparing keys\<close>

text \<open>\<^verbatim>\<open>subtle.ConstantTimeByteEq\<close>: bit 31 of the difference minus one, on 32 bits.\<close>

definition ConstantTimeByteEq :: "8 word \<Rightarrow> 8 word \<Rightarrow> int" where
  "ConstantTimeByteEq x y = uint (drop_bit 31 ((ucast (x XOR y) :: 32 word) - 1))"

definition byte_word :: "char \<Rightarrow> 8 word" where
  "byte_word c = word_of_nat (byte c)"

definition ConstantTimeCompare :: "bytes \<Rightarrow> bytes \<Rightarrow> int" where
  "ConstantTimeCompare xs ys =
     (if length xs \<noteq> length ys then 0
      else ConstantTimeByteEq (fold (\<lambda>(a, b) v. v OR (byte_word a XOR byte_word b)) (zip xs ys) 0) 0)"

definition ErrMissingCredentials :: error where
  "ErrMissingCredentials = New_error ''auth: missing credentials''"

definition ErrInvalidAPIKey :: error where
  "ErrInvalidAPIKey = New_error ''auth: invalid API key''"

definition ErrInvalidJWT :: error where
  "ErrInvalidJWT = New_error ''auth: invalid or expired JWT''"

definition ValidateAPIKey :: "AuthConfig \<Rightarrow> bytes \<Rightarrow> error option" where
  "ValidateAPIKey cfg key =
     (if key = [] then Some ErrMissingCredentials
      else if ConstantTimeCompare (APIKey cfg) key \<noteq> 1 then Some ErrInvalidAPIKey
      else None)"

lemma ConstantTimeByteEq_zero: "ConstantTimeByteEq v 0 = (if v = 0 then 1 else 0)"
proof (cases "v = 0")
  case True
  have "uint (drop_bit 31 (- 1 :: 32 word)) = 1" by code_simp
  with True show ?thesis by (simp add: ConstantTimeByteEq_def)
next
  case False
  have "0 < uint v" using False by (metis uint_0_iff order_le_less uint_ge_0)
  moreover have "uint v < 256" using uint_lt2p [of v] by simp
  moreover have "(ucast v :: 32 word) - 1 = word_of_int (uint v - 1)"
    by (metis of_int_1 of_int_diff of_int_uint)
  ultimately have "uint ((ucast v :: 32 word) - 1) = uint v - 1"
    by (simp only: uint_word_of_int) simp
  with \<open>uint v < 256\<close> \<open>0 < uint v\<close> False show ?thesis
    by (simp add: ConstantTimeByteEq_def drop_bit_eq_div uint_div_distrib)
qed

lemma byte_word_inj: "byte_word a = byte_word b \<longleftrightarrow> a = b"
proof
  assume "byte_word a = byte_word b"
  then have "unat (word_of_nat (byte a) :: 8 word) = unat (word_of_nat (byte b) :: 8 word)"
    by (simp only: byte_word_def)
  then show "a = b" by (simp add: unat_of_nat)
qed simp

lemma xor_0: "x XOR y = 0 \<longleftrightarrow> x = (y :: 8 word)"
  by (metis bit.xor_left_self bit.xor_self xor.right_neutral)

lemma fold_or_0:
  "fold (\<lambda>(a, b) v. v OR (byte_word a XOR byte_word b)) ps v = 0 \<longleftrightarrow>
     v = 0 \<and> (\<forall>(a, b) \<in> set ps. a = b)"
  by (induction ps arbitrary: v) (auto simp: or_eq_0_iff xor_0 byte_word_inj)

lemma ConstantTimeCompare_eq: "ConstantTimeCompare xs ys = (if xs = ys then 1 else 0)"
proof (cases "length xs = length ys")
  case True
  then have "(\<forall>(a, b) \<in> set (zip xs ys). a = b) \<longleftrightarrow> xs = ys"
    by (induction rule: list_induct2) auto
  with True show ?thesis
    by (simp add: ConstantTimeCompare_def ConstantTimeByteEq_zero fold_or_0)
qed (auto simp: ConstantTimeCompare_def)


section \<open>Tokens\<close>

datatype signing_method =
    SigningMethodHMAC bytes          \<comment> \<open>HS256, HS384 or HS512\<close>
  | Other_method bytes               \<comment> \<open>RSA, ECDSA, none and so on\<close>

datatype jwt_claims = MapClaims "bytes \<rightharpoonup> any" | Other_claims

record jwt_token =
  tk_Method :: signing_method
  tk_Claims :: jwt_claims
  tk_Valid :: bool

datatype jwt_option = WithExpirationRequired | WithIssuedAt

type_synonym keyfunc = "jwt_token \<Rightarrow> error + bytes"
type_synonym jwt_parser = "bytes \<Rightarrow> keyfunc \<Rightarrow> jwt_option list \<Rightarrow> error + jwt_token"

definition hmac_only :: "AuthConfig \<Rightarrow> keyfunc" where
  "hmac_only cfg t =
     (case tk_Method t of SigningMethodHMAC alg \<Rightarrow> Inr (JWTSecret cfg) | Other_method alg \<Rightarrow> Inl ErrInvalidJWT)"

definition check_issuer :: "AuthConfig \<Rightarrow> jwt_token \<Rightarrow> error option" where
  "check_issuer cfg t =
     (if JWTIssuer cfg = [] then None
      else case tk_Claims t of
        Other_claims \<Rightarrow> Some ErrInvalidJWT
      | MapClaims m \<Rightarrow>
          (let iss = (case m ''iss'' of Some (A_string s) \<Rightarrow> s | _ \<Rightarrow> [])
           in if iss \<noteq> JWTIssuer cfg then Some ErrInvalidJWT else None))"

definition ValidateJWT :: "jwt_parser \<Rightarrow> AuthConfig \<Rightarrow> bytes \<Rightarrow> error option" where
  "ValidateJWT jwt_Parse cfg tokenStr =
     (if tokenStr = [] then Some ErrMissingCredentials
      else case jwt_Parse tokenStr (hmac_only cfg) [WithExpirationRequired, WithIssuedAt] of
        Inl e \<Rightarrow> Some ErrInvalidJWT
      | Inr t \<Rightarrow> if \<not> tk_Valid t then Some ErrInvalidJWT else check_issuer cfg t)"

section \<open>The guard\<close>

definition bearer_prefix :: bytes where
  "bearer_prefix = ''Bearer ''"

definition extractBearer :: "bytes \<Rightarrow> error + bytes" where
  "extractBearer header =
     (if take (length bearer_prefix) header \<noteq> bearer_prefix then Inl ErrMissingCredentials
      else Inr (drop (length bearer_prefix) header))"

definition unauthorized :: "error \<Rightarrow> error" where
  "unauthorized e = Fiber_error StatusUnauthorized (err_text e)"

definition auth_Middleware :: "jwt_parser \<Rightarrow> AuthConfig \<Rightarrow> 's fiber_handler \<Rightarrow> 's fiber_handler" where
  "auth_Middleware jwt_Parse cfg nxt rq s =
     (if Mode cfg = ''none'' then nxt rq s
      else if Mode cfg = ''apikey'' then
        (case ValidateAPIKey cfg (rq_header rq ''X-API-Key'') of
           Some e \<Rightarrow> (Ret (Inl (unauthorized e)), s)
         | None \<Rightarrow> nxt rq s)
      else if Mode cfg = ''jwt'' then
        (case extractBearer (rq_header rq ''Authorization'') of
           Inl e \<Rightarrow> (Ret (Inl (unauthorized e)), s)
         | Inr raw \<Rightarrow>
             (case ValidateJWT jwt_Parse cfg raw of
                Some e \<Rightarrow> (Ret (Inl (unauthorized e)), s)
              | None \<Rightarrow> nxt rq s))
      else (Ret (Inl (Fiber_error StatusUnauthorized [Lit ''auth: unknown mode''])), s))"

section \<open>Who gets through\<close>

text \<open>The credentials the configuration asks for.\<close>

definition has_credentials :: "jwt_parser \<Rightarrow> AuthConfig \<Rightarrow> http_request \<Rightarrow> bool" where
  "has_credentials jwt_Parse cfg rq \<longleftrightarrow>
     Mode cfg = ''none'' \<or>
     (Mode cfg = ''apikey'' \<and> rq_header rq ''X-API-Key'' \<noteq> [] \<and> rq_header rq ''X-API-Key'' = APIKey cfg) \<or>
     (Mode cfg = ''jwt'' \<and> (\<exists>raw. rq_header rq ''Authorization'' = bearer_prefix @ raw \<and>
        ValidateJWT jwt_Parse cfg raw = None))"

lemma ValidateAPIKey_None: "ValidateAPIKey cfg key = None \<longleftrightarrow> key \<noteq> [] \<and> key = APIKey cfg"
  by (auto simp: ValidateAPIKey_def ConstantTimeCompare_eq)

lemma take_prefix: "take (length p) h = p \<longleftrightarrow> (\<exists>r. h = p @ r)"
  by (metis append_eq_conv_conj append_take_drop_id)

lemma extractBearer_Inr: "extractBearer h = Inr raw \<longleftrightarrow> h = bearer_prefix @ raw"
  by (auto simp: extractBearer_def take_prefix)

lemma guard_denies:
  assumes "\<not> has_credentials p cfg rq"
  shows "\<exists>m. auth_Middleware p cfg nxt rq s = (Ret (Inl (Fiber_error StatusUnauthorized m)), s)"
proof -
  consider "Mode cfg = ''apikey''" | "Mode cfg = ''jwt''" | "Mode cfg \<notin> {''none'', ''apikey'', ''jwt''}"
    using assms unfolding has_credentials_def by blast
  then show ?thesis
  proof cases
    case 1
    with assms obtain e where "ValidateAPIKey cfg (rq_header rq ''X-API-Key'') = Some e"
      using ValidateAPIKey_None [of cfg "rq_header rq ''X-API-Key''"] unfolding has_credentials_def by fastforce
    with 1 show ?thesis by (simp add: auth_Middleware_def unauthorized_def)
  next
    case 2
    show ?thesis
    proof (cases "extractBearer (rq_header rq ''Authorization'')")
      case (Inl e)
      with 2 show ?thesis by (simp add: auth_Middleware_def unauthorized_def)
    next
      case (Inr raw)
      with 2 assms obtain e where "ValidateJWT p cfg raw = Some e"
        unfolding has_credentials_def extractBearer_Inr by auto
      with 2 Inr show ?thesis by (simp add: auth_Middleware_def unauthorized_def)
    qed
  next
    case 3
    then show ?thesis by (simp add: auth_Middleware_def)
  qed
qed

lemma guard_admits:
  assumes "has_credentials p cfg rq"
  shows "auth_Middleware p cfg nxt rq s = nxt rq s"
  using assms unfolding has_credentials_def
proof (elim disjE conjE exE)
  assume "rq_header rq ''X-API-Key'' \<noteq> []" "rq_header rq ''X-API-Key'' = APIKey cfg" "Mode cfg = ''apikey''"
  then show ?thesis by (simp add: auth_Middleware_def ValidateAPIKey_None [THEN iffD2])
next
  fix raw
  assume "Mode cfg = ''jwt''" "rq_header rq ''Authorization'' = bearer_prefix @ raw" "ValidateJWT p cfg raw = None"
  then show ?thesis by (simp add: auth_Middleware_def extractBearer_Inr [THEN iffD2])
qed (simp add: auth_Middleware_def)

text \<open>
  The check of an API key, although it compares in constant time with bit operations, is the
  plain one: no key is missing credentials, the configured key passes, any other key is invalid. An
  empty configured key lets nobody in.
\<close>

lemma ValidateAPIKey_equiv:
  "ValidateAPIKey cfg key =
     (if key = [] then Some ErrMissingCredentials
      else if key = APIKey cfg then None else Some ErrInvalidAPIKey)"
  by (auto simp: ValidateAPIKey_def ConstantTimeCompare_eq)

text \<open>
  C33: whatever the JWT library does, a request reaches the protected handler exactly when it has
  the credentials the mode asks for; otherwise, and in every unknown mode, the answer is an error
  of status 401, the handler has not run and no state has changed.
\<close>

theorem auth_gate:
  "\<exists>m. auth_Middleware jwt_Parse cfg nxt rq s =
     (if has_credentials jwt_Parse cfg rq then nxt rq s
      else (Ret (Inl (Fiber_error StatusUnauthorized m)), s))"
  using guard_denies [of jwt_Parse cfg rq nxt s] guard_admits [of jwt_Parse cfg rq nxt s] by auto

text \<open>
  The documented behaviour of \<^verbatim>\<open>jwt.Parse\<close> the code relies on: it returns a token only if
  the key function gave a key for the token as parsed, before it was found valid, the signature
  verifies with this key by the token's own method, and the claims pass the checks of the options.
\<close>

definition jwt_documented ::
  "(signing_method \<Rightarrow> bytes \<Rightarrow> bytes \<Rightarrow> bool) \<Rightarrow> (jwt_option list \<Rightarrow> jwt_claims \<Rightarrow> bool) \<Rightarrow> jwt_parser \<Rightarrow> bool" where
  "jwt_documented verifies claims_hold jwt_Parse \<longleftrightarrow>
     (\<forall>s kf opts t. jwt_Parse s kf opts = Inr t \<longrightarrow>
        claims_hold opts (tk_Claims t) \<and>
        (\<exists>key. kf (t\<lparr>tk_Valid := False\<rparr>) = Inr key \<and> verifies (tk_Method t) s key))"

lemma check_issuer_None:
  "check_issuer cfg t = None \<longleftrightarrow>
     JWTIssuer cfg = [] \<or> (\<exists>m. tk_Claims t = MapClaims m \<and> m ''iss'' = Some (A_string (JWTIssuer cfg)))"
  by (auto simp: check_issuer_def split: jwt_claims.split option.split any.split)

lemma ValidateJWT_None:
  "ValidateJWT jwt_Parse cfg s = None \<longleftrightarrow>
     s \<noteq> [] \<and> (\<exists>t. jwt_Parse s (hmac_only cfg) [WithExpirationRequired, WithIssuedAt] = Inr t \<and>
       tk_Valid t \<and> check_issuer cfg t = None)"
  by (auto simp: ValidateJWT_def split: sum.split)

text \<open>
  C34: a bearer token that passes carries a signature that verifies, by an HMAC method, with the
  configured secret, its claims hold with an expiry required, and it names the configured issuer
  if there is one. The secret is never used with a method that is not HMAC.
\<close>

theorem token_verified:
  assumes "jwt_documented verifies claims_hold jwt_Parse"
    and "ValidateJWT jwt_Parse cfg s = None"
  shows "\<exists>(t :: jwt_token) alg. tk_Method t = SigningMethodHMAC alg \<and> verifies (SigningMethodHMAC alg) s (JWTSecret cfg) \<and>
    claims_hold [WithExpirationRequired, WithIssuedAt] (tk_Claims t) \<and>
    (JWTIssuer cfg = [] \<or> (\<exists>m. tk_Claims t = MapClaims m \<and> m ''iss'' = Some (A_string (JWTIssuer cfg))))"
proof -
  from assms(2) obtain t where
      t: "jwt_Parse s (hmac_only cfg) [WithExpirationRequired, WithIssuedAt] = Inr t" "check_issuer cfg t = None"
    unfolding ValidateJWT_None by blast
  with assms(1) obtain key where "claims_hold [WithExpirationRequired, WithIssuedAt] (tk_Claims t)"
      "hmac_only cfg (t\<lparr>tk_Valid := False\<rparr>) = Inr key" "verifies (tk_Method t) s key"
    unfolding jwt_documented_def by blast
  moreover from this(2) obtain alg where "tk_Method t = SigningMethodHMAC alg" "key = JWTSecret cfg"
    by (auto simp: hmac_only_def split: signing_method.splits)
  moreover note t(2) [unfolded check_issuer_None]
  ultimately show ?thesis by - (intro exI [of _ t] exI [of _ alg], simp)
qed

theorem token_verified_witness:
  "\<exists>(t :: jwt_token) alg. tk_Method t = SigningMethodHMAC alg \<and> ''s3cret'' = ''s3cret'' \<and>
    (\<exists>m. tk_Claims t = MapClaims m \<and> m ''iss'' = Some (A_string ''xyllo''))"
proof -
  let ?cfg = "\<lparr>Mode = ''jwt'', APIKey = [], JWTSecret = ''s3cret'', JWTIssuer = ''xyllo''\<rparr>"
  let ?tok = "\<lparr>tk_Method = SigningMethodHMAC ''HS256'', tk_Claims = MapClaims [''iss'' \<mapsto> A_string ''xyllo''], tk_Valid = True\<rparr>"
  let ?parse = "\<lambda>s kf opts. case kf (?tok\<lparr>tk_Valid := False\<rparr>) of Inl e \<Rightarrow> Inl e | Inr key \<Rightarrow> if s = key then Inr ?tok else Inl ErrInvalidJWT"
  have "jwt_documented (\<lambda>m s key. s = key) (\<lambda>opts c. True) ?parse"
    by (auto simp: jwt_documented_def split: sum.splits if_splits)
  moreover have "ValidateJWT ?parse ?cfg ''s3cret'' = None"
    by (simp add: ValidateJWT_None check_issuer_None hmac_only_def)
  ultimately show ?thesis
    using token_verified [of "\<lambda>m s key. s = key" "\<lambda>opts c. True" ?parse ?cfg "''s3cret''"] by simp
qed

end
