(* ===== verification/Intake.thy ===== *)
theory Intake
  imports Translator Workers
begin

text \<open>
  What the two intakes of the pipeline, the HTTP handler of \<^verbatim>\<open>internal/ingestor\<close> and the
  stream reader of \<^verbatim>\<open>internal/streamingestor\<close>, have in common: a payload is translated, given
  an identifier and marshalled (\<open>prepare\<close>), then submitted to the dispatcher and counted. The lemmas
  give the outcomes of \<^verbatim>\<open>Submit\<close> and of the metrics calls as steps of the dispatcher.
\<close>

section \<open>Metrics calls on the dispatcher's state\<close>

definition on_disp ::
  "('z env_scheme \<Rightarrow> 'a call \<times> 'z env_scheme) \<Rightarrow> 'z disp \<Rightarrow> 'a call \<times> 'z disp" where
  "on_disp f d = (let (out, s) = on_env f (sh d) in (out, d\<lparr>sh := s\<rparr>))"

section \<open>What a payload amounts to\<close>

definition event_id :: "bytes call \<Rightarrow> Event \<Rightarrow> bytes call" where
  "event_id uuid e = (if ID e = [] then uuid else Ret (ID e))"

datatype prepared =
    Untranslatable error
  | No_id bytes
  | Unmarshalable
  | Prepared bytes bytes         \<comment> \<open>identifier and event bytes\<close>

definition prepare :: "Registry \<Rightarrow> readings \<Rightarrow> bytes call \<Rightarrow> bytes \<Rightarrow> bytes \<Rightarrow> prepared" where
  "prepare reg tm uuid source raw =
     (case Translate reg tm source raw of
        Inl err \<Rightarrow> Untranslatable err
      | Inr e \<Rightarrow>
          (case event_id uuid e of
             Panic m \<Rightarrow> No_id m
           | Ret i \<Rightarrow> (case marshal_event (e\<lparr>ID := i\<rparr>) of Inl x \<Rightarrow> Unmarshalable | Inr data \<Rightarrow> Prepared i data)))"

section \<open>Outcomes as steps of the dispatcher\<close>

text \<open>The label values the metrics client would refuse, and whether the dispatcher has room.\<close>

definition refuses :: "'z disp \<Rightarrow> bytes list \<Rightarrow> bool" where
  "refuses d vals \<longleftrightarrow>
     (case active (penv (sh d)) of nopProvider \<Rightarrow> False | PrometheusProvider r c \<Rightarrow> r vals \<noteq> None)"

definition has_room :: "nat option \<Rightarrow> 'z disp \<Rightarrow> bool" where
  "has_room parked d \<longleftrightarrow>
     (parked \<noteq> None \<and> chan_buf (buf d) = []) \<or> length (chan_buf (buf d)) < chan_cap (buf d)"

lemma on_disp_eq:
  "on_disp f d = (fst (f (penv (sh d))), d\<lparr>sh := (sh d)\<lparr>penv := snd (f (penv (sh d)))\<rparr>\<rparr>)"
  by (simp add: on_disp_def on_env_def split_beta)

text \<open>A metrics call that panics exactly when the client refuses, and counts no dead letter.\<close>

definition counts_only :: "('z env_scheme \<Rightarrow> unit call \<times> 'z env_scheme) \<Rightarrow> 'z env_scheme \<Rightarrow> bool \<Rightarrow> bool" where
  "counts_only f e refused \<longleftrightarrow>
     (returns (fst (f e)) \<longleftrightarrow> \<not> refused) \<and> metric dlqEnqueued (snd (f e)) = metric dlqEnqueued e"

lemma counts_only_calls:
  "counts_only (RecordEventRejected source reason) (penv (sh d)) (refuses d [source, reason])"
  "counts_only (RecordEventIngested source) (penv (sh d)) (refuses d [source])"
  by (cases "active (penv (sh d))";
      simp add: counts_only_def RecordEventRejected_def RecordEventIngested_def on_active_def
        with_label_values_def refuses_def metric_def split: option.split)+

text \<open>Runs that settle no payload, as those of the intakes, and their composition.\<close>

definition settles_nothing :: "dlabel list \<Rightarrow> bool" where
  "settles_nothing tr \<longleftrightarrow> batched tr = [] \<and> dead tr = []"

lemma settles_nothing_simps [simp]:
  "settles_nothing []" "settles_nothing (Tau # tr) = settles_nothing tr"
  "settles_nothing (Accept p # tr) = settles_nothing tr" "settles_nothing (Refuse p # tr) = settles_nothing tr"
  "settles_nothing (tr @ tr') \<longleftrightarrow> settles_nothing tr \<and> settles_nothing tr'"
  by (auto simp: settles_nothing_def)

lemma druns_append: "druns fe d' tr' d'' \<Longrightarrow> druns fe d tr d' \<Longrightarrow> druns fe d (tr @ tr') d''"
proof (induction rule: druns.induct)
  case (druns_snoc tr' d1 l d2)
  then show ?case using druns.druns_snoc [of fe d "tr @ tr'" d1 l d2] by simp
qed simp

lemma on_disp_step:
  assumes "counts_only f (penv (sh d)) refused"
  shows "dstep fe d Tau (snd (on_disp f d))"
  using ambient [of "snd (f (penv (sh d)))" d fe] assms by (simp add: on_disp_eq counts_only_def)

lemma refuses_observed: "refuses (snd (submit_observe d)) vals = refuses d vals"
  by (cases "active (penv (sh d))")
    (simp_all add: refuses_def submit_observe_eq ObserveWorkerPoolDepth_def on_active_def)

lemma refuses_sh: "sh d1 = sh d \<Longrightarrow> refuses d1 vals = refuses d vals"
  by (simp add: refuses_def)

lemma Submit_cases:
  obtains (closed) m where "chan_closed (buf d)" "Submit parked p d = (Panic m, d)"
  | (refused) "\<not> chan_closed (buf d)" "\<not> has_room parked d" "Submit parked p d = (Ret False, d)"
      "submit_send None p d = (Ret False, d)"
  | (taken) d1 where "\<not> chan_closed (buf d)" "has_room parked d" "submit_send parked p d = (Ret True, d1)"
      "Submit parked p d = (Ret True, snd (submit_observe d1))" "0 < observers d1" "sh d1 = sh d"
proof (cases "chan_closed (buf d)")
  case True
  then show ?thesis by (intro closed) (auto simp: Submit_def submit_send_def try_send_def)
next
  case open_chan: False
  show ?thesis
  proof (cases "has_room parked d")
    case True
    define d1 where "d1 = snd (submit_send parked p d)"
    have d1: "submit_send parked p d = (Ret True, d1) \<and> 0 < observers d1 \<and> sh d1 = sh d"
    proof (cases "parked \<noteq> None \<and> chan_buf (buf d) = []")
      case True
      with open_chan show ?thesis by (simp add: d1_def submit_send_def try_send_def)
    next
      case False
      with open_chan \<open>has_room parked d\<close> have "length (chan_buf (buf d)) < chan_cap (buf d)"
        by (auto simp: has_room_def)
      with open_chan False show ?thesis unfolding d1_def submit_send_def try_send_def by simp
    qed
    with open_chan True d1 show ?thesis
      by (intro taken [of d1]) (simp_all add: Submit_def submit_observe_eq)
  next
    case False
    with open_chan show ?thesis
      by (intro refused) (auto simp: Submit_def submit_send_def try_send_def has_room_def)
  qed
qed

section \<open>From the payload to the verdict of the validators\<close>

lemma registry_default: "Translate NewRegistry tm source raw = Passthrough tm source raw"
  by (simp add: Translate_def selected_def NewRegistry_def)

lemma Passthrough_shape:
  assumes "Passthrough tm source raw = Inr e"
  shows "ID e = []" and "ev_Source e = source" and "ev_ReceivedAt e = now_received tm"
  using assms unfolding Passthrough_Inr by auto

lemma event_verdict_prepared:
  assumes "Passthrough tm source raw = Inr e" and "body_tree e = Some v" and "clock_ok tm"
    and "source \<noteq> []" and "i \<noteq> []" and "marshal_event (e\<lparr>ID := i\<rparr>) = Inr data"
  shows "verdict data = None \<longleftrightarrow> EventType e \<noteq> [] \<and> nesting v < max_depth \<and> in_range v"
proof -
  have "body_tree (e\<lparr>ID := i\<rparr>) = Some v" using assms(2) by (simp add: body_tree_def)
  from event_verdict [OF assms(6) this] Passthrough_ts [OF assms(1,3)] Passthrough_shape [OF assms(1)] assms(4,5)
  show ?thesis by simp
qed

end
