(* ===== verification/Ingestor.thy ===== *)
theory Ingestor
  imports Auth Pool Intake
begin

text \<open>
  Package \<^verbatim>\<open>internal/ingestor\<close>: the routes, the error handler and \<^verbatim>\<open>handleIngest\<close>, which
  borrows a buffer from the pool, has the payload translated and marshalled, gives the buffer back
  and submits the event to the dispatcher. \<open>prepare\<close> is what a request amounts to when memory is
  left out; the properties say that the handler computes it whatever the pool does, alone and in
  any interleaving with other requests, that its effect on the dispatcher is a run of the
  dispatcher's steps, and which answer each outcome gets.
\<close>

section \<open>Responses\<close>

definition error_body :: "bytes \<Rightarrow> bytes" where
  "error_body m = ''{'' @ str_member ''error'' m @ ''}''"

definition accepted_body :: "bytes \<Rightarrow> bytes" where
  "accepted_body i = ''{'' @ str_member ''status'' ''accepted'' @ '','' @ str_member ''id'' i @ ''}''"

definition ok_body :: bytes where
  "ok_body = ''{'' @ str_member ''status'' ''ok'' @ ''}''"

text \<open>The error handler of the application, and the two probes.\<close>

definition ErrorHandler :: "fmt_env \<Rightarrow> error \<Rightarrow> 's \<Rightarrow> (error + http_response) call \<times> 's" where
  "ErrorHandler fe e =
     (let code = (case as_fiber e of Some (Fiber_error c m) \<Rightarrow> c | _ \<Rightarrow> StatusInternalServerError)
      in reply code (error_body (render fe (err_text e))))"

definition handleHealthz :: "'s fiber_handler" where
  "handleHealthz rq = reply StatusOK ok_body"

definition handleReadyz :: "'s fiber_handler" where
  "handleReadyz rq = reply StatusOK ok_body"

section \<open>One request\<close>

text \<open>
  The state a request touches, and what the outside decides while it is served: what the pool hands
  out, how much \<^verbatim>\<open>append\<close> over-allocates, the readings of the clock, the identifier
  \<^verbatim>\<open>uuid.NewString\<close> makes (it panics without randomness), and the worker that may be waiting.
\<close>

record 'z world =
  w_disp :: "'z disp"
  w_pool :: pool_mem

record chance =
  or_take :: "nat option"
  or_grow :: nat
  or_time :: readings
  or_uuid :: "bytes call"
  or_parked :: "nat option"

text \<open>A recorded metric, then the answer; a panic of the metrics client escapes.\<close>

definition count_and_reply ::
  "('z env_scheme \<Rightarrow> unit call \<times> 'z env_scheme) \<Rightarrow> int \<Rightarrow> bytes \<Rightarrow> 'z world \<Rightarrow>
   (error + http_response) call \<times> 'z world" where
  "count_and_reply f code b w =
     (case on_disp f (w_disp w) of
        (Panic m, d) \<Rightarrow> (Panic m, w\<lparr>w_disp := d\<rparr>)
      | (Ret _, d) \<Rightarrow> reply code b (w\<lparr>w_disp := d\<rparr>))"

definition enqueue ::
  "nat option \<Rightarrow> bytes \<Rightarrow> bytes \<Rightarrow> bytes \<Rightarrow> 'z world \<Rightarrow> (error + http_response) call \<times> 'z world" where
  "enqueue parked source i data w =
     (case Submit parked \<lparr>p_Source = source, p_Data = data\<rparr> (w_disp w) of
        (Panic m, d) \<Rightarrow> (Panic m, w\<lparr>w_disp := d\<rparr>)
      | (Ret False, d) \<Rightarrow>
          count_and_reply (RecordEventRejected source ''buffer_full'') StatusTooManyRequests
            (error_body ''buffer full, retry later'') (w\<lparr>w_disp := d\<rparr>)
      | (Ret True, d) \<Rightarrow>
          count_and_reply (RecordEventIngested source) StatusAccepted (accepted_body i) (w\<lparr>w_disp := d\<rparr>))"

definition handleIngest :: "fmt_env \<Rightarrow> Registry \<Rightarrow> chance \<Rightarrow> 'z world fiber_handler" where
  "handleIngest fe reg orc rq w =
     (if rq_body rq = [] then reply StatusBadRequest (error_body ''request body is required'') w
      else
        let source = header_or rq ''X-Source-ID'' ''unknown'';
            (p, m1) = pool_Get (or_take orc) (w_pool w);
            m2 = append_data (or_grow orc) p (rq_body rq) m1
        in case Translate reg (or_time orc) source (pool_data p m2) of
             Inl err \<Rightarrow>
               count_and_reply (RecordEventRejected source ''translation_error'') StatusUnprocessableEntity
                 (error_body (render fe (err_text err))) (w\<lparr>w_pool := pool_Put p m2\<rparr>)
           | Inr event \<Rightarrow>
               (case event_id (or_uuid orc) event of
                  Panic m \<Rightarrow> (Panic m, w\<lparr>w_pool := m2\<rparr>)
                | Ret i \<Rightarrow>
                    (let w1 = w\<lparr>w_pool := pool_Put p m2\<rparr> in
                     case marshal_event (event\<lparr>ID := i\<rparr>) of
                       Inl e \<Rightarrow>
                         reply StatusInternalServerError (error_body ''internal serialisation error'') w1
                     | Inr data \<Rightarrow> enqueue (or_parked orc) source i data w1)))"

text \<open>
  The application: the handler of a route, with the guard in front of the one for ingestion, and
  the error handler behind. The method and path are those of the registered route Fiber's router has chosen for the request;
  how it chooses is Fiber's (by its defaults letter case and a slash at the end do not matter, and a route
  for GET takes HEAD too). \<open>None\<close> is a request no route matches, which Fiber answers itself.
\<close>

definition route ::
  "fmt_env \<Rightarrow> jwt_parser \<Rightarrow> AuthConfig \<Rightarrow> Registry \<Rightarrow> chance \<Rightarrow> bytes \<Rightarrow> bytes \<Rightarrow> 'z world fiber_handler option" where
  "route fe jwt_Parse cfg reg orc method path =
     (if method = ''GET'' \<and> path = ''/healthz'' then Some handleHealthz
      else if method = ''GET'' \<and> path = ''/readyz'' then Some handleReadyz
      else if method = ''POST'' \<and> path = ''/v1/ingest''
        then Some (auth_Middleware jwt_Parse cfg (handleIngest fe reg orc))
      else None)"

definition serve :: "fmt_env \<Rightarrow> 's fiber_handler \<Rightarrow> 's fiber_handler" where
  "serve fe h rq w =
     (case h rq w of
        (Ret (Inl e), w') \<Rightarrow> ErrorHandler fe e w'
      | out \<Rightarrow> out)"

section \<open>A request without memory\<close>

text \<open>The answer to what was prepared, given as a function of the dispatcher alone.\<close>

definition answer ::
  "fmt_env \<Rightarrow> nat option \<Rightarrow> bytes \<Rightarrow> prepared \<Rightarrow> 'z world \<Rightarrow> (error + http_response) call \<times> 'z world" where
  "answer fe parked source pr w =
     (case pr of
        Untranslatable err \<Rightarrow>
          count_and_reply (RecordEventRejected source ''translation_error'') StatusUnprocessableEntity
            (error_body (render fe (err_text err))) w
      | No_id m \<Rightarrow> (Panic m, w)
      | Unmarshalable \<Rightarrow> reply StatusInternalServerError (error_body ''internal serialisation error'') w
      | Prepared i data \<Rightarrow> enqueue parked source i data w)"

definition request_source :: "http_request \<Rightarrow> bytes" where
  "request_source rq = header_or rq ''X-Source-ID'' ''unknown''"

lemma handleIngest_prepares:
  assumes "pool_ok (w_pool w) L" and "rq_body rq \<noteq> []"
  obtains m L' where "pool_ok m L'" and "L \<subseteq> L'"
    and "\<forall>q \<in> L. pool_data q m = pool_data q (w_pool w)"
    and "handleIngest fe reg orc rq w =
      answer fe (or_parked orc) (request_source rq)
        (prepare reg (or_time orc) (or_uuid orc) (request_source rq) (rq_body rq)) (w\<lparr>w_pool := m\<rparr>)"
    and "\<forall>x. prepare reg (or_time orc) (or_uuid orc) (request_source rq) (rq_body rq) \<noteq> No_id x \<Longrightarrow> L' = L"
proof -
  obtain p m1 where get: "pool_Get (or_take orc) (w_pool w) = (p, m1)" by fastforce
  define m2 where "m2 = append_data (or_grow orc) p (rq_body rq) m1"
  note g = pool_Get_ok [OF assms(1) get]
  then have a: "pool_ok m2 (insert p L)" "pool_data p m2 = rq_body rq" "\<forall>q \<in> L. pool_data q m2 = pool_data q (w_pool w)"
    using append_data_ok [of m1 "insert p L" p "or_grow orc" "rq_body rq"] unfolding m2_def by auto
  have "insert p L - {p} = L" "\<forall>q \<in> L. q \<noteq> p" using g by auto
  with pool_ok_Put [OF a(1), of p] a(3)
  have b: "pool_ok (pool_Put p m2) L" "\<forall>q \<in> L. pool_data q (pool_Put p m2) = pool_data q (w_pool w)" by auto
  let ?pr = "prepare reg (or_time orc) (or_uuid orc) (request_source rq) (rq_body rq)"
  have h: "handleIngest fe reg orc rq w =
      answer fe (or_parked orc) (request_source rq) ?pr
        (w\<lparr>w_pool := (case ?pr of No_id x \<Rightarrow> m2 | _ \<Rightarrow> pool_Put p m2)\<rparr>)"
    using assms(2) get a(2)
    by (simp add: handleIngest_def Let_def m2_def [symmetric] prepare_def answer_def request_source_def
        split: sum.split call.split)
  show ?thesis
  proof (cases "\<exists>x. ?pr = No_id x")
    case True
    with h a show ?thesis by (intro that [of m2 "insert p L"]) auto
  next
    case False
    then have "(case ?pr of No_id x \<Rightarrow> m2 | _ \<Rightarrow> pool_Put p m2) = pool_Put p m2"
      by (auto split: prepared.split)
    with h b show ?thesis by (intro that [of "pool_Put p m2" L]) auto
  qed
qed

section \<open>Which answer a request gets\<close>

lemma count_and_reply_outcome:
  assumes "counts_only f (penv (sh (w_disp w))) refused"
  shows "snd (count_and_reply f code b w) =
      w\<lparr>w_disp := (w_disp w)\<lparr>sh := (sh (w_disp w))\<lparr>penv := snd (f (penv (sh (w_disp w))))\<rparr>\<rparr>\<rparr>"
    and "if refused then \<exists>m. fst (count_and_reply f code b w) = Panic m
      else fst (count_and_reply f code b w) = Ret (Inr \<lparr>rs_status = code, rs_body = b\<rparr>)"
  using assms
  by (auto simp: counts_only_def count_and_reply_def on_disp_eq reply_def returns_iff not_returns_iff split: call.splits)

lemma count_and_reply_run:
  assumes "counts_only f (penv (sh (w_disp w))) refused"
  shows "dstep fe (w_disp w) Tau (w_disp (snd (count_and_reply f code b w)))"
  using ambient [of "snd (f (penv (sh (w_disp w))))" "w_disp w" fe] assms
  by (simp add: count_and_reply_outcome(1) [OF assms] counts_only_def)

lemma enqueue_outcome:
  "if chan_closed (buf (w_disp w)) \<or>
      refuses (w_disp w) (if has_room parked (w_disp w) then [source] else [source, ''buffer_full''])
   then \<exists>m. fst (enqueue parked source i data w) = Panic m
   else \<exists>b. fst (enqueue parked source i data w) =
     Ret (Inr \<lparr>rs_status = if has_room parked (w_disp w) then StatusAccepted else StatusTooManyRequests, rs_body = b\<rparr>)"
proof (rule Submit_cases [of "w_disp w" parked "\<lparr>p_Source = source, p_Data = data\<rparr>"])
  fix m
  assume "chan_closed (buf (w_disp w))" "Submit parked \<lparr>p_Source = source, p_Data = data\<rparr> (w_disp w) = (Panic m, w_disp w)"
  then show ?thesis by (simp add: enqueue_def)
next
  assume "\<not> chan_closed (buf (w_disp w))" "\<not> has_room parked (w_disp w)"
    "Submit parked \<lparr>p_Source = source, p_Data = data\<rparr> (w_disp w) = (Ret False, w_disp w)"
  then show ?thesis
    using count_and_reply_outcome(2) [OF counts_only_calls(1) [where source = source and reason = "''buffer_full''"],
      where w = w and code = StatusTooManyRequests and b = "error_body ''buffer full, retry later''"]
    by (auto simp: enqueue_def split: if_splits)
next
  fix d1
  assume a: "\<not> chan_closed (buf (w_disp w))" "has_room parked (w_disp w)"
    "Submit parked \<lparr>p_Source = source, p_Data = data\<rparr> (w_disp w) = (Ret True, snd (submit_observe d1))"
    "sh d1 = sh (w_disp w)"
  let ?w = "w\<lparr>w_disp := snd (submit_observe d1)\<rparr>"
  have "refuses (w_disp ?w) vals = refuses (w_disp w) vals" for vals
    using refuses_sh [OF a(4)] by (simp add: refuses_observed)
  then show ?thesis
    using a count_and_reply_outcome(2) [OF counts_only_calls(2) [where source = source], where w = ?w and code = StatusAccepted and b = "accepted_body i"]
    by (auto simp: enqueue_def split: if_splits)
qed

lemma enqueue_run:
  assumes "parked_ok parked (w_disp w)"
  shows "\<exists>tr. druns fe (w_disp w) tr (w_disp (snd (enqueue parked source i data w))) \<and>
    accepted tr = (if \<not> chan_closed (buf (w_disp w)) \<and> has_room parked (w_disp w)
      then [\<lparr>p_Source = source, p_Data = data\<rparr>] else []) \<and> settles_nothing tr"
proof (rule Submit_cases [of "w_disp w" parked "\<lparr>p_Source = source, p_Data = data\<rparr>"])
  fix m
  assume "chan_closed (buf (w_disp w))" "Submit parked \<lparr>p_Source = source, p_Data = data\<rparr> (w_disp w) = (Panic m, w_disp w)"
  then show ?thesis by (intro exI [of _ "[]"]) (simp add: enqueue_def druns_nil)
next
  let ?p = "\<lparr>p_Source = source, p_Data = data\<rparr>"
  assume a: "\<not> chan_closed (buf (w_disp w))" "\<not> has_room parked (w_disp w)"
    "Submit parked ?p (w_disp w) = (Ret False, w_disp w)"
    "submit_send None ?p (w_disp w) = (Ret False, w_disp w)"
  note r1 = druns_snoc [OF druns_nil refuse [OF a(4)]]
  have "dstep fe (w_disp w) Tau (w_disp (snd (count_and_reply (RecordEventRejected source ''buffer_full'')
      StatusTooManyRequests (error_body ''buffer full, retry later'') w)))"
    by (rule count_and_reply_run [OF counts_only_calls(1)])
  note r2 = druns_snoc [OF r1 this]
  with a show ?thesis by (intro exI [of _ "[Refuse ?p, Tau]"]) (simp add: enqueue_def)
next
  fix d1
  let ?p = "\<lparr>p_Source = source, p_Data = data\<rparr>"
  assume a: "\<not> chan_closed (buf (w_disp w))" "has_room parked (w_disp w)"
    "submit_send parked ?p (w_disp w) = (Ret True, d1)"
    "Submit parked ?p (w_disp w) = (Ret True, snd (submit_observe d1))" "0 < observers d1"
  let ?w = "w\<lparr>w_disp := snd (submit_observe d1)\<rparr>"
  note r1 = druns_snoc [OF druns_nil accept [OF assms a(3)]]
  note r2 = druns_snoc [OF r1 observe [OF a(5) surjective_pairing]]
  have "dstep fe (snd (submit_observe d1)) Tau (w_disp (snd (count_and_reply (RecordEventIngested source) StatusAccepted (accepted_body i) ?w)))"
    using count_and_reply_run [OF counts_only_calls(2), where w = ?w] by simp
  note r3 = druns_snoc [OF r2 this]
  with a show ?thesis by (intro exI [of _ "[Accept ?p, Tau, Tau]"]) (simp add: enqueue_def)
qed

text \<open>
  The status of the answer, and when there is none because a panic ends the process: without
  randomness for the identifier, after the dispatcher was shut down, and when the metrics client
  refuses the source as a label.
\<close>

definition ingest_crash :: "nat option \<Rightarrow> bytes \<Rightarrow> prepared \<Rightarrow> 'z disp \<Rightarrow> bool" where
  "ingest_crash parked source pr d =
     (case pr of
        Untranslatable err \<Rightarrow> refuses d [source, ''translation_error'']
      | No_id m \<Rightarrow> True
      | Unmarshalable \<Rightarrow> False
      | Prepared i data \<Rightarrow> chan_closed (buf d) \<or>
          refuses d (if has_room parked d then [source] else [source, ''buffer_full'']))"

definition ingest_status :: "nat option \<Rightarrow> prepared \<Rightarrow> 'z disp \<Rightarrow> int" where
  "ingest_status parked pr d =
     (case pr of
        Untranslatable err \<Rightarrow> 422
      | Unmarshalable \<Rightarrow> 500
      | Prepared i data \<Rightarrow> if has_room parked d then 202 else 429
      | No_id m \<Rightarrow> 500)"

lemma answer_outcome:
  "if ingest_crash parked source pr (w_disp w) then \<exists>m. fst (answer fe parked source pr w) = Panic m
   else \<exists>b. fst (answer fe parked source pr w) =
     Ret (Inr \<lparr>rs_status = ingest_status parked pr (w_disp w), rs_body = b\<rparr>)"
proof (cases pr)
  case (Untranslatable err)
  then show ?thesis
    using count_and_reply_outcome(2) [OF counts_only_calls(1) [where source = source and reason = "''translation_error''"],
      where w = w and code = StatusUnprocessableEntity and b = "error_body (render fe (err_text err))"]
    by (auto simp: answer_def ingest_crash_def ingest_status_def status_defs split: if_splits)
next
  case (Prepared i data)
  then show ?thesis
    using enqueue_outcome [of w parked source i data]
    by (auto simp: answer_def ingest_crash_def ingest_status_def status_defs split: if_splits)
qed (auto simp: answer_def ingest_crash_def ingest_status_def reply_def status_defs)

text \<open>What the dispatcher accepts from a request.\<close>

definition ingest_accepts :: "nat option \<Rightarrow> bytes \<Rightarrow> prepared \<Rightarrow> 'z disp \<Rightarrow> Payload list" where
  "ingest_accepts parked source pr d =
     (case pr of
        Prepared i data \<Rightarrow>
          if \<not> chan_closed (buf d) \<and> has_room parked d then [\<lparr>p_Source = source, p_Data = data\<rparr>] else []
      | _ \<Rightarrow> [])"

lemma answer_run:
  assumes "parked_ok parked (w_disp w)"
  shows "\<exists>tr. druns fe (w_disp w) tr (w_disp (snd (answer fe parked source pr w))) \<and>
    accepted tr = ingest_accepts parked source pr (w_disp w) \<and> settles_nothing tr"
proof (cases pr)
  case (Untranslatable err)
  have "dstep fe (w_disp w) Tau (w_disp (snd (answer fe parked source pr w)))"
    using count_and_reply_run [OF counts_only_calls(1) [where source = source and reason = "''translation_error''"],
      where w = w] Untranslatable by (simp add: answer_def)
  from druns_snoc [OF druns_nil this] show ?thesis
    using Untranslatable by (intro exI [of _ "[Tau]"]) (simp add: ingest_accepts_def)
next
  case (Prepared i data)
  then show ?thesis
    using enqueue_run [OF assms, of fe source i data] by (simp add: answer_def ingest_accepts_def)
qed (auto simp: answer_def ingest_accepts_def reply_def intro!: exI [of _ "[]"] druns_nil)

text \<open>
  C29: every request gets exactly one answer, whose status is 400 for an empty body, 422 when the
  translator refuses it, 500 when the event does not marshal, 429 when the dispatcher has no room
  and 202 otherwise, unless a panic ends the process; which is the case exactly when an identifier
  is needed and cannot be made, the dispatcher was shut down, or the metrics client refuses the
  source of the request as a label. Translators are those that return an event or an error, as the one
  of the repository does.
\<close>

theorem ingest_outcome:
  assumes "pool_ok (w_pool w) L"
  shows "let source = request_source rq;
       pr = prepare reg (or_time orc) (or_uuid orc) source (rq_body rq);
       out = fst (handleIngest fe reg orc rq w)
     in if rq_body rq = [] then \<exists>b. out = Ret (Inr \<lparr>rs_status = 400, rs_body = b\<rparr>)
        else if ingest_crash (or_parked orc) source pr (w_disp w) then \<exists>m. out = Panic m
        else \<exists>b. out = Ret (Inr \<lparr>rs_status = ingest_status (or_parked orc) pr (w_disp w), rs_body = b\<rparr>)"
proof (cases "rq_body rq = []")
  case True
  then show ?thesis by (simp add: handleIngest_def reply_def status_defs)
next
  case False
  let ?pr = "prepare reg (or_time orc) (or_uuid orc) (request_source rq) (rq_body rq)"
  from handleIngest_prepares [OF assms False, where fe = fe and reg = reg and orc = orc]
  obtain m where "handleIngest fe reg orc rq w = answer fe (or_parked orc) (request_source rq) ?pr (w\<lparr>w_pool := m\<rparr>)"
    by blast
  with answer_outcome [of "or_parked orc" "request_source rq" ?pr "w\<lparr>w_pool := m\<rparr>" fe] False
  show ?thesis unfolding Let_def by (auto split: if_splits)
qed

lemma ingest_run:
  assumes "pool_ok (w_pool w) L" and "parked_ok (or_parked orc) (w_disp w)"
  shows "\<exists>tr. druns fe (w_disp w) tr (w_disp (snd (handleIngest fe reg orc rq w))) \<and> settles_nothing tr \<and>
    accepted tr =
      (if rq_body rq = [] then []
       else ingest_accepts (or_parked orc) (request_source rq)
         (prepare reg (or_time orc) (or_uuid orc) (request_source rq) (rq_body rq)) (w_disp w))"
proof (cases "rq_body rq = []")
  case True
  then show ?thesis
    by (intro exI [of _ "[]"]) (simp add: handleIngest_def reply_def druns_nil)
next
  case False
  let ?pr = "prepare reg (or_time orc) (or_uuid orc) (request_source rq) (rq_body rq)"
  from handleIngest_prepares [OF assms(1) False, where fe = fe and reg = reg and orc = orc]
  obtain m where h: "handleIngest fe reg orc rq w = answer fe (or_parked orc) (request_source rq) ?pr (w\<lparr>w_pool := m\<rparr>)"
    by blast
  from answer_run [of "or_parked orc" "w\<lparr>w_pool := m\<rparr>" fe "request_source rq" ?pr] assms(2) False
  show ?thesis unfolding h by auto
qed

lemma count_and_reply_pool: "w_pool (snd (count_and_reply f code b w)) = w_pool w"
  by (auto simp: count_and_reply_def reply_def split: prod.split call.split)

lemma enqueue_pool: "w_pool (snd (enqueue parked source i data w)) = w_pool w"
  by (auto simp: enqueue_def count_and_reply_pool split: prod.split call.split bool.split)

lemma answer_pool: "w_pool (snd (answer fe parked source pr w)) = w_pool w"
  by (cases pr) (simp_all add: answer_def count_and_reply_pool enqueue_pool reply_def)

lemma handleIngest_pool:
  assumes "pool_ok (w_pool w) L"
  shows "\<exists>L'. pool_ok (w_pool (snd (handleIngest fe reg orc rq w))) L'"
proof (cases "rq_body rq = []")
  case True
  then have "snd (handleIngest fe reg orc rq w) = w" by (simp add: handleIngest_def reply_def)
  with assms show ?thesis by metis
next
  case False
  show ?thesis
  proof (rule handleIngest_prepares [OF assms False, where fe = fe and reg = reg and orc = orc])
    fix m L'
    assume "pool_ok m L'" "handleIngest fe reg orc rq w = answer fe (or_parked orc) (request_source rq)
      (prepare reg (or_time orc) (or_uuid orc) (request_source rq) (rq_body rq)) (w\<lparr>w_pool := m\<rparr>)"
    then show ?thesis by (intro exI [of _ L']) (simp add: answer_pool)
  qed
qed

text \<open>The payload a request has brought in, by its answer: the prepared one with 202, else none.\<close>

definition brought_in :: "Registry \<Rightarrow> chance \<Rightarrow> http_request \<Rightarrow> (error + http_response) call \<Rightarrow> Payload list" where
  "brought_in reg orc rq out =
     (case out of
        Ret (Inr resp) \<Rightarrow>
          if rs_status resp = 202 then
            (case prepare reg (or_time orc) (or_uuid orc) (request_source rq) (rq_body rq) of
               Prepared i data \<Rightarrow> [\<lparr>p_Source = request_source rq, p_Data = data\<rparr>]
             | _ \<Rightarrow> [])
          else []
      | _ \<Rightarrow> [])"

lemma answered_accepts:
  assumes "pool_ok (w_pool w) L" and "fst (handleIngest fe reg orc rq w) = Ret resp"
  shows "(if rq_body rq = [] then []
       else ingest_accepts (or_parked orc) (request_source rq)
         (prepare reg (or_time orc) (or_uuid orc) (request_source rq) (rq_body rq)) (w_disp w)) =
    brought_in reg orc rq (Ret resp)"
proof (cases "rq_body rq = []")
  case True
  with assms(2) show ?thesis by (auto simp: handleIngest_def reply_def status_defs brought_in_def)
next
  case False
  let ?pr = "prepare reg (or_time orc) (or_uuid orc) (request_source rq) (rq_body rq)"
  from handleIngest_prepares [OF assms(1) False, where fe = fe and reg = reg and orc = orc]
  obtain m where h: "handleIngest fe reg orc rq w = answer fe (or_parked orc) (request_source rq) ?pr (w\<lparr>w_pool := m\<rparr>)"
    by blast
  show ?thesis
    using assms(2) False answer_outcome [of "or_parked orc" "request_source rq" ?pr "w\<lparr>w_pool := m\<rparr>" fe]
    unfolding h by (cases ?pr) (auto simp: ingest_crash_def ingest_status_def ingest_accepts_def brought_in_def split: if_splits)
qed

text \<open>
  C28: a call of the handler is a run of the dispatcher's own steps, so everything proved of those
  runs holds with requests coming in; the run accepts at most one payload and settles none, and an
  answered request has brought in exactly its event, with its source and the bytes prepared for it,
  when the answer is 202, and nothing otherwise.
\<close>

theorem ingest_is_a_run:
  assumes "pool_ok (w_pool w) L" and "parked_ok (or_parked orc) (w_disp w)"
  shows "\<exists>tr. druns fe (w_disp w) tr (w_disp (snd (handleIngest fe reg orc rq w))) \<and>
    settles_nothing tr \<and> length (accepted tr) \<le> 1 \<and>
    (case fst (handleIngest fe reg orc rq w) of
       Ret resp \<Rightarrow> accepted tr = brought_in reg orc rq (Ret resp) | Panic m \<Rightarrow> True)"
proof -
  from ingest_run [OF assms, of fe reg rq] obtain tr where
      tr: "druns fe (w_disp w) tr (w_disp (snd (handleIngest fe reg orc rq w)))" "settles_nothing tr"
      "accepted tr = (if rq_body rq = [] then []
         else ingest_accepts (or_parked orc) (request_source rq)
           (prepare reg (or_time orc) (or_uuid orc) (request_source rq) (rq_body rq)) (w_disp w))" by blast
  moreover have "length (accepted tr) \<le> 1"
    by (simp add: tr(3) ingest_accepts_def split: prepared.split)
  ultimately show ?thesis
    using answered_accepts [OF assms(1), of fe reg orc rq]
    by (intro exI [of _ tr]) (auto split: call.split)
qed

section \<open>Who gets in\<close>

lemma count_and_reply_no_error: "fst (count_and_reply f code b w) \<noteq> Ret (Inl e)"
  by (auto simp: count_and_reply_def reply_def split: prod.split call.split)

lemma enqueue_no_error: "fst (enqueue parked source i data w) \<noteq> Ret (Inl e)"
  by (auto simp: enqueue_def count_and_reply_no_error split: prod.split call.split bool.split)

lemma handleIngest_no_error: "fst (handleIngest fe reg orc rq w) \<noteq> Ret (Inl e)"
  by (auto simp: handleIngest_def Let_def count_and_reply_no_error enqueue_no_error reply_def
      split: prod.split sum.split call.split)

text \<open>
  C31: the ingest route lets in exactly the requests with credentials: without them the client gets
  a 401 with a JSON error body, and the dispatcher, the pool, the metrics and the log are as
  before; with them it gets what the handler answers. The probes are answered 200 without
  credentials and change nothing either.
\<close>

theorem routes_guarded:
  "(\<exists>b h. route fe jwt_Parse cfg reg orc ''POST'' ''/v1/ingest'' = Some h \<and>
     serve fe h rq w =
       (if has_credentials jwt_Parse cfg rq then handleIngest fe reg orc rq w else reply 401 b w)) \<and>
   route fe jwt_Parse cfg reg orc ''GET'' ''/healthz'' = Some handleHealthz \<and>
   serve fe handleHealthz rq w = reply 200 ok_body w \<and>
   route fe jwt_Parse cfg reg orc ''GET'' ''/readyz'' = Some handleReadyz \<and>
   serve fe handleReadyz rq w = reply 200 ok_body w"
proof -
  let ?h = "auth_Middleware jwt_Parse cfg (handleIngest fe reg orc)"
  have ne: "\<forall>e. fst (handleIngest fe reg orc rq w) \<noteq> Ret (Inl e)" by (simp add: handleIngest_no_error)
  have "serve fe ?h rq w = handleIngest fe reg orc rq w" if "has_credentials jwt_Parse cfg rq"
    using guard_admits [OF that, of "handleIngest fe reg orc" w] ne
    by (auto simp: serve_def split: prod.split call.split sum.split)
  moreover have "\<exists>b. serve fe ?h rq w = reply 401 b w" if "\<not> has_credentials jwt_Parse cfg rq"
    using guard_denies [OF that, of "handleIngest fe reg orc" w]
    by (auto simp: serve_def ErrorHandler_def as_fiber_def Let_def status_defs)
  ultimately have "\<exists>b h. route fe jwt_Parse cfg reg orc ''POST'' ''/v1/ingest'' = Some h \<and>
     serve fe h rq w =
       (if has_credentials jwt_Parse cfg rq then handleIngest fe reg orc rq w else reply 401 b w)"
    by (cases "has_credentials jwt_Parse cfg rq") (auto simp: route_def)
  then show ?thesis
    by (simp add: route_def serve_def handleHealthz_def handleReadyz_def reply_def status_defs)
qed

section \<open>Many requests at once\<close>

text \<open>
  The stretch of the handler that holds a buffer, cut at every access to the pool: requests,
  numbered, advance in any order while the garbage collector empties the pool. The bytes of an
  event's body may still be those of the buffer, as \<^verbatim>\<open>Passthrough\<close> leaves them: then they are
  read when the event is marshalled (the flag of \<open>Translated\<close>).
\<close>

record ingest_request =
  q_source :: bytes
  q_raw :: bytes
  q_time :: readings
  q_uuid :: "bytes call"

datatype phase =
    Waiting
  | Taken nat
  | Filled nat
  | Translated nat Event bool
  | Marshalled nat prepared
  | Over prepared

datatype ingest_act = Advance nat "nat option" nat | Collect nat

record ingesting =
  g_mem :: pool_mem
  g_phase :: "nat \<Rightarrow> phase"

definition enter :: "nat \<Rightarrow> phase \<Rightarrow> ingesting \<Rightarrow> ingesting" where
  "enter k ph w = w\<lparr>g_phase := (g_phase w)(k := ph)\<rparr>"

definition marshalled :: "Event \<Rightarrow> prepared" where
  "marshalled e = (case marshal_event e of Inl x \<Rightarrow> Unmarshalable | Inr data \<Rightarrow> Prepared (ID e) data)"

definition translated :: "Registry \<Rightarrow> ingest_request \<Rightarrow> nat \<Rightarrow> bytes \<Rightarrow> phase" where
  "translated reg q ob raw =
     (case Translate reg (q_time q) (q_source q) raw of
        Inl err \<Rightarrow> Marshalled ob (Untranslatable err)
      | Inr e \<Rightarrow>
          (case event_id (q_uuid q) e of
             Panic m \<Rightarrow> Over (No_id m)
           | Ret i \<Rightarrow> Translated ob (e\<lparr>ID := i\<rparr>) (Body e = Some raw)))"

fun ingest_step :: "Registry \<Rightarrow> (nat \<Rightarrow> ingest_request) \<Rightarrow> ingesting \<Rightarrow> ingest_act \<Rightarrow> ingesting" where
  "ingest_step reg reqs w (Advance k choice grow) =
     (case g_phase w k of
        Waiting \<Rightarrow> (let (ob, m) = pool_Get choice (g_mem w) in enter k (Taken ob) (w\<lparr>g_mem := m\<rparr>))
      | Taken ob \<Rightarrow> enter k (Filled ob) (w\<lparr>g_mem := append_data grow ob (q_raw (reqs k)) (g_mem w)\<rparr>)
      | Filled ob \<Rightarrow> enter k (translated reg (reqs k) ob (pool_data ob (g_mem w))) w
      | Translated ob e aliased \<Rightarrow>
          enter k (Marshalled ob
            (marshalled (if aliased then e\<lparr>Body := Some (pool_data ob (g_mem w))\<rparr> else e))) w
      | Marshalled ob r \<Rightarrow> enter k (Over r) (w\<lparr>g_mem := pool_Put ob (g_mem w)\<rparr>)
      | Over r \<Rightarrow> w)"
| "ingest_step reg reqs w (Collect i) = w\<lparr>g_mem := pool_drop i (g_mem w)\<rparr>"

definition ingesting_init :: ingesting where
  "ingesting_init = \<lparr>g_mem = pool_init, g_phase = (\<lambda>_. Waiting)\<rparr>"

definition request_result :: "Registry \<Rightarrow> ingest_request \<Rightarrow> prepared" where
  "request_result reg q = prepare reg (q_time q) (q_uuid q) (q_source q) (q_raw q)"

text \<open>The buffers on loan, each with what its request has put into it, and what a phase says.\<close>

fun lent :: "ingest_request \<Rightarrow> phase \<Rightarrow> (nat \<times> bytes) option" where
  "lent q (Taken ob) = Some (ob, [])"
| "lent q (Filled ob) = Some (ob, q_raw q)"
| "lent q (Translated ob e aliased) = Some (ob, q_raw q)"
| "lent q (Marshalled ob r) = Some (ob, q_raw q)"
| "lent q _ = None"

definition loan :: "(nat \<Rightarrow> ingest_request) \<Rightarrow> ingesting \<Rightarrow> nat \<Rightarrow> (nat \<times> bytes) option" where
  "loan reqs w k = lent (reqs k) (g_phase w k)"

definition phase_ok :: "Registry \<Rightarrow> ingest_request \<Rightarrow> phase \<Rightarrow> bool" where
  "phase_ok reg q ph \<longleftrightarrow>
     (case ph of
        Translated ob e aliased \<Rightarrow> marshalled e = request_result reg q \<and> (aliased \<longrightarrow> Body e = Some (q_raw q))
      | Marshalled ob r \<Rightarrow> r = request_result reg q
      | Over r \<Rightarrow> r = request_result reg q
      | _ \<Rightarrow> True)"

definition ingesting_ok :: "Registry \<Rightarrow> (nat \<Rightarrow> ingest_request) \<Rightarrow> ingesting \<Rightarrow> bool" where
  "ingesting_ok reg reqs w \<longleftrightarrow>
     pooled.leases_ok (g_mem w) (loan reqs w) \<and> (\<forall>k. phase_ok reg (reqs k) (g_phase w k))"

lemma translated_ok: "phase_ok reg q (translated reg q ob (q_raw q))"
  by (auto simp: phase_ok_def translated_def marshalled_def request_result_def prepare_def
      split: sum.split call.split)

lemma translated_lent: "lent q (translated reg q ob raw) \<in> {None, Some (ob, q_raw q)}"
  by (auto simp: translated_def split: sum.split call.split)

lemma ingesting_ok_enter:
  assumes "ingesting_ok reg reqs w" and "pooled.leases_ok m ((loan reqs w)(k := lent (reqs k) ph))"
    and "phase_ok reg (reqs k) ph"
  shows "ingesting_ok reg reqs (enter k ph (w\<lparr>g_mem := m\<rparr>))"
proof -
  have "loan reqs (enter k ph (w\<lparr>g_mem := m\<rparr>)) = (loan reqs w)(k := lent (reqs k) ph)"
    by (simp add: loan_def enter_def fun_eq_iff)
  with assms show ?thesis by (simp add: ingesting_ok_def enter_def)
qed

lemma ingest_step_ok:
  assumes ok: "ingesting_ok reg reqs w"
  shows "ingesting_ok reg reqs (ingest_step reg reqs w a)"
proof (cases a)
  case (Collect i)
  have "loan reqs (w\<lparr>g_mem := pool_drop i (g_mem w)\<rparr>) = loan reqs w" by (simp add: loan_def fun_eq_iff)
  with ok Collect show ?thesis by (simp add: ingesting_ok_def pooled.leases_shrink)
next
  case (Advance k choice grow)
  from ok have L: "pooled.leases_ok (g_mem w) (loan reqs w)"
    and P: "phase_ok reg (reqs k) (g_phase w k)" by (auto simp: ingesting_ok_def)
  have raw: "pool_data ob (g_mem w) = b" if "lent (reqs k) (g_phase w k) = Some (ob, b)" for ob b
    using pooled.leases_reads [OF L] that by (simp add: loan_def)
  have same: "(loan reqs w)(k := lent (reqs k) ph) = loan reqs w"
    if "lent (reqs k) ph = lent (reqs k) (g_phase w k)" for ph
    using that by (simp add: loan_def fun_upd_idem)
  note enter = ingesting_ok_enter [OF ok]
  note stay = enter [where m = "g_mem w", simplified]
  show ?thesis
  proof (cases "g_phase w k")
    case Waiting
    obtain ob m where get: "pool_Get choice (g_mem w) = (ob, m)" by fastforce
    have "pooled.leases_ok m ((loan reqs w)(k \<mapsto> (ob, [])))"
      using pooled.leases_take(1) [OF L _ get, of k] Waiting by (simp add: loan_def)
    then have "ingesting_ok reg reqs (enter k (Taken ob) (w\<lparr>g_mem := m\<rparr>))"
      by (intro enter) (simp_all add: phase_ok_def)
    with get Waiting Advance show ?thesis by simp
  next
    case (Taken ob)
    have "pooled.leases_ok (append_data grow ob (q_raw (reqs k)) (g_mem w)) ((loan reqs w)(k \<mapsto> (ob, q_raw (reqs k))))"
      using pooled.leases_extend [OF L, of k ob "[]" grow "q_raw (reqs k)"] Taken by (simp add: loan_def)
    then have "ingesting_ok reg reqs (enter k (Filled ob) (w\<lparr>g_mem := append_data grow ob (q_raw (reqs k)) (g_mem w)\<rparr>))"
      by (intro enter) (simp_all add: phase_ok_def)
    with Taken Advance show ?thesis by simp
  next
    case (Filled ob)
    let ?ph = "translated reg (reqs k) ob (q_raw (reqs k))"
    have "pooled.leases_ok (g_mem w) ((loan reqs w)(k := lent (reqs k) ?ph))"
      using translated_lent [of "reqs k" reg ob "q_raw (reqs k)"] same [of ?ph] L Filled
        leases_forget [OF L, of k] by auto
    from stay [OF this translated_ok] raw Filled Advance show ?thesis by simp
  next
    case (Translated ob e aliased)
    let ?e = "if aliased then e\<lparr>Body := Some (q_raw (reqs k))\<rparr> else e"
    have e: "?e = e" "marshalled e = request_result reg (reqs k)"
      using P Translated by (auto simp: phase_ok_def)
    let ?ph = "Marshalled ob (marshalled ?e)"
    have "pooled.leases_ok (g_mem w) ((loan reqs w)(k := lent (reqs k) ?ph))"
      using same [of ?ph] L Translated by simp
    from stay [OF this] e have "ingesting_ok reg reqs (enter k ?ph w)" by (simp add: phase_ok_def)
    with raw Translated Advance show ?thesis by (cases aliased) simp_all
  next
    case (Marshalled ob r)
    have "pooled.leases_ok (pool_Put ob (g_mem w)) ((loan reqs w)(k := None))"
      using pooled.leases_give [OF L, of k] Marshalled by (simp add: loan_def)
    then have "ingesting_ok reg reqs (enter k (Over r) (w\<lparr>g_mem := pool_Put ob (g_mem w)\<rparr>))"
      using P Marshalled by (intro enter) (simp_all add: phase_ok_def)
    with Marshalled Advance show ?thesis by simp
  next
    case (Over r)
    with Advance ok show ?thesis by simp
  qed
qed

text \<open>How far a request is, and that each of its steps takes it further.\<close>

fun phase_no :: "phase \<Rightarrow> nat" where
  "phase_no Waiting = 0" | "phase_no (Taken ob) = 1" | "phase_no (Filled ob) = 2"
| "phase_no (Translated ob e a) = 3" | "phase_no (Marshalled ob r) = 4" | "phase_no (Over r) = 5"

definition advances :: "nat \<Rightarrow> ingest_act list \<Rightarrow> nat" where
  "advances k acts = length (filter (\<lambda>a. case a of Advance j c g \<Rightarrow> j = k | Collect i \<Rightarrow> False) acts)"

lemma ingest_step_progress:
  "min 5 (phase_no (g_phase w k) + advances k [a]) \<le> phase_no (g_phase (ingest_step reg reqs w a) k)"
  by (cases "(reg, reqs, w, a)" rule: ingest_step.cases)
    (auto simp: advances_def enter_def translated_def split_beta Let_def split: phase.split sum.split call.split)

lemma ingest_steps_progress:
  "min 5 (advances k acts) \<le> phase_no (g_phase (foldl (ingest_step reg reqs) ingesting_init acts) k)"
proof (induction acts rule: rev_induct)
  case (snoc a acts)
  then show ?case
    using ingest_step_progress [of "foldl (ingest_step reg reqs) ingesting_init acts" k a reg reqs]
    by (simp add: advances_def)
qed (simp add: advances_def)

lemma ingest_steps_ok: "ingesting_ok reg reqs (foldl (ingest_step reg reqs) ingesting_init acts)"
proof (induction acts rule: rev_induct)
  case Nil
  show ?case
    by (simp add: ingesting_ok_def ingesting_init_def phase_ok_def loan_def pooled.leases_ok_def
        pooled.on_loan_def pool_ok_init)
qed (simp add: ingest_step_ok)

text \<open>
  C27: requests that share the pool do not see each other: in every interleaving of any number of
  requests with the garbage collector, a request that has made five steps of its own is over, and
  what it has prepared, also from a body that still lay in the shared buffer, is what its own bytes
  alone give.
\<close>

theorem requests_isolated:
  "case g_phase (foldl (ingest_step reg reqs) ingesting_init acts) k of
     Over r \<Rightarrow> r = prepare reg (q_time (reqs k)) (q_uuid (reqs k)) (q_source (reqs k)) (q_raw (reqs k))
   | ph \<Rightarrow> advances k acts < 5"
proof -
  let ?w = "foldl (ingest_step reg reqs) ingesting_init acts"
  have "phase_ok reg (reqs k) (g_phase ?w k)"
    using ingest_steps_ok [of reg reqs acts] by (simp add: ingesting_ok_def)
  moreover have "min 5 (advances k acts) \<le> phase_no (g_phase ?w k)" by (rule ingest_steps_progress)
  ultimately show ?thesis
    by (cases "g_phase ?w k") (auto simp: phase_ok_def request_result_def)
qed

section \<open>From the request to the verdict of the validators\<close>

text \<open>
  C30: with the default registry, a clock after 1970 that JSON can print and a source and identifier
  that are not empty, a request is either refused as untranslatable or prepared, never unmarshalable;
  and a prepared event later passes the two validators exactly when its type is not empty, its body
  leaves room for one more level of nesting and its numbers are within the range of \<^verbatim>\<open>float64\<close>.
  Every other event has been answered 202 and goes to the dead letter queue.
\<close>

theorem accepted_event_verdict:
  assumes "clock_ok tm" and "time_json (now_received tm) \<noteq> None" and "source \<noteq> []" and "i \<noteq> []"
  shows "case prepare NewRegistry tm (Ret i) source raw of
      Untranslatable err \<Rightarrow> Passthrough tm source raw = Inl err
    | Prepared j data \<Rightarrow> j = i \<and>
        (\<exists>e v out. Passthrough tm source raw = Inr e \<and> body_tree e = Some v \<and>
          Run (NewChain [SchemaValidator, TypeChecker]) (new_result \<lparr>p_Source = source, p_Data = data\<rparr>) s =
            (Ret out, new_result \<lparr>p_Source = source, p_Data = data\<rparr>, s) \<and>
          (out = None \<longleftrightarrow> EventType e \<noteq> [] \<and> nesting v < max_depth \<and> in_range v))
    | _ \<Rightarrow> False"
proof (cases "Passthrough tm source raw")
  case (Inl err)
  then show ?thesis by (simp add: prepare_def registry_default)
next
  case (Inr e)
  obtain v where v: "body_tree e = Some v" using Passthrough_body [OF Inr] by blast
  note sh = Passthrough_shape [OF Inr]
  have "body_tree (e\<lparr>ID := i\<rparr>) \<noteq> None" using v by (simp add: body_tree_def)
  with assms(2) sh(3) marshal_event_works [of "e\<lparr>ID := i\<rparr>"]
  obtain data where data: "marshal_event (e\<lparr>ID := i\<rparr>) = Inr data" by auto
  then have "prepare NewRegistry tm (Ret i) source raw = Prepared i data"
    using Inr sh(1) by (simp add: prepare_def registry_default event_id_def)
  moreover note event_verdict_prepared [OF Inr v assms(1,3,4) data]
  moreover have "Run (NewChain [SchemaValidator, TypeChecker]) (new_result \<lparr>p_Source = source, p_Data = data\<rparr>) s =
            (Ret (verdict data), new_result \<lparr>p_Source = source, p_Data = data\<rparr>, s)"
    by (simp add: Run_def NewChain_def run_validators new_result_def del: run_handlers.simps)
  ultimately show ?thesis using Inr v by auto
qed

section \<open>The listeners\<close>

text \<open>
  \<^verbatim>\<open>Start\<close> is calls into the HTTP libraries: it mounts the handler of the active metrics
  provider, runs the metrics server and the listener and waits for the end of the context or a
  failure of the listener. The model is the list of the calls it makes, in order, and what it
  returns; \<open>result\<close> gives the results of the libraries and \<open>mux_refuses\<close> the panic of
  \<^verbatim>\<open>ServeMux.Handle\<close> on a pattern that it does not accept, of which the empty one is an example.
\<close>

record Server =
  srv_port :: bytes
  srv_cfg :: Config
  srv_reg :: Registry

definition ingestor_New :: "bytes \<Rightarrow> Config \<Rightarrow> Registry \<Rightarrow> Server" where
  "ingestor_New port cfg reg = \<lparr>srv_port = port, srv_cfg = cfg, srv_reg = reg\<rparr>"

datatype server_call =
    Metrics_serve bytes bytes http_handler int int
      \<comment> \<open>address, path and handler, read and write timeout in nanoseconds\<close>
  | App_ListenTLS bytes bytes bytes
  | App_Listen bytes
  | Metrics_Shutdown int                     \<comment> \<open>with a timeout, in nanoseconds\<close>
  | App_Shutdown int

datatype start_end = Ctx_Done | Listen_returned "error option"

definition metrics_port :: "Config \<Rightarrow> bytes" where
  "metrics_port cfg = (if MetricsPort (Observability cfg) = [] then ''9091'' else MetricsPort (Observability cfg))"

definition listen_call :: "Server \<Rightarrow> server_call" where
  "listen_call srv =
     (if TLS_Enabled (TLS (srv_cfg srv))
      then App_ListenTLS ('':'' @ srv_port srv) (CertFile (TLS (srv_cfg srv))) (KeyFile (TLS (srv_cfg srv)))
      else App_Listen ('':'' @ srv_port srv))"

definition metrics_server :: "Server \<Rightarrow> 'z env_scheme \<Rightarrow> server_call" where
  "metrics_server srv s =
     Metrics_serve ('':'' @ metrics_port (srv_cfg srv)) (MetricsPath (Observability (srv_cfg srv)))
       (metrics_Handler s) (5 * time_Second) (10 * time_Second)"

text \<open>The goroutine of the metrics server: a failure other than the shutdown is logged.\<close>

definition ErrServerClosed :: error where
  "ErrServerClosed = New_error ''http: Server closed''"

definition metrics_goroutine :: "error option \<Rightarrow> 'z env_scheme \<Rightarrow> 'z env_scheme" where
  "metrics_goroutine err s =
     (case err of
        None \<Rightarrow> s
      | Some e \<Rightarrow> if e = ErrServerClosed then s
          else log_Printf (Lit ''[ingestor] metrics server error: '' # err_text e) s)"

definition ingestor_Start ::
  "(bytes \<Rightarrow> bytes option) \<Rightarrow> (server_call \<Rightarrow> error option) \<Rightarrow> start_end \<Rightarrow> Server \<Rightarrow> 'z env_scheme \<Rightarrow>
   error option call \<times> server_call list \<times> 'z env_scheme" where
  "ingestor_Start mux_refuses result ending srv s =
     (case mux_refuses (MetricsPath (Observability (srv_cfg srv))) of
        Some m \<Rightarrow> (Panic m, [], s)
      | None \<Rightarrow>
          (let m = metrics_server srv s; started = [m, listen_call srv];
             s1 = metrics_goroutine (result m) s
           in case ending of
                Ctx_Done \<Rightarrow>
                  (Ret (result (App_Shutdown (10 * time_Second))),
                   started @ [Metrics_Shutdown (5 * time_Second), App_Shutdown (10 * time_Second)], s1)
              | Listen_returned e \<Rightarrow> (Ret e, started, s1)))"

text \<open>
  A failing metrics server changes neither what Start calls nor what it returns; and however Start
  ends, unless the path of the metrics is refused it has tried to listen for requests.
\<close>

lemma metrics_failure_harmless:
  assumes "\<And>c. (\<forall>a p h r w. c \<noteq> Metrics_serve a p h r w) \<Longrightarrow> result c = result' c"
  shows "fst (ingestor_Start mux result ending srv s) = fst (ingestor_Start mux result' ending srv s)"
    and "fst (snd (ingestor_Start mux result ending srv s)) = fst (snd (ingestor_Start mux result' ending srv s))"
    and "mux (MetricsPath (Observability (srv_cfg srv))) = None \<Longrightarrow>
      listen_call srv \<in> set (fst (snd (ingestor_Start mux result ending srv s)))"
  using assms by (auto simp: ingestor_Start_def Let_def split: option.split start_end.split)

section \<open>Examples\<close>

abbreviation demo_fmt :: fmt_env where
  "demo_fmt \<equiv> \<lparr>is_print = (\<lambda>_. True), duration_text = (\<lambda>_. []), lib_text = (\<lambda>_. [])\<rparr>"

abbreviation demo_world :: "unit world" where
  "demo_world \<equiv> \<lparr>w_disp = demo_start, w_pool = pool_init\<rparr>"

abbreviation demo_chance :: chance where
  "demo_chance \<equiv> \<lparr>or_take = None, or_grow = 0, or_time = \<lparr>now_ts = 2000000, now_received = 0\<rparr>,
     or_uuid = Ret ''u'', or_parked = None\<rparr>"

abbreviation demo_reading :: readings where
  "demo_reading \<equiv> \<lparr>now_ts = 2000000, now_received = 0\<rparr>"

text \<open>A source-specific translator that takes every payload for an event without a body.\<close>

abbreviation demo_registry :: Registry where
  "demo_registry \<equiv> Register ''web'' (\<lambda>tm source raw. Inr \<lparr>ID = ''7'', ev_Source = source, EventType = ''t'',
     TimestampMS = 5, ev_ReceivedAt = 0, Body = None\<rparr>) NewRegistry"

abbreviation demo_request :: http_request where
  "demo_request \<equiv> \<lparr>rq_header = (\<lambda>h. if h = ''X-Source-ID'' then ''web'' else []), rq_body = ''x''\<rparr>"

lemma demo_prepared: "\<exists>data. prepare demo_registry demo_reading (Ret ''u'') (request_source demo_request) ''x'' = Prepared ''7'' data"
proof -
  let ?e = "\<lparr>ID = ''7'', ev_Source = ''web'', EventType = ''t'', TimestampMS = 5, ev_ReceivedAt = 0, Body = None\<rparr>"
  have "time_json (ev_ReceivedAt ?e) \<noteq> None" by code_simp
  moreover have "body_tree ?e \<noteq> None" by (simp add: body_tree_def)
  ultimately obtain data where "marshal_event ?e = Inr data" using marshal_event_works [of ?e] by blast
  then show ?thesis
    by (simp add: prepare_def Translate_def selected_def Register_def request_source_def header_or_def event_id_def)
qed

theorem ingest_outcome_witness:
  "\<exists>b. fst (handleIngest demo_fmt demo_registry demo_chance demo_request demo_world) = Ret (Inr \<lparr>rs_status = 202, rs_body = b\<rparr>)"
proof -
  obtain data where d: "prepare demo_registry demo_reading (Ret ''u'') (request_source demo_request) ''x'' = Prepared ''7'' data"
    using demo_prepared by blast
  show ?thesis
    using ingest_outcome [of demo_world "{}", where rq = demo_request and reg = demo_registry and orc = demo_chance and fe = demo_fmt] d pool_ok_init
    by (simp add: Let_def ingest_crash_def ingest_status_def has_room_def refuses_def new_provider_def)
qed

theorem ingest_is_a_run_witness:
  "\<exists>tr. druns demo_fmt demo_start tr (w_disp (snd (handleIngest demo_fmt demo_registry demo_chance demo_request demo_world))) \<and>
     settles_nothing tr \<and> length (accepted tr) \<le> 1"
  using ingest_is_a_run [of demo_world "{}" demo_chance, where rq = demo_request and reg = demo_registry and fe = demo_fmt]
    pool_ok_init by (auto simp: parked_ok_def)

theorem accepted_event_verdict_witness:
  "\<not> (case prepare NewRegistry demo_reading (Ret ''u'') ''web'' ''{}'' of Unmarshalable \<Rightarrow> True | No_id m \<Rightarrow> True | _ \<Rightarrow> False)"
proof -
  have "time_json (now_received demo_reading) \<noteq> None" by code_simp
  moreover have "clock_ok demo_reading" by (simp add: clock_ok_def in_int64_def int64_min_def int64_max_def)
  ultimately show ?thesis
    using accepted_event_verdict [of demo_reading "''web''" "''u''" "''{}''" demo_env]
    by (simp split: prepared.splits)
qed

end
