(* ===== verification/Redisstore.thy ===== *)
theory Redisstore
  imports Config
begin

text \<open>
  Package \<^verbatim>\<open>internal/redisstore\<close>: the wrapper around go-redis. The client library and the
  server behind it are the record \<open>redis_ops\<close> of functions on a state of any type; an error of the
  library is its text, apart from the sentinel \<^verbatim>\<open>redis.Nil\<close>.
\<close>

section \<open>The library\<close>

datatype redis_error = redis_Nil | Redis_error bytes

fun redis_error_text :: "redis_error \<Rightarrow> bytes" where
  "redis_error_text redis_Nil = ''redis: nil''"
| "redis_error_text (Redis_error m) = m"

definition redis_err :: "redis_error \<Rightarrow> error" where
  "redis_err e = Lib_error (Foreign (redis_error_text e))"

text \<open>The values of a stream message are strings; the code also accepts byte slices.\<close>

datatype field_value = F_string bytes | F_bytes bytes | F_other

record XMessage =
  msg_ID :: bytes
  msg_Values :: "bytes \<rightharpoonup> field_value"

record read_args =
  ra_Group :: bytes
  ra_Consumer :: bytes
  ra_Streams :: "bytes list"
  ra_Count :: int
  ra_Block :: int

record 'r redis_ops =
  rd_Ping :: "'r \<Rightarrow> redis_error option \<times> 'r"
  rd_Close :: "'r \<Rightarrow> redis_error option \<times> 'r"
  rd_XAdd :: "bytes \<Rightarrow> (bytes \<times> bytes) list \<Rightarrow> 'r \<Rightarrow> redis_error option \<times> 'r"
  rd_XGroupCreateMkStream :: "bytes \<Rightarrow> bytes \<Rightarrow> bytes \<Rightarrow> 'r \<Rightarrow> redis_error option \<times> 'r"
  rd_XReadGroup :: "read_args \<Rightarrow> 'r \<Rightarrow> (redis_error + (bytes \<times> XMessage list) list) \<times> 'r"
  rd_XAck :: "bytes \<Rightarrow> bytes \<Rightarrow> bytes list \<Rightarrow> 'r \<Rightarrow> redis_error option \<times> 'r"

section \<open>The wrapper\<close>

text \<open>\<open>dial\<close> is \<^verbatim>\<open>redis.NewClient\<close>, which does not connect yet.\<close>

definition redisstore_New ::
  "(bytes \<Rightarrow> bytes \<Rightarrow> int \<Rightarrow> 'r redis_ops \<times> 'r) \<Rightarrow> RedisConfig \<Rightarrow> (error + 'r redis_ops) \<times> 'r" where
  "redisstore_New dial cfg =
     (let (ops, r) = dial (Addr cfg) (Password cfg) (DB cfg) in
      case rd_Ping ops r of
        (Some e, r1) \<Rightarrow>
          (Inl (errorf_w [Lit ''redisstore: ping '', Quoted (Addr cfg), Lit '': ''] (redis_err e)),
           snd (rd_Close ops r1))
      | (None, r1) \<Rightarrow> (Inr ops, r1))"

definition XAdd :: "'r redis_ops \<Rightarrow> bytes \<Rightarrow> bytes \<Rightarrow> 'r \<Rightarrow> error option \<times> 'r" where
  "XAdd ops stream data r =
     (let (e, r1) = rd_XAdd ops stream [(''data'', data)] r in (map_option redis_err e, r1))"

definition busyGroupErr :: bytes where
  "busyGroupErr = ''BUSYGROUP Consumer Group name already exists''"

definition CreateConsumerGroup :: "'r redis_ops \<Rightarrow> bytes \<Rightarrow> bytes \<Rightarrow> 'r \<Rightarrow> error option \<times> 'r" where
  "CreateConsumerGroup ops stream grp r =
     (case rd_XGroupCreateMkStream ops stream grp ''0'' r of
        (None, r1) \<Rightarrow> (None, r1)
      | (Some e, r1) \<Rightarrow>
          if redis_error_text e \<noteq> busyGroupErr
          then (Some (errorf_w [Lit ''redisstore: create group '', Quoted grp, Lit '' on '', Quoted stream, Lit '': '']
                  (redis_err e)), r1)
          else (None, r1))"

definition read_request :: "bytes \<Rightarrow> bytes \<Rightarrow> bytes \<Rightarrow> int \<Rightarrow> int \<Rightarrow> read_args" where
  "read_request grp consumer stream cnt blockMs =
     \<lparr>ra_Group = grp, ra_Consumer = consumer, ra_Streams = [stream, ''>''], ra_Count = cnt,
      ra_Block = wrap64 (blockMs * time_Millisecond)\<rparr>"

definition XReadGroup ::
  "'r redis_ops \<Rightarrow> bytes \<Rightarrow> bytes \<Rightarrow> bytes \<Rightarrow> int \<Rightarrow> int \<Rightarrow> 'r \<Rightarrow> (error + XMessage list) \<times> 'r" where
  "XReadGroup ops grp consumer stream cnt blockMs r =
     (case rd_XReadGroup ops (read_request grp consumer stream cnt blockMs) r of
        (Inl e, r1) \<Rightarrow>
          if e = redis_Nil then (Inr [], r1)
          else (Inl (errorf_w [Lit ''redisstore: XREADGROUP on '', Quoted stream, Lit '': ''] (redis_err e)), r1)
      | (Inr [], r1) \<Rightarrow> (Inr [], r1)
      | (Inr ((k, msgs) # rest), r1) \<Rightarrow> (Inr msgs, r1))"

definition XAck :: "'r redis_ops \<Rightarrow> bytes \<Rightarrow> bytes \<Rightarrow> bytes \<Rightarrow> 'r \<Rightarrow> error option \<times> 'r" where
  "XAck ops stream grp i r = (let (e, r1) = rd_XAck ops stream grp [i] r in (map_option redis_err e, r1))"

definition redisstore_Close :: "'r redis_ops \<Rightarrow> 'r \<Rightarrow> error option \<times> 'r" where
  "redisstore_Close ops r = (let (e, r1) = rd_Close ops r in (map_option redis_err e, r1))"

end
