(* ===== verification/Streamingestor.thy ===== *)
theory Streamingestor
  imports Redisstore Intake
begin

text \<open>
  Package \<^verbatim>\<open>internal/streamingestor\<close>: the handling of one stream message, the loop of a
  region's reader and \<^verbatim>\<open>Start\<close>. A reader goroutine has no recover: a panic ends the process. The
  loop may run for ever, so it is run on a list of rounds, what the context and the outside do in
  each; with the rounds used up it is still running. Properties: a message is acknowledged exactly
  when it was queued or can never be, a reader stops at the first round that finds the context
  cancelled, and its effect on the dispatcher is a run of the dispatcher's steps.
\<close>

section \<open>One message\<close>

record ('z, 'r) stream_world =
  s_disp :: "'z disp"
  s_redis :: 'r

record stream_chance =
  sc_time :: readings
  sc_uuid :: "bytes call"
  sc_parked :: "nat option"

record 'r StreamIngestor =
  si_cfg :: RedisConfig
  si_client :: "'r redis_ops"
  si_reg :: Registry

definition streamingestor_New :: "RedisConfig \<Rightarrow> 'r redis_ops \<Rightarrow> Registry \<Rightarrow> 'r StreamIngestor" where
  "streamingestor_New cfg ops reg = \<lparr>si_cfg = cfg, si_client = ops, si_reg = reg\<rparr>"

definition streamKey :: "'r StreamIngestor \<Rightarrow> bytes \<Rightarrow> bytes" where
  "streamKey si region = StreamPrefix (si_cfg si) @ '':'' @ region"

fun extractBytes :: "field_value option \<Rightarrow> bytes option" where
  "extractBytes (Some (F_string s)) = Some s"
| "extractBytes (Some (F_bytes b)) = Some b"
| "extractBytes _ = None"

definition log_disp :: "msg \<Rightarrow> 'z disp \<Rightarrow> 'z disp" where
  "log_disp m d = d\<lparr>sh := (sh d)\<lparr>penv := log_Printf m (penv (sh d))\<rparr>\<rparr>"

definition ack :: "'r StreamIngestor \<Rightarrow> bytes \<Rightarrow> bytes \<Rightarrow> ('z, 'r) stream_world \<Rightarrow> ('z, 'r) stream_world" where
  "ack si stream i w = w\<lparr>s_redis := snd (XAck (si_client si) stream (ConsumerGroup (si_cfg si)) i (s_redis w))\<rparr>"

text \<open>A metrics call, then the rest; a panic skips it.\<close>

definition count_then ::
  "('z env_scheme \<Rightarrow> unit call \<times> 'z env_scheme) \<Rightarrow> (('z, 'r) stream_world \<Rightarrow> ('z, 'r) stream_world) \<Rightarrow>
   ('z, 'r) stream_world \<Rightarrow> unit call \<times> ('z, 'r) stream_world" where
  "count_then f k w =
     (case on_disp f (s_disp w) of
        (Panic m, d) \<Rightarrow> (Panic m, w\<lparr>s_disp := d\<rparr>)
      | (Ret _, d) \<Rightarrow> (Ret (), k (w\<lparr>s_disp := d\<rparr>)))"

definition no_data_log :: "bytes \<Rightarrow> msg" where
  "no_data_log i = [Lit ''[streamingestor] msg '', Quoted i, Lit '' has no usable 'data' field '',
     Lit [CHR 0xE2, CHR 0x80, CHR 0x94], Lit '' skipping'']"

definition message_log :: "bytes \<Rightarrow> bytes \<Rightarrow> error \<Rightarrow> msg" where
  "message_log what i e = [Lit ''[streamingestor] '', Lit what, Lit '' error msg '', Quoted i, Lit '': ''] @ err_text e"

definition submit_message ::
  "'r StreamIngestor \<Rightarrow> nat option \<Rightarrow> bytes \<Rightarrow> bytes \<Rightarrow> bytes \<Rightarrow> bytes \<Rightarrow> ('z, 'r) stream_world \<Rightarrow>
   unit call \<times> ('z, 'r) stream_world" where
  "submit_message si parked stream region i data w =
     (case Submit parked \<lparr>p_Source = region, p_Data = data\<rparr> (s_disp w) of
        (Panic m, d) \<Rightarrow> (Panic m, w\<lparr>s_disp := d\<rparr>)
      | (Ret False, d) \<Rightarrow> count_then (RecordEventRejected region ''buffer_full'') (\<lambda>w. w) (w\<lparr>s_disp := d\<rparr>)
      | (Ret True, d) \<Rightarrow> count_then (RecordEventIngested region) (ack si stream i) (w\<lparr>s_disp := d\<rparr>))"

definition handleMessage ::
  "'r StreamIngestor \<Rightarrow> stream_chance \<Rightarrow> bytes \<Rightarrow> bytes \<Rightarrow> XMessage \<Rightarrow> ('z, 'r) stream_world \<Rightarrow>
   unit call \<times> ('z, 'r) stream_world" where
  "handleMessage si sc stream region msg w =
     (let i = msg_ID msg in
      case extractBytes (msg_Values msg ''data'') of
        None \<Rightarrow> (Ret (), ack si stream i (w\<lparr>s_disp := log_disp (no_data_log i) (s_disp w)\<rparr>))
      | Some raw \<Rightarrow>
          (case Translate (si_reg si) (sc_time sc) region raw of
             Inl err \<Rightarrow>
               count_then (RecordEventRejected region ''translation_error'') (ack si stream i)
                 (w\<lparr>s_disp := log_disp (message_log ''translate'' i err) (s_disp w)\<rparr>)
           | Inr event \<Rightarrow>
               (case event_id (sc_uuid sc) event of
                  Panic m \<Rightarrow> (Panic m, w)
                | Ret u \<Rightarrow>
                    (case marshal_event (event\<lparr>ID := u\<rparr>) of
                       Inl x \<Rightarrow>
                         (Ret (), ack si stream i
                           (w\<lparr>s_disp := log_disp (message_log ''marshal'' i (Lib_error x)) (s_disp w)\<rparr>))
                     | Inr data \<Rightarrow> submit_message si (sc_parked sc) stream region i data w))))"

section \<open>What a message amounts to\<close>

text \<open>Whether the dispatcher takes it, and whether it never can.\<close>

definition message_prepared :: "'r StreamIngestor \<Rightarrow> stream_chance \<Rightarrow> bytes \<Rightarrow> XMessage \<Rightarrow> prepared option" where
  "message_prepared si sc region msg =
     map_option (prepare (si_reg si) (sc_time sc) (sc_uuid sc) region) (extractBytes (msg_Values msg ''data''))"

definition message_accepts ::
  "'r StreamIngestor \<Rightarrow> stream_chance \<Rightarrow> bytes \<Rightarrow> XMessage \<Rightarrow> 'z disp \<Rightarrow> Payload list" where
  "message_accepts si sc region msg d =
     (case message_prepared si sc region msg of
        Some (Prepared u data) \<Rightarrow>
          if \<not> chan_closed (buf d) \<and> has_room (sc_parked sc) d then [\<lparr>p_Source = region, p_Data = data\<rparr>] else []
      | _ \<Rightarrow> [])"

definition undeliverable :: "'r StreamIngestor \<Rightarrow> stream_chance \<Rightarrow> bytes \<Rightarrow> XMessage \<Rightarrow> bool" where
  "undeliverable si sc region msg \<longleftrightarrow>
     (case message_prepared si sc region msg of
        None \<Rightarrow> True | Some (Untranslatable err) \<Rightarrow> True | Some Unmarshalable \<Rightarrow> True | _ \<Rightarrow> False)"

lemma log_disp_env [simp]:
  "buf (log_disp m d) = buf d" "procs (log_disp m d) = procs d"
  "active (penv (sh (log_disp m d))) = active (penv (sh d))"
  by (simp_all add: log_disp_def log_Printf_def)

lemma log_disp_step: "dstep fe d Tau (log_disp m d)"
  using ambient [of "log_Printf m (penv (sh d))" d fe] by (simp add: log_disp_def)

lemma refuses_log [simp]: "refuses (log_disp m d) vals = refuses d vals"
  by (simp add: refuses_def)

lemma ack_disp [simp]: "s_disp (ack si stream i w) = s_disp w"
  by (simp add: ack_def)

text \<open>What a handler leaves behind: a run of the dispatcher, and whether the message is acknowledged.\<close>

definition settles ::
  "fmt_env \<Rightarrow> 'r StreamIngestor \<Rightarrow> bytes \<Rightarrow> bytes \<Rightarrow> Payload list \<Rightarrow> bool \<Rightarrow> ('z, 'r) stream_world \<Rightarrow>
   unit call \<times> ('z, 'r) stream_world \<Rightarrow> bool" where
  "settles fe si stream i ps done w r \<longleftrightarrow>
     (\<exists>tr. druns fe (s_disp w) tr (s_disp (snd r)) \<and> accepted tr = ps \<and> settles_nothing tr) \<and>
     s_redis (snd r) = (if returns (fst r) \<and> done then s_redis (ack si stream i w) else s_redis w)"

lemma settles_ack:
  assumes "dstep fe (s_disp w) Tau d"
  shows "settles fe si stream i [] True w (Ret (), ack si stream i (w\<lparr>s_disp := d\<rparr>))"
  using druns_snoc [OF druns_nil assms] unfolding settles_def
  by (auto simp: ack_def intro!: exI [of _ "[Tau]"])

lemma settles_count:
  assumes "druns fe (s_disp w) tr d" and "counts_only f (penv (sh d)) refused" and "settles_nothing tr"
  shows "settles fe si stream i (accepted tr) True w (count_then f (ack si stream i) (w\<lparr>s_disp := d\<rparr>))"
    and "settles fe si stream i (accepted tr) False w (count_then f (\<lambda>w. w) (w\<lparr>s_disp := d\<rparr>))"
proof -
  have "dstep fe d Tau (snd (on_disp f d))" by (rule on_disp_step [OF assms(2)])
  from druns_snoc [OF assms(1) this] have r: "druns fe (s_disp w) (tr @ [Tau]) (snd (on_disp f d))" .
  then show "settles fe si stream i (accepted tr) True w (count_then f (ack si stream i) (w\<lparr>s_disp := d\<rparr>))"
    unfolding settles_def
    by (cases "on_disp f d"; cases "fst (on_disp f d)")
      (use assms(3) in \<open>auto simp: count_then_def ack_def intro!: exI [of _ "tr @ [Tau]"]\<close>)
  from r show "settles fe si stream i (accepted tr) False w (count_then f (\<lambda>w. w) (w\<lparr>s_disp := d\<rparr>))"
    unfolding settles_def
    by (cases "on_disp f d"; cases "fst (on_disp f d)")
      (use assms(3) in \<open>auto simp: count_then_def intro!: exI [of _ "tr @ [Tau]"]\<close>)
qed

lemma settles_stay: "settles fe si stream i [] False w (Panic m, w)"
  unfolding settles_def by (auto intro!: exI [of _ "[]"] druns_nil)

lemma submit_message_settles:
  assumes "parked_ok parked (s_disp w)"
  shows "let ps = (if \<not> chan_closed (buf (s_disp w)) \<and> has_room parked (s_disp w)
      then [\<lparr>p_Source = region, p_Data = data\<rparr>] else [])
    in settles fe si stream i ps (ps \<noteq> []) w (submit_message si parked stream region i data w)"
proof (rule Submit_cases [of "s_disp w" parked "\<lparr>p_Source = region, p_Data = data\<rparr>"])
  fix m
  assume a: "chan_closed (buf (s_disp w))" "Submit parked \<lparr>p_Source = region, p_Data = data\<rparr> (s_disp w) = (Panic m, s_disp w)"
  then show ?thesis using settles_stay [of fe si stream i w m] by (simp add: submit_message_def)
next
  assume a: "\<not> chan_closed (buf (s_disp w))" "\<not> has_room parked (s_disp w)"
    "Submit parked \<lparr>p_Source = region, p_Data = data\<rparr> (s_disp w) = (Ret False, s_disp w)"
    "submit_send None \<lparr>p_Source = region, p_Data = data\<rparr> (s_disp w) = (Ret False, s_disp w)"
  note r = druns_snoc [OF druns_nil refuse [OF a(4)]]
  from settles_count(2) [OF r counts_only_calls(1) [where source = region and reason = "''buffer_full''"]] a
  show ?thesis by (simp add: submit_message_def)
next
  fix d1
  assume a: "\<not> chan_closed (buf (s_disp w))" "has_room parked (s_disp w)"
    "submit_send parked \<lparr>p_Source = region, p_Data = data\<rparr> (s_disp w) = (Ret True, d1)"
    "Submit parked \<lparr>p_Source = region, p_Data = data\<rparr> (s_disp w) = (Ret True, snd (submit_observe d1))"
    "0 < observers d1"
  note r1 = druns_snoc [OF druns_nil accept [OF assms a(3)]]
  note r2 = druns_snoc [OF r1 observe [OF a(5) surjective_pairing]]
  from settles_count(1) [OF r2 counts_only_calls(2) [where source = region]] a
  show ?thesis by (simp add: submit_message_def)
qed

lemma handleMessage_settles:
  assumes "parked_ok (sc_parked sc) (s_disp w)"
  shows "settles fe si stream (msg_ID msg) (message_accepts si sc region msg (s_disp w))
      (undeliverable si sc region msg \<or> message_accepts si sc region msg (s_disp w) \<noteq> []) w
      (handleMessage si sc stream region msg w)"
proof (cases "extractBytes (msg_Values msg ''data'')")
  case None
  then show ?thesis
    using settles_ack [OF log_disp_step]
    by (simp add: handleMessage_def message_accepts_def undeliverable_def message_prepared_def Let_def)
next
  case (Some raw)
  show ?thesis
  proof (cases "Translate (si_reg si) (sc_time sc) region raw")
    case (Inl err)
    then show ?thesis
      using Some settles_count(1) [OF druns_snoc [OF druns_nil log_disp_step] counts_only_calls(1) [where source = region]]
      by (simp add: handleMessage_def message_accepts_def undeliverable_def message_prepared_def prepare_def Let_def)
  next
    case (Inr e)
    show ?thesis
    proof (cases "event_id (sc_uuid sc) e")
      case (Panic m)
      then show ?thesis
        using Some Inr settles_stay [of fe si stream "msg_ID msg" w m]
        by (simp add: handleMessage_def message_accepts_def undeliverable_def message_prepared_def prepare_def Let_def)
    next
      case (Ret u)
      show ?thesis
      proof (cases "marshal_event (e\<lparr>ID := u\<rparr>)")
        case (Inl x)
        then show ?thesis
          using Some Inr Ret settles_ack [OF log_disp_step]
          by (simp add: handleMessage_def message_accepts_def undeliverable_def message_prepared_def prepare_def Let_def)
      next
        case (Inr data)
        then show ?thesis
          using Some \<open>Translate _ _ region raw = Inr e\<close> Ret submit_message_settles [OF assms, of region data fe si stream "msg_ID msg"]
          by (auto simp: handleMessage_def message_accepts_def undeliverable_def message_prepared_def prepare_def Let_def
              split: if_splits)
      qed
    qed
  qed
qed

text \<open>
  C35: the handling of a message settles it: its effect on the dispatcher is a run that accepts the
  prepared event when there is room and nothing otherwise, and the message is acknowledged, once,
  exactly when it was accepted or can never be delivered; never before the dispatcher has it, and
  not at all when the buffer is full or a panic ends the process.
\<close>

theorem message_settled:
  assumes "parked_ok (sc_parked sc) (s_disp w)"
  shows "let r = handleMessage si sc stream region msg w;
       ps = message_accepts si sc region msg (s_disp w)
     in (\<exists>tr. druns fe (s_disp w) tr (s_disp (snd r)) \<and> accepted tr = ps \<and> settles_nothing tr) \<and>
        s_redis (snd r) =
          (if returns (fst r) \<and> (undeliverable si sc region msg \<or> ps \<noteq> [])
           then snd (XAck (si_client si) stream (ConsumerGroup (si_cfg si)) (msg_ID msg) (s_redis w))
           else s_redis w)"
proof -
  have "s_redis (ack si stream (msg_ID msg) w) =
      snd (XAck (si_client si) stream (ConsumerGroup (si_cfg si)) (msg_ID msg) (s_redis w))"
    by (simp add: ack_def)
  with handleMessage_settles [OF assms, of fe si stream msg region] show ?thesis
    unfolding settles_def Let_def by (simp only: )
qed

section \<open>A server for the examples\<close>

text \<open>A queue that hands out one message at a time, with the identifiers it has handed out.\<close>

abbreviation demo_ops :: "(XMessage list \<times> bytes set) redis_ops" where
  "demo_ops \<equiv> \<lparr>rd_Ping = (\<lambda>r. (None, r)), rd_Close = (\<lambda>r. (None, r)), rd_XAdd = (\<lambda>s fs r. (None, r)),
     rd_XGroupCreateMkStream = (\<lambda>s g i r. (None, r)),
     rd_XReadGroup = (\<lambda>args r. case r of
         ([], D) \<Rightarrow> (Inl redis_Nil, r)
       | (m # q, D) \<Rightarrow> if msg_ID m \<in> D then (Inl redis_Nil, (q, D))
           else (Inr [(hd (ra_Streams args), [m])], (q, insert (msg_ID m) D))),
     rd_XAck = (\<lambda>s g ids r. (None, (fst r, snd r \<union> set ids)))\<rparr>"

abbreviation demo_redis_cfg :: RedisConfig where
  "demo_redis_cfg \<equiv> \<lparr>Redis_Enabled = True, Addr = ''h'', Password = [], DB = 0, StreamPrefix = ''s'', ConsumerGroup = ''g'',
     ConsumerName = ''c'', Regions = [''eu''], ReadBatchSize = 10, ReadBlockMs = 100\<rparr>"

abbreviation demo_ingestor :: "(XMessage list \<times> bytes set) StreamIngestor" where
  "demo_ingestor \<equiv> \<lparr>si_cfg = demo_redis_cfg, si_client = demo_ops, si_reg = NewRegistry\<rparr>"

abbreviation demo_stream_chance :: stream_chance where
  "demo_stream_chance \<equiv> \<lparr>sc_time = \<lparr>now_ts = 2000000, now_received = 0\<rparr>, sc_uuid = Ret ''u'', sc_parked = None\<rparr>"

abbreviation demo_message :: "bytes \<Rightarrow> XMessage" where
  "demo_message i \<equiv> \<lparr>msg_ID = i, msg_Values = Map.empty\<rparr>"

theorem message_settled_witness:
  "s_redis (snd (handleMessage demo_ingestor demo_stream_chance ''s:eu'' ''eu'' (demo_message ''1'')
     \<lparr>s_disp = demo_start, s_redis = ([], {})\<rparr>)) = ([], {''1''})"
proof -
  let ?w = "\<lparr>s_disp = demo_start, s_redis = ([] :: XMessage list, {} :: bytes set)\<rparr>"
  have "returns (fst (handleMessage demo_ingestor demo_stream_chance ''s:eu'' ''eu'' (demo_message ''1'') ?w))"
    by (simp add: handleMessage_def Let_def)
  moreover have "undeliverable demo_ingestor demo_stream_chance ''eu'' (demo_message ''1'')"
    by (simp add: undeliverable_def message_prepared_def)
  ultimately show ?thesis
    using message_settled [of demo_stream_chance ?w demo_ingestor "''s:eu''" "''eu''" "demo_message ''1''"]
    by (simp add: Let_def parked_ok_def XAck_def)
qed

section \<open>The loop of a reader\<close>

text \<open>
  One round: whether the context is found cancelled before the read, and after a failed one, and
  what the outside decides for each message.
\<close>

record round =
  ro_cancelled :: bool
  ro_cancelled_after :: bool
  ro_chance :: "nat \<Rightarrow> stream_chance"

datatype reader_state = Running | Stopped | Crashed_reader bytes

fun handle_messages ::
  "'r StreamIngestor \<Rightarrow> (nat \<Rightarrow> stream_chance) \<Rightarrow> bytes \<Rightarrow> bytes \<Rightarrow> XMessage list \<Rightarrow> ('z, 'r) stream_world \<Rightarrow>
   unit call \<times> ('z, 'r) stream_world" where
  "handle_messages si sc stream region [] w = (Ret (), w)"
| "handle_messages si sc stream region (msg # msgs) w =
     (case handleMessage si (sc 0) stream region msg w of
        (Panic m, w1) \<Rightarrow> (Panic m, w1)
      | (Ret _, w1) \<Rightarrow> handle_messages si (\<lambda>n. sc (Suc n)) stream region msgs w1)"

definition consumer_name :: "'r StreamIngestor \<Rightarrow> bytes \<Rightarrow> bytes" where
  "consumer_name si region = ConsumerName (si_cfg si) @ ''-'' @ region"

definition read_region ::
  "'r StreamIngestor \<Rightarrow> bytes \<Rightarrow> 'r \<Rightarrow> (error + XMessage list) \<times> 'r" where
  "read_region si region =
     XReadGroup (si_client si) (ConsumerGroup (si_cfg si)) (consumer_name si region) (streamKey si region)
       (ReadBatchSize (si_cfg si)) (ReadBlockMs (si_cfg si))"

definition reader_log :: "bytes \<Rightarrow> bytes \<Rightarrow> bytes \<Rightarrow> msg" where
  "reader_log pre name post = [Lit (''[streamingestor] '' @ pre), Quoted name, Lit post]"

fun consume_rounds ::
  "'r StreamIngestor \<Rightarrow> bytes \<Rightarrow> round list \<Rightarrow> ('z, 'r) stream_world \<Rightarrow> reader_state \<times> ('z, 'r) stream_world" where
  "consume_rounds si region [] w = (Running, w)"
| "consume_rounds si region (ro # ros) w =
     (if ro_cancelled ro
      then (Stopped, w\<lparr>s_disp := log_disp (reader_log ''consumer '' (consumer_name si region) '' shutting down'') (s_disp w)\<rparr>)
      else
        case read_region si region (s_redis w) of
          (Inl err, r) \<Rightarrow>
            (let w1 = w\<lparr>s_redis := r\<rparr> in
             if ro_cancelled_after ro then (Stopped, w1)
             else consume_rounds si region ros
               (w1\<lparr>s_disp := log_disp (reader_log ''XREADGROUP error on '' (streamKey si region) '': '' @ err_text err) (s_disp w1)\<rparr>))
        | (Inr msgs, r) \<Rightarrow>
            (case handle_messages si (ro_chance ro) (streamKey si region) region msgs (w\<lparr>s_redis := r\<rparr>) of
               (Panic m, w1) \<Rightarrow> (Crashed_reader m, w1)
             | (Ret _, w1) \<Rightarrow> consume_rounds si region ros w1))"

definition consumeRegion ::
  "'r StreamIngestor \<Rightarrow> bytes \<Rightarrow> round list \<Rightarrow> ('z, 'r) stream_world \<Rightarrow> reader_state \<times> ('z, 'r) stream_world" where
  "consumeRegion si region ros w =
     consume_rounds si region ros
       (w\<lparr>s_disp := log_disp ([Lit ''[streamingestor] consumer '', Quoted (consumer_name si region),
          Lit '' started on stream '', Quoted (streamKey si region)]) (s_disp w)\<rparr>)"

lemma consume_rounds_cancelled:
  assumes "ro_cancelled ro"
  shows "consume_rounds si region (ros @ ro # rest) w = consume_rounds si region (ros @ [ro]) w \<and>
     fst (consume_rounds si region (ros @ [ro]) w) \<noteq> Running"
proof (induction ros arbitrary: w)
  case Nil
  with assms show ?case by simp
next
  case (Cons r ros)
  then show ?case
    by (auto simp: Let_def split: prod.split sum.split call.split)
qed

text \<open>
  A reader stops: the first round that finds the context cancelled ends it, whatever would
  come after, and in that round nothing is read, so the stream is left as it was.
\<close>

lemma reader_stops:
  assumes "ro_cancelled ro"
  shows "consumeRegion si region (ros @ ro # rest) w = consumeRegion si region (ros @ [ro]) w \<and>
    fst (consumeRegion si region (ros @ ro # rest) w) \<noteq> Running \<and>
    s_redis (snd (consumeRegion si region [ro] w)) = s_redis w"
proof -
  obtain w' where w': "\<And>l. consumeRegion si region l w = consume_rounds si region l w'" "s_redis w' = s_redis w"
    unfolding consumeRegion_def by fastforce
  from consume_rounds_cancelled [OF assms, of si region ros rest w'] w' assms show ?thesis by simp
qed

lemma reader_stops_example:
  "fst (consumeRegion demo_ingestor ''eu'' [\<lparr>ro_cancelled = True, ro_cancelled_after = False, ro_chance = (\<lambda>_. demo_stream_chance)\<rparr>]
     \<lparr>s_disp = demo_start, s_redis = ([], {})\<rparr>) \<noteq> Running"
proof -
  let ?ro = "\<lparr>ro_cancelled = True, ro_cancelled_after = False, ro_chance = (\<lambda>_. demo_stream_chance)\<rparr>"
  let ?w = "\<lparr>s_disp = demo_start, s_redis = ([] :: XMessage list, {} :: bytes set)\<rparr>"
  have "ro_cancelled ?ro" by simp
  from reader_stops [OF this, of demo_ingestor "''eu''" "[]" "[]" ?w]
  show ?thesis unfolding append_Nil by blast
qed

text \<open>
  The documented behaviour of a consumer group read with the identifier \<^verbatim>\<open>>\<close>: it returns only
  messages never delivered to the group before, and they count as delivered from then on, as do
  those delivered earlier; an acknowledgement delivers nothing anew. \<open>delivered r stream grp\<close> is
  what the server has handed out so far.
\<close>

definition redis_documented :: "('r \<Rightarrow> bytes \<Rightarrow> bytes \<Rightarrow> bytes set) \<Rightarrow> 'r redis_ops \<Rightarrow> bool" where
  "redis_documented delivered ops \<longleftrightarrow>
     (\<forall>args r res r1 stream. rd_XReadGroup ops args r = (res, r1) \<longrightarrow> ra_Streams args = [stream, ''>''] \<longrightarrow>
        delivered r stream (ra_Group args) \<subseteq> delivered r1 stream (ra_Group args) \<and>
        (\<forall>k msgs. res = Inr [(k, msgs)] \<longrightarrow>
           msg_ID ` set msgs \<inter> delivered r stream (ra_Group args) = {} \<and>
           msg_ID ` set msgs \<subseteq> delivered r1 stream (ra_Group args)) \<and>
        (\<forall>l. res = Inr l \<longrightarrow> length l \<le> 1)) \<and>
     (\<forall>s g ids r e r1 stream grp. rd_XAck ops s g ids r = (e, r1) \<longrightarrow>
        delivered r stream grp \<subseteq> delivered r1 stream grp)"

lemma read_region_documented:
  assumes "redis_documented delivered (si_client si)" and "read_region si region r = (res, r1)"
  shows "delivered r (streamKey si region) (ConsumerGroup (si_cfg si)) \<subseteq>
      delivered r1 (streamKey si region) (ConsumerGroup (si_cfg si))"
    and "res = Inr msgs \<Longrightarrow>
      msg_ID ` set msgs \<inter> delivered r (streamKey si region) (ConsumerGroup (si_cfg si)) = {} \<and>
      msg_ID ` set msgs \<subseteq> delivered r1 (streamKey si region) (ConsumerGroup (si_cfg si))"
proof -
  let ?args = "read_request (ConsumerGroup (si_cfg si)) (consumer_name si region) (streamKey si region)
       (ReadBatchSize (si_cfg si)) (ReadBlockMs (si_cfg si))"
  let ?D = "\<lambda>r. delivered r (streamKey si region) (ConsumerGroup (si_cfg si))"
  obtain raw r' where raw: "rd_XReadGroup (si_client si) ?args r = (raw, r')" by fastforce
  have args: "ra_Streams ?args = [streamKey si region, ''>'']" "ra_Group ?args = ConsumerGroup (si_cfg si)"
    by (simp_all add: read_request_def)
  have r': "r1 = r'"
    using assms(2) raw by (auto simp: read_region_def XReadGroup_def split: sum.splits list.splits if_splits)
  have doc: "?D r \<subseteq> ?D r'"
    "\<forall>k msgs. raw = Inr [(k, msgs)] \<longrightarrow> msg_ID ` set msgs \<inter> ?D r = {} \<and> msg_ID ` set msgs \<subseteq> ?D r'"
    "\<forall>l. raw = Inr l \<longrightarrow> length l \<le> 1"
    using assms(1) raw args unfolding redis_documented_def by metis+
  then show "?D r \<subseteq> ?D r1" by (simp add: r')
  assume m: "res = Inr msgs"
  have "msgs = [] \<or> (\<exists>k. raw = Inr [(k, msgs)])"
  proof (cases raw)
    case (Inl e)
    with m assms(2) raw show ?thesis by (auto simp: read_region_def XReadGroup_def split: if_splits)
  next
    case (Inr l)
    with doc(3) have "l = [] \<or> (\<exists>x. l = [x])" by (cases l) auto
    with Inr m assms(2) raw show ?thesis by (auto simp: read_region_def XReadGroup_def)
  qed
  with doc(2) show "msg_ID ` set msgs \<inter> ?D r = {} \<and> msg_ID ` set msgs \<subseteq> ?D r1"
    unfolding r' by (elim disjE exE) (simp_all only: image_empty list.set(1), blast+)
qed

lemma handleMessage_redis:
  "s_redis (snd (handleMessage si sc stream region msg w)) \<in>
     {s_redis w, snd (XAck (si_client si) stream (ConsumerGroup (si_cfg si)) (msg_ID msg) (s_redis w))}"
  by (auto simp: handleMessage_def submit_message_def count_then_def ack_def Let_def
      split: option.split sum.split call.split prod.split bool.split)

lemma ack_delivered:
  "redis_documented delivered (si_client si) \<Longrightarrow>
   delivered r s g \<subseteq> delivered (snd (XAck (si_client si) stream grp i r)) s g"
  unfolding redis_documented_def XAck_def Let_def by (simp add: split_beta) (metis prod.collapse)

lemma handle_messages_delivered:
  assumes "redis_documented delivered (si_client si)"
  shows "delivered (s_redis w) s g \<subseteq> delivered (s_redis (snd (handle_messages si sc stream region msgs w))) s g"
proof (induction msgs arbitrary: sc w)
  case (Cons msg msgs)
  obtain out w1 where h: "handleMessage si (sc 0) stream region msg w = (out, w1)" by fastforce
  then have "delivered (s_redis w) s g \<subseteq> delivered (s_redis w1) s g"
    using handleMessage_redis [of si "sc 0" stream region msg w]
      ack_delivered [OF assms, of "s_redis w" s g stream "ConsumerGroup (si_cfg si)" "msg_ID msg"] by auto
  with Cons [of w1 "\<lambda>n. sc (Suc n)"] h show ?case by (cases out) auto
qed simp

lemma consume_rounds_delivered:
  assumes "redis_documented delivered (si_client si)"
  shows "delivered (s_redis w) (streamKey si region) (ConsumerGroup (si_cfg si)) \<subseteq>
    delivered (s_redis (snd (consume_rounds si region ros w))) (streamKey si region) (ConsumerGroup (si_cfg si))"
proof (induction ros arbitrary: w)
  case (Cons ro ros)
  let ?D = "\<lambda>r. delivered r (streamKey si region) (ConsumerGroup (si_cfg si))"
  obtain res r where read: "read_region si region (s_redis w) = (res, r)" by fastforce
  have r: "?D (s_redis w) \<subseteq> ?D r" by (rule read_region_documented(1) [OF assms read])
  show ?case
  proof (cases "ro_cancelled ro")
    case False
    show ?thesis
    proof (cases res)
      case (Inl err)
      with r read False show ?thesis
        using Cons [of "w\<lparr>s_redis := r, s_disp := log_disp (reader_log ''XREADGROUP error on '' (streamKey si region) '': '' @ err_text err) (s_disp w)\<rparr>"]
        by (auto simp: Let_def)
    next
      case (Inr msgs)
      obtain out w1 where h: "handle_messages si (ro_chance ro) (streamKey si region) region msgs (w\<lparr>s_redis := r\<rparr>) = (out, w1)"
        by fastforce
      with handle_messages_delivered [OF assms, of "w\<lparr>s_redis := r\<rparr>" "streamKey si region" "ConsumerGroup (si_cfg si)"
          "ro_chance ro" "streamKey si region" region msgs]
      have "?D r \<subseteq> ?D (s_redis w1)" by simp
      with r read False Inr h Cons [of w1] show ?thesis by (cases out) auto
    qed
  qed simp
qed simp

text \<open>
  C36: contrary to what the package promises, a message that was not acknowledged because the
  buffer was full is not delivered again: on a server that behaves as documented, no message a
  reader has read is in any later read of that reader, however many rounds it goes on.
\<close>

theorem withheld_not_redelivered:
  assumes "redis_documented delivered (si_client si)"
    and "read_region si region (s_redis w) = (Inr msgs, r)" and "msg \<in> set msgs"
    and "handle_messages si sc (streamKey si region) region msgs (w\<lparr>s_redis := r\<rparr>) = (Ret (), w1)"
    and "consume_rounds si region ros w1 = (Running, w2)"
    and "read_region si region (s_redis w2) = (Inr later, r2)"
  shows "msg_ID msg \<notin> msg_ID ` set later"
proof -
  let ?D = "\<lambda>r. delivered r (streamKey si region) (ConsumerGroup (si_cfg si))"
  have "msg_ID msg \<in> ?D r" using read_region_documented(2) [OF assms(1,2) refl] assms(3) by blast
  also have "\<dots> \<subseteq> ?D (s_redis w1)"
    using handle_messages_delivered [OF assms(1), of "w\<lparr>s_redis := r\<rparr>" "streamKey si region" "ConsumerGroup (si_cfg si)"
      sc "streamKey si region" region msgs] assms(4) by simp
  also have "\<dots> \<subseteq> ?D (s_redis w2)"
    using consume_rounds_delivered [OF assms(1), of w1 region ros] assms(5) by simp
  finally show ?thesis using read_region_documented(2) [OF assms(1,6) refl] by blast
qed

lemma demo_documented: "redis_documented (\<lambda>r s g. snd r) demo_ops"
  unfolding redis_documented_def by (auto split: list.splits if_splits prod.splits)

theorem withheld_not_redelivered_witness:
  "\<exists>(w2 :: (unit, XMessage list \<times> bytes set) stream_world) later r2. consume_rounds demo_ingestor ''eu'' [] w2 = (Running, w2) \<and>
     read_region demo_ingestor ''eu'' (s_redis w2) = (Inr later, r2) \<and> later \<noteq> [] \<and> ''1'' \<notin> msg_ID ` set later"
proof -
  let ?q = "([demo_message ''1'', demo_message ''2''], {} :: bytes set)"
  let ?w = "\<lparr>s_disp = demo_start, s_redis = ?q\<rparr>"
  let ?r = "([demo_message ''2''], {''1''} :: bytes set)"
  let ?r2 = "([] :: XMessage list, {''1'', ''2''} :: bytes set)"
  have read: "read_region demo_ingestor ''eu'' (s_redis ?w) = (Inr [demo_message ''1''], ?r)"
    by (simp add: read_region_def XReadGroup_def read_request_def)
  obtain w1 where h: "handle_messages demo_ingestor (\<lambda>_. demo_stream_chance) (streamKey demo_ingestor ''eu'') ''eu''
      [demo_message ''1''] (?w\<lparr>s_redis := ?r\<rparr>) = (Ret (), w1)" "s_redis w1 = ?r"
    by (simp add: handleMessage_def Let_def ack_def XAck_def)
  have later: "read_region demo_ingestor ''eu'' (s_redis w1) = (Inr [demo_message ''2''], ?r2)"
    using h(2) by (simp add: read_region_def XReadGroup_def read_request_def) auto
  have "consume_rounds demo_ingestor ''eu'' [] w1 = (Running, w1)" by simp
  moreover have "msg_ID (demo_message ''1'') \<notin> msg_ID ` set [demo_message ''2'']"
    by (rule withheld_not_redelivered [OF _ read _ h(1) _ later, where delivered = "\<lambda>r s g. snd r" and ros = "[]"])
      (simp_all add: demo_documented)
  ultimately show ?thesis using later
    by - (rule exI [of _ w1], rule exI [of _ "[demo_message ''2'']"], rule exI [of _ ?r2], simp)
qed

section \<open>Start\<close>

text \<open>
  The groups of all regions are created in order and the first failure is returned; after that one
  reader runs per region, and \<^verbatim>\<open>Start\<close> returns nil when all have ended. The value is the
  error, or the regions whose readers were started; what these readers do from there on, until the
  context is cancelled, is \<open>consumeRegion\<close>.
\<close>

fun create_groups ::
  "'r StreamIngestor \<Rightarrow> bytes list \<Rightarrow> 'r \<Rightarrow> error option \<times> 'r" where
  "create_groups si [] r = (None, r)"
| "create_groups si (region # regions) r =
     (case CreateConsumerGroup (si_client si) (streamKey si region) (ConsumerGroup (si_cfg si)) r of
        (Some e, r1) \<Rightarrow> (Some (errorf_w [Lit ''streamingestor: setup region '', Quoted region, Lit '': ''] e), r1)
      | (None, r1) \<Rightarrow> create_groups si regions r1)"

definition streamingestor_Start :: "'r StreamIngestor \<Rightarrow> 'r \<Rightarrow> (error + bytes list) \<times> 'r" where
  "streamingestor_Start si r =
     (case create_groups si (Regions (si_cfg si)) r of
        (Some e, r1) \<Rightarrow> (Inl e, r1)
      | (None, r1) \<Rightarrow> (Inr (Regions (si_cfg si)), r1))"

text \<open>
  The calls of the Redis client, one region after the other from state to state: each made the group
  of its region's stream, from the beginning of the stream on, or found that it exists.
\<close>

fun groups_ready :: "'r StreamIngestor \<Rightarrow> bytes list \<Rightarrow> 'r \<Rightarrow> 'r \<Rightarrow> bool" where
  "groups_ready si [] r r1 \<longleftrightarrow> r1 = r"
| "groups_ready si (region # regions) r r1 \<longleftrightarrow>
     (case rd_XGroupCreateMkStream (si_client si) (StreamPrefix (si_cfg si) @ '':'' @ region)
             (ConsumerGroup (si_cfg si)) ''0'' r of
        (None, r0) \<Rightarrow> groups_ready si regions r0 r1
      | (Some x, r0) \<Rightarrow> redis_error_text x = ''BUSYGROUP Consumer Group name already exists'' \<and>
          groups_ready si regions r0 r1)"

text \<open>The first region whose group could not be made, and the error that reports it.\<close>

definition group_failed :: "'r StreamIngestor \<Rightarrow> bytes \<Rightarrow> 'r \<Rightarrow> 'r \<Rightarrow> error \<Rightarrow> bool" where
  "group_failed si region r r1 e \<longleftrightarrow>
     (let stream = StreamPrefix (si_cfg si) @ '':'' @ region; grp = ConsumerGroup (si_cfg si)
      in \<exists>x e1. rd_XGroupCreateMkStream (si_client si) stream grp ''0'' r = (Some x, r1) \<and>
        redis_error_text x \<noteq> ''BUSYGROUP Consumer Group name already exists'' \<and>
        wraps e [Lit ''streamingestor: setup region '', Quoted region, Lit '': ''] e1 \<and>
        wraps e1 [Lit ''redisstore: create group '', Quoted grp, Lit '' on '', Quoted stream, Lit '': '']
          (redis_err x))"

lemma CreateConsumerGroup_cases:
  "case CreateConsumerGroup (si_client si) (streamKey si region) (ConsumerGroup (si_cfg si)) r of
     (None, r0) \<Rightarrow> groups_ready si [region] r r0
   | (Some e, r1) \<Rightarrow>
       group_failed si region r r1 (errorf_w [Lit ''streamingestor: setup region '', Quoted region, Lit '': ''] e)"
proof (cases "rd_XGroupCreateMkStream (si_client si) (streamKey si region) (ConsumerGroup (si_cfg si)) ''0'' r")
  case (Pair err r0)
  then show ?thesis
    by (cases err) (auto simp: CreateConsumerGroup_def streamKey_def busyGroupErr_def group_failed_def
        Let_def intro!: exI wraps_errorf_w)
qed

lemma groups_ready_append:
  "groups_ready si xs r r0 \<Longrightarrow> groups_ready si ys r0 r1 \<Longrightarrow> groups_ready si (xs @ ys) r r1"
  by (induction si xs r r0 rule: groups_ready.induct) (auto split: prod.splits option.splits)

lemma create_groups_outcome:
  "case create_groups si regions r of
     (None, r1) \<Rightarrow> groups_ready si regions r r1
   | (Some e, r1) \<Rightarrow> \<exists>made region rest r0. regions = made @ region # rest \<and>
       groups_ready si made r r0 \<and> group_failed si region r0 r1 e"
proof (induction regions arbitrary: r)
  case (Cons region regions)
  obtain out r0 where c: "CreateConsumerGroup (si_client si) (streamKey si region) (ConsumerGroup (si_cfg si)) r = (out, r0)"
    by fastforce
  show ?case
  proof (cases out)
    case None
    with c have here: "groups_ready si [region] r r0"
      using CreateConsumerGroup_cases [of si region r] by simp
    have more: "groups_ready si (region # made) r r1" if "groups_ready si made r0 r1" for made r1
      using groups_ready_append [OF here that] by simp
    show ?thesis
    proof (cases "create_groups si regions r0")
      case (Pair err r1)
      with Cons.IH [of r0] c None more show ?thesis
        by (cases err) (simp, simp only: create_groups.simps prod.case option.case, metis append_Cons)
    qed
  next
    case (Some e)
    with c CreateConsumerGroup_cases [of si region r] show ?thesis
      by (simp del: groups_ready.simps) (metis append_Nil groups_ready.simps(1))
  qed
qed simp

text \<open>
  C37: \<^verbatim>\<open>Start\<close> launches the readers, one for every configured region, exactly when the group of
  every region has been created or was there from an earlier run, the regions taken in order. Otherwise it
  stops at the first region whose group the server refuses for another reason, without another call, and
  returns an error that names the region, the group and the stream and wraps what the server said.
\<close>

theorem Start_outcome:
  "case streamingestor_Start si r of
     (Inr regions, r1) \<Rightarrow> regions = Regions (si_cfg si) \<and> groups_ready si (Regions (si_cfg si)) r r1
   | (Inl e, r1) \<Rightarrow> \<exists>made region rest r0. Regions (si_cfg si) = made @ region # rest \<and>
       groups_ready si made r r0 \<and> group_failed si region r0 r1 e"
proof (cases "create_groups si (Regions (si_cfg si)) r")
  case (Pair out r1)
  then show ?thesis
    using create_groups_outcome [of si "Regions (si_cfg si)" r]
    by (cases out) (simp_all add: streamingestor_Start_def)
qed

text \<open>
  Three regions: the group of the first exists, that of the second is refused. The readers are not
  started, the error says so, and the server has not been asked for the third.
\<close>

abbreviation demo_group_ops :: "(XMessage list \<times> bytes set) redis_ops" where
  "demo_group_ops \<equiv> demo_ops\<lparr>rd_XGroupCreateMkStream := (\<lambda>stream g from r.
     (Some (Redis_error (if stream = ''s:a'' then ''BUSYGROUP Consumer Group name already exists'' else ''ERR'')),
      (fst r, insert stream (snd r))))\<rparr>"

abbreviation demo_starter :: "(XMessage list \<times> bytes set) StreamIngestor" where
  "demo_starter \<equiv>
     \<lparr>si_cfg = demo_redis_cfg\<lparr>Regions := [''a'', ''b'', ''c'']\<rparr>, si_client = demo_group_ops, si_reg = NewRegistry\<rparr>"

theorem Start_outcome_witness:
  "\<exists>e e1. streamingestor_Start demo_starter ([], {}) = (Inl e, ([], {''s:a'', ''s:b''})) \<and>
     wraps e [Lit ''streamingestor: setup region '', Quoted ''b'', Lit '': ''] e1"
proof -
  obtain out r1 where run: "streamingestor_Start demo_starter ([], {}) = (out, r1)" by (rule prod.exhaust)
  show ?thesis
    using Start_outcome [of demo_starter "([], {})"] unfolding run
    by (cases out) (auto simp: Cons_eq_append_conv group_failed_def Let_def insert_commute)
qed

end
