(* ===== verification/Gateway.thy ===== *)
theory Gateway
  imports Ingestor Streamingestor
begin

text \<open>
  The parts put together as the program deploys them: the chain of the rate limiter and the two
  validators, HTTP requests and stream messages coming in, and the steps of the dispatcher with
  its workers, in any order until a panic ends the process. The property is the balance of the
  whole: what was answered 202, or taken from a stream, is what ends up batched or dead-lettered.
\<close>

section \<open>The deployed chain\<close>

definition deployed_chain :: "RateLimitConfig \<Rightarrow> 'z rl_env_ext Chain" where
  "deployed_chain cfg = NewChain [rl_Middleware cfg, SchemaValidator, TypeChecker]"

lemma validators_quiet:
  "snd (snd (SchemaValidator r s)) = s" "snd (snd (TypeChecker r s)) = s"
  by (simp_all add: SchemaValidator_def TypeChecker_def pure_handler_def)

interpretation deployed: quiet_chain "deployed_chain cfg"
  by unfold_locales (auto simp: deployed_chain_def NewChain_def rl_handler_quiet validators_quiet)

section \<open>Steps of the program\<close>

datatype sys_event =
    Request chance http_request "(error + http_response) call"
  | Message "Payload list"
  | Inner dlabel

inductive sstep ::
  "fmt_env \<Rightarrow> Registry \<Rightarrow> 'r StreamIngestor \<Rightarrow> 'z world \<Rightarrow> sys_event \<Rightarrow> 'z world \<Rightarrow> bool" for fe reg si where
  request: "parked_ok (or_parked orc) (w_disp w) \<Longrightarrow> handleIngest fe reg orc rq w = (Ret resp, w') \<Longrightarrow>
    sstep fe reg si w (Request orc rq (Ret resp)) w'"
| message: "parked_ok (sc_parked sc) (w_disp w) \<Longrightarrow>
    handleMessage si sc stream region msg \<lparr>s_disp = w_disp w, s_redis = rs\<rparr> = (Ret (), sw) \<Longrightarrow>
    sstep fe reg si w (Message (message_accepts si sc region msg (w_disp w))) (w\<lparr>w_disp := s_disp sw\<rparr>)"
| inner: "dstep fe (w_disp w) l d \<Longrightarrow> accepted1 l = [] \<Longrightarrow> sstep fe reg si w (Inner l) (w\<lparr>w_disp := d\<rparr>)"

inductive sruns ::
  "fmt_env \<Rightarrow> Registry \<Rightarrow> 'r StreamIngestor \<Rightarrow> 'z world \<Rightarrow> sys_event list \<Rightarrow> 'z world \<Rightarrow> bool" for fe reg si w where
  sruns_nil: "sruns fe reg si w [] w"
| sruns_snoc: "sruns fe reg si w evs w' \<Longrightarrow> sstep fe reg si w' ev w'' \<Longrightarrow> sruns fe reg si w (evs @ [ev]) w''"

inductive_cases sstepE: "sstep fe reg si w ev w'"

text \<open>What an event of the program takes in, batches and dead-letters.\<close>

fun taken1 :: "Registry \<Rightarrow> sys_event \<Rightarrow> Payload list" where
  "taken1 reg (Request orc rq out) = brought_in reg orc rq out"
| "taken1 reg (Message ps) = ps"
| "taken1 reg (Inner l) = []"

fun sys_label :: "sys_event \<Rightarrow> dlabel list" where
  "sys_label (Inner l) = [l]"
| "sys_label _ = []"

abbreviation "taken reg evs \<equiv> concat (map (taken1 reg) evs)"
abbreviation "inner_labels evs \<equiv> concat (map sys_label evs)"

lemma sstep_run:
  assumes "sstep fe reg si w ev w'" and "pool_ok (w_pool w) L"
  shows "\<exists>tr L'. druns fe (w_disp w) tr (w_disp w') \<and> accepted tr = taken1 reg ev \<and>
    batched tr = batched (sys_label ev) \<and> dead tr = dead (sys_label ev) \<and> pool_ok (w_pool w') L'"
  using assms(1)
proof (cases rule: sstep.cases)
  case (request orc rq resp)
  from ingest_run [OF assms(2) request(2), of fe reg rq] request(3) obtain tr where
      tr: "druns fe (w_disp w) tr (w_disp w')" "settles_nothing tr"
      "accepted tr = (if rq_body rq = [] then []
         else ingest_accepts (or_parked orc) (request_source rq)
           (prepare reg (or_time orc) (or_uuid orc) (request_source rq) (rq_body rq)) (w_disp w))" by auto
  moreover have "accepted tr = brought_in reg orc rq (Ret resp)"
    using answered_accepts [OF assms(2), of fe reg orc rq resp] request(3) tr(3) by simp
  moreover obtain L' where "pool_ok (w_pool w') L'"
    using handleIngest_pool [OF assms(2), of fe reg orc rq] request(3) by auto
  ultimately show ?thesis using request(1)
    by (intro exI [of _ tr] exI [of _ L']) (simp add: settles_nothing_def)
next
  case (message sc stream region msg rs sw)
  from handleMessage_settles [of sc "\<lparr>s_disp = w_disp w, s_redis = rs\<rparr>" fe si stream msg region] message(3,4)
  obtain tr where "druns fe (w_disp w) tr (s_disp sw)" "settles_nothing tr"
      "accepted tr = message_accepts si sc region msg (w_disp w)"
    unfolding settles_def by auto
  then show ?thesis using message(1,2) assms(2)
    by (intro exI [of _ tr] exI [of _ L]) (simp add: settles_nothing_def)
next
  case (inner l d)
  then show ?thesis using assms(2) druns_snoc [OF druns_nil inner(3)]
    by (intro exI [of _ "[l]"] exI [of _ L]) simp
qed

lemma sruns_run:
  assumes "sruns fe reg si w evs w'" and "pool_ok (w_pool w) L"
  shows "\<exists>tr L'. druns fe (w_disp w) tr (w_disp w') \<and> accepted tr = taken reg evs \<and>
    batched tr = batched (inner_labels evs) \<and> dead tr = dead (inner_labels evs) \<and> pool_ok (w_pool w') L'"
  using assms
proof (induction rule: sruns.induct)
  case sruns_nil
  then show ?case by (intro exI [of _ "[]"] exI [of _ L]) (simp add: druns_nil)
next
  case (sruns_snoc evs w' ev w'')
  then obtain tr L' where a: "druns fe (w_disp w) tr (w_disp w')" "accepted tr = taken reg evs"
      "batched tr = batched (inner_labels evs)" "dead tr = dead (inner_labels evs)" "pool_ok (w_pool w') L'" by blast
  from sstep_run [OF sruns_snoc.hyps(2) a(5)] obtain tr' L'' where
      b: "druns fe (w_disp w') tr' (w_disp w'')" "accepted tr' = taken1 reg ev"
      "batched tr' = batched (sys_label ev)" "dead tr' = dead (sys_label ev)" "pool_ok (w_pool w'') L''" by blast
  from druns_append [OF b(1) a(1)] a b show ?case
    by (intro exI [of _ "tr @ tr'"] exI [of _ L'']) simp
qed

lemma no_live_not_pushing: "live d = 0 \<Longrightarrow> pushing d = 0"
  by (auto simp: live_def pushing_def filter_empty_conv)

text \<open>The counter of dead letters at the end of any run of the dispatcher.\<close>

lemma drained_counter:
  assumes "dispatcher_New cfg (deployed_chain rl) bat q e = Ret d0" and "metric dlqEnqueued e = Some k"
    and "druns fe d0 tr d" and "shutdown_returns d"
  shows "metric dlqEnqueued (penv (sh d)) = Some (k + length (dead tr))"
proof -
  note new = New_fresh [OF assms(1)]
  have ok: "workers_ok d" using druns_workers_ok [OF assms(3)] new(1) by (simp add: fresh_def)
  with assms(4) have none: "live d = 0" by (simp add: shutdown_returns_def workers_ok_def)
  have "pushing d0 = 0" using new(6) by (simp add: pushing_def)
  moreover have "\<forall>pc \<in> set (procs d0). chain_pos (deployed_chain rl) pc" using new(6) by simp
  ultimately show ?thesis
    using deployed.druns_counts [OF assms(3) new(3)] new(5) assms(2) no_live_not_pushing [OF none] by fastforce
qed

text \<open>
  C1: the balance of the gateway. Whatever requests and messages come in, however the workers
  interleave and whatever the outside does, once Shutdown has returned the events that were
  answered 202 or taken from a stream are, each exactly once, those handed to the batcher and those
  in the dead letter queue; and the counter of dead letters has grown by exactly the latter.
\<close>

theorem gateway_balance:
  assumes "dispatcher_New cfg (deployed_chain rl) bat q e = Ret (w_disp w0)" and "1 \<le> Workers cfg"
    and "pool_ok (w_pool w0) {}" and "metric dlqEnqueued e = Some k"
    and "sruns fe reg si w0 evs w" and "shutdown_returns (w_disp w)"
  shows "mset (taken reg evs) = mset (batched (inner_labels evs)) + mset (dead (inner_labels evs)) \<and>
    metric dlqEnqueued (penv (sh (w_disp w))) = Some (k + length (dead (inner_labels evs)))"
proof -
  from sruns_run [OF assms(5,3)] obtain tr where tr: "druns fe (w_disp w0) tr (w_disp w)"
      "accepted tr = taken reg evs" "batched tr = batched (inner_labels evs)" "dead tr = dead (inner_labels evs)"
    by blast
  show ?thesis
    using drained [OF assms(1) tr(1) assms(6,2)] drained_counter [OF assms(1,4) tr(1) assms(6)] tr(2-4) by simp
qed

section \<open>A run\<close>

text \<open>A request without a body, the close of the channel and the end of the only worker.\<close>

abbreviation demo_limits :: RateLimitConfig where
  "demo_limits \<equiv> \<lparr>RL_Enabled = True, RequestsPerSecond = 2, BurstSize = 1\<rparr>"

abbreviation demo_full_env :: rl_env where
  "demo_full_env \<equiv> \<lparr>active = new_provider (\<lambda>_. None) xyllo_collectors, clock = 0, log_lines = [], buckets = Map.empty\<rparr>"

abbreviation demo_gateway :: "unit rl_env_ext world" where
  "demo_gateway \<equiv> \<lparr>w_disp = \<lparr>d_cfg = demo_cfg, d_chain = deployed_chain demo_limits,
     buf = \<lparr>chan_cap = 1, chan_buf = [], chan_closed = False\<rparr>, wg = 1, procs = [Ready],
     observers = 0, sh = \<lparr>penv = demo_full_env, batcher = demo_batcher, dlq = demo_queue\<rparr>\<rparr>, w_pool = pool_init\<rparr>"

abbreviation demo_stopped :: "unit rl_env_ext world" where
  "demo_stopped \<equiv> demo_gateway\<lparr>w_disp := (w_disp demo_gateway)\<lparr>
     buf := \<lparr>chan_cap = 1, chan_buf = [], chan_closed = True\<rparr>, wg := 0, procs := [Exited]\<rparr>\<rparr>"

abbreviation empty_request :: http_request where
  "empty_request \<equiv> \<lparr>rq_header = (\<lambda>_. []), rq_body = []\<rparr>"

abbreviation demo_events :: "sys_event list" where
  "demo_events \<equiv> [Request demo_chance empty_request
     (Ret (Inr \<lparr>rs_status = 400, rs_body = error_body ''request body is required''\<rparr>)), Inner Tau, Inner Tau]"

lemma demo_gateway_run: "sruns demo_fmt NewRegistry demo_ingestor demo_gateway demo_events demo_stopped"
proof -
  let ?resp = "Inr \<lparr>rs_status = 400, rs_body = error_body ''request body is required''\<rparr>"
  let ?closed = "demo_gateway\<lparr>w_disp := (w_disp demo_gateway)\<lparr>buf := \<lparr>chan_cap = 1, chan_buf = [], chan_closed = True\<rparr>\<rparr>\<rparr>"
  have "sstep demo_fmt NewRegistry demo_ingestor demo_gateway (Request demo_chance empty_request (Ret ?resp)) demo_gateway"
    by (rule request) (simp_all add: parked_ok_def handleIngest_def reply_def status_defs)
  note s1 = sruns_snoc [OF sruns_nil this]
  have "dstep demo_fmt (w_disp demo_gateway) Tau (w_disp ?closed)"
    by (rule shut) (simp add: shutdown_close_def close_chan_def)
  from inner [OF this, of NewRegistry demo_ingestor]
  have "sstep demo_fmt NewRegistry demo_ingestor demo_gateway (Inner Tau) ?closed" by simp
  note s2 = sruns_snoc [OF s1 this]
  have "wstep demo_fmt (w_disp ?closed) Tau (w_disp demo_stopped)"
    by (rule demo_move) (simp_all add: worker_move_def range_recv_def)
  from inner [OF work [OF this], of NewRegistry demo_ingestor]
  have "sstep demo_fmt NewRegistry demo_ingestor ?closed (Inner Tau) demo_stopped" by simp
  from sruns_snoc [OF s2 this] show ?thesis by simp
qed

theorem gateway_balance_witness:
  "metric dlqEnqueued (penv (sh (w_disp demo_stopped))) = Some (0 + length (dead (inner_labels demo_events))) \<and>
   mset (taken NewRegistry demo_events) = {#} + {#}"
proof -
  have new: "dispatcher_New demo_cfg (deployed_chain demo_limits) demo_batcher demo_queue demo_full_env = Ret (w_disp demo_gateway)"
    by (simp add: dispatcher_New_def make_chan_def chan_fits_def payload_bytes_def)
  have "pool_ok (w_pool demo_gateway) {}" using pool_ok_init by simp
  moreover have "metric dlqEnqueued demo_full_env = Some 0"
    by (simp add: metric_def new_provider_def)
  moreover have "shutdown_returns (w_disp demo_stopped)" by (simp add: shutdown_returns_def)
  ultimately show ?thesis
    using gateway_balance [OF new _ _ _ demo_gateway_run] by simp
qed

end
