(* ===== verification/Concurrent.thy ===== *)
theory Concurrent
  imports Gateway
begin

text \<open>
  The intakes at their finest grain: every HTTP request runs in its own goroutine and every region
  has its reader, and all of them, the workers and the garbage collector take turns at every access
  to something they share: the pool, the channel, the metrics, the log and the Redis server.
  \<open>sstep\<close> of the previous theory took a handler as one step; here a handler is cut into the steps
  between which others may run. What is proved is that nothing is lost in between: the dispatcher
  makes a run of its own steps, each client knows exactly what became of its own payload, and no
  client waits for another.
\<close>

section \<open>State\<close>

datatype client = Http nat | Region nat

text \<open>Where a client is inside \<^verbatim>\<open>Submit\<close> and the counting that follows it.\<close>

datatype stage = Idle | Sent Payload | Gauged Payload | Turned_away Payload

text \<open>Where a reader is: about to start, between rounds, with the messages of a round left, or with one in hand.\<close>

datatype reader_pc =
    Starting
  | Polling
  | Next "XMessage list"
  | Handling XMessage "XMessage list" "prepared option"
  | Discarding XMessage "XMessage list"
  | Acking XMessage "XMessage list"
  | Ended

record ('z, 'r) conc =
  k_disp :: "'z disp"
  k_ing :: ingesting
  k_stage :: "client \<Rightarrow> stage"
  k_answer :: "nat \<Rightarrow> http_response option"
  k_reader :: "nat \<Rightarrow> reader_pc"
  k_redis :: 'r

definition conc_init :: "'r StreamIngestor \<Rightarrow> 'z disp \<Rightarrow> 'r \<Rightarrow> ('z, 'r) conc" where
  "conc_init si d r = \<lparr>k_disp = d, k_ing = ingesting_init, k_stage = (\<lambda>_. Idle), k_answer = (\<lambda>_. None),
     k_reader = (\<lambda>j. if j < length (Regions (si_cfg si)) then Starting else Ended), k_redis = r\<rparr>"

text \<open>The payload a client is about to submit, and the message it comes from.\<close>

definition region_name :: "'r StreamIngestor \<Rightarrow> nat \<Rightarrow> bytes" where
  "region_name si j = Regions (si_cfg si) ! j"

fun wanted :: "'r StreamIngestor \<Rightarrow> (nat \<Rightarrow> ingest_request) \<Rightarrow> ('z, 'r) conc \<Rightarrow> client \<Rightarrow> Payload option" where
  "wanted si reqs w (Http k) =
     (case (k_answer w k, g_phase (k_ing w) k) of
        (None, Over (Prepared i data)) \<Rightarrow> Some \<lparr>p_Source = q_source (reqs k), p_Data = data\<rparr>
      | _ \<Rightarrow> None)"
| "wanted si reqs w (Region j) =
     (case k_reader w j of
        Handling m ms (Some (Prepared u data)) \<Rightarrow> Some \<lparr>p_Source = region_name si j, p_Data = data\<rparr>
      | _ \<Rightarrow> None)"

fun topic :: "('z, 'r) conc \<Rightarrow> client \<Rightarrow> XMessage option" where
  "topic w (Http k) = None"
| "topic w (Region j) = (case k_reader w j of Handling m ms pr \<Rightarrow> Some m | _ \<Rightarrow> None)"

section \<open>Steps\<close>

datatype clabel =
    Inside dlabel
  | Client client "XMessage option" dlabel
  | Answer nat http_response
  | Drop nat XMessage
  | Ack nat XMessage

fun lab :: "clabel \<Rightarrow> dlabel" where
  "lab (Inside l) = l"
| "lab (Client c m l) = l"
| "lab _ = Tau"

text \<open>A metrics call that does not panic.\<close>

definition counted :: "('z env_scheme \<Rightarrow> unit call \<times> 'z env_scheme) \<Rightarrow> 'z disp \<Rightarrow> 'z disp \<Rightarrow> bool" where
  "counted f d d' \<longleftrightarrow> on_disp f d = (Ret (), d')"

abbreviation answered :: "nat \<Rightarrow> int \<Rightarrow> bytes \<Rightarrow> ('z, 'r) conc \<Rightarrow> ('z, 'r) conc" where
  "answered k code b w \<equiv> w\<lparr>k_stage := (k_stage w)(Http k := Idle),
     k_answer := (k_answer w)(k \<mapsto> \<lparr>rs_status = code, rs_body = b\<rparr>)\<rparr>"

abbreviation reader_at :: "nat \<Rightarrow> reader_pc \<Rightarrow> ('z, 'r) conc \<Rightarrow> ('z, 'r) conc" where
  "reader_at j pc w \<equiv> w\<lparr>k_stage := (k_stage w)(Region j := Idle), k_reader := (k_reader w)(j := pc)\<rparr>"

abbreviation Answered :: "nat \<Rightarrow> int \<Rightarrow> bytes \<Rightarrow> clabel" where
  "Answered k code b \<equiv> Answer k \<lparr>rs_status = code, rs_body = b\<rparr>"

text \<open>A client inside \<^verbatim>\<open>Submit\<close>: the \<^verbatim>\<open>select\<close>, and the observation after a send.\<close>

inductive submit_move ::
  "'r StreamIngestor \<Rightarrow> (nat \<Rightarrow> ingest_request) \<Rightarrow> ('z, 'r) conc \<Rightarrow> clabel \<Rightarrow> ('z, 'r) conc \<Rightarrow> bool"
  for si reqs where
  sending: "wanted si reqs w c = Some p \<Longrightarrow> k_stage w c = Idle \<Longrightarrow> parked_ok parked (k_disp w) \<Longrightarrow>
    submit_send parked p (k_disp w) = (Ret True, d) \<Longrightarrow>
    submit_move si reqs w (Client c (topic w c) (Accept p))
      (w\<lparr>k_disp := d, k_stage := (k_stage w)(c := Sent p)\<rparr>)"
| refusing: "wanted si reqs w c = Some p \<Longrightarrow> k_stage w c = Idle \<Longrightarrow>
    submit_send None p (k_disp w) = (Ret False, d) \<Longrightarrow>
    submit_move si reqs w (Client c (topic w c) (Refuse p))
      (w\<lparr>k_disp := d, k_stage := (k_stage w)(c := Turned_away p)\<rparr>)"
| gauging: "k_stage w c = Sent p \<Longrightarrow> submit_observe (k_disp w) = (Ret (), d) \<Longrightarrow>
    submit_move si reqs w (Client c (topic w c) Tau)
      (w\<lparr>k_disp := d, k_stage := (k_stage w)(c := Gauged p)\<rparr>)"

text \<open>
  A request: its stretch with the buffer, a step of \<open>ingest_step\<close> at a time, and its answers, each
  with the metric recorded just before.
\<close>

inductive request_move ::
  "fmt_env \<Rightarrow> Registry \<Rightarrow> (nat \<Rightarrow> ingest_request) \<Rightarrow> ('z, 'r) conc \<Rightarrow> clabel \<Rightarrow> ('z, 'r) conc \<Rightarrow> bool"
  for fe reg reqs where
  buffering: "q_raw (reqs k) \<noteq> [] \<Longrightarrow> k_answer w k = None \<Longrightarrow> phase_no (g_phase (k_ing w) k) < 5 \<Longrightarrow>
    request_move fe reg reqs w (Client (Http k) None Tau)
      (w\<lparr>k_ing := ingest_step reg reqs (k_ing w) (Advance k choice grow)\<rparr>)"
| without_body: "q_raw (reqs k) = [] \<Longrightarrow> k_answer w k = None \<Longrightarrow>
    b = error_body ''request body is required'' \<Longrightarrow>
    request_move fe reg reqs w (Answered k StatusBadRequest b) (answered k StatusBadRequest b w)"
| untranslatable: "g_phase (k_ing w) k = Over (Untranslatable err) \<Longrightarrow> k_answer w k = None \<Longrightarrow>
    counted (RecordEventRejected (q_source (reqs k)) ''translation_error'') (k_disp w) d \<Longrightarrow>
    b = error_body (render fe (err_text err)) \<Longrightarrow>
    request_move fe reg reqs w (Answered k StatusUnprocessableEntity b)
      (answered k StatusUnprocessableEntity b (w\<lparr>k_disp := d\<rparr>))"
| unmarshalable: "g_phase (k_ing w) k = Over Unmarshalable \<Longrightarrow> k_answer w k = None \<Longrightarrow>
    b = error_body ''internal serialisation error'' \<Longrightarrow>
    request_move fe reg reqs w (Answered k StatusInternalServerError b) (answered k StatusInternalServerError b w)"
| taken_in: "k_stage w (Http k) = Gauged p \<Longrightarrow> g_phase (k_ing w) k = Over (Prepared i data) \<Longrightarrow>
    counted (RecordEventIngested (p_Source p)) (k_disp w) d \<Longrightarrow>
    request_move fe reg reqs w (Answered k StatusAccepted (accepted_body i))
      (answered k StatusAccepted (accepted_body i) (w\<lparr>k_disp := d\<rparr>))"
| sent_back: "k_stage w (Http k) = Turned_away p \<Longrightarrow>
    counted (RecordEventRejected (p_Source p) ''buffer_full'') (k_disp w) d \<Longrightarrow>
    b = error_body ''buffer full, retry later'' \<Longrightarrow>
    request_move fe reg reqs w (Answered k StatusTooManyRequests b)
      (answered k StatusTooManyRequests b (w\<lparr>k_disp := d\<rparr>))"

text \<open>
  The reader of a region: its loop, and what it does with a message outside of \<^verbatim>\<open>Submit\<close>. The
  context may be found cancelled at any check.
\<close>

inductive reader_move :: "'r StreamIngestor \<Rightarrow> ('z, 'r) conc \<Rightarrow> clabel \<Rightarrow> ('z, 'r) conc \<Rightarrow> bool" for si where
  starting: "k_reader w j = Starting \<Longrightarrow>
    reader_move si w (Client (Region j) None Tau)
      (reader_at j Polling (w\<lparr>k_disp := log_disp ([Lit ''[streamingestor] consumer '',
         Quoted (consumer_name si (region_name si j)), Lit '' started on stream '',
         Quoted (streamKey si (region_name si j))]) (k_disp w)\<rparr>))"
| ending: "k_reader w j = Polling \<Longrightarrow>
    reader_move si w (Client (Region j) None Tau)
      (reader_at j Ended (w\<lparr>k_disp := log_disp (reader_log ''consumer ''
         (consumer_name si (region_name si j)) '' shutting down'') (k_disp w)\<rparr>))"
| reading: "k_reader w j = Polling \<Longrightarrow> read_region si (region_name si j) (k_redis w) = (Inr msgs, r) \<Longrightarrow>
    reader_move si w (Client (Region j) None Tau) (reader_at j (Next msgs) (w\<lparr>k_redis := r\<rparr>))"
| read_failed: "k_reader w j = Polling \<Longrightarrow> read_region si (region_name si j) (k_redis w) = (Inl err, r) \<Longrightarrow>
    reader_move si w (Client (Region j) None Tau)
      (w\<lparr>k_redis := r, k_disp := log_disp (reader_log ''XREADGROUP error on ''
         (streamKey si (region_name si j)) '': '' @ err_text err) (k_disp w)\<rparr>)"
| read_cancelled: "k_reader w j = Polling \<Longrightarrow> read_region si (region_name si j) (k_redis w) = (Inl err, r) \<Longrightarrow>
    reader_move si w (Client (Region j) None Tau) (reader_at j Ended (w\<lparr>k_redis := r\<rparr>))"
| round_over: "k_reader w j = Next [] \<Longrightarrow>
    reader_move si w (Client (Region j) None Tau) (reader_at j Polling w)"
| taking: "k_reader w j = Next (m # ms) \<Longrightarrow>
    reader_move si w (Client (Region j) None Tau)
      (reader_at j (Handling m ms (message_prepared si sc (region_name si j) m)) w)"
| no_data: "k_reader w j = Handling m ms None \<Longrightarrow>
    reader_move si w (Drop j m)
      (reader_at j (Acking m ms) (w\<lparr>k_disp := log_disp (no_data_log (msg_ID m)) (k_disp w)\<rparr>))"
| bad_event: "k_reader w j = Handling m ms (Some Unmarshalable) \<Longrightarrow>
    reader_move si w (Drop j m)
      (reader_at j (Acking m ms)
        (w\<lparr>k_disp := log_disp (message_log ''marshal'' (msg_ID m) (Lib_error x)) (k_disp w)\<rparr>))"
| untranslated: "k_reader w j = Handling m ms (Some (Untranslatable err)) \<Longrightarrow>
    reader_move si w (Client (Region j) None Tau)
      (reader_at j (Discarding m ms)
        (w\<lparr>k_disp := log_disp (message_log ''translate'' (msg_ID m) err) (k_disp w)\<rparr>))"
| discarded: "k_reader w j = Discarding m ms \<Longrightarrow>
    counted (RecordEventRejected (region_name si j) ''translation_error'') (k_disp w) d \<Longrightarrow>
    reader_move si w (Drop j m) (reader_at j (Acking m ms) (w\<lparr>k_disp := d\<rparr>))"
| queued: "k_stage w (Region j) = Gauged p \<Longrightarrow> k_reader w j = Handling m ms pr \<Longrightarrow>
    counted (RecordEventIngested (p_Source p)) (k_disp w) d \<Longrightarrow>
    reader_move si w (Client (Region j) (Some m) Tau) (reader_at j (Acking m ms) (w\<lparr>k_disp := d\<rparr>))"
| withheld: "k_stage w (Region j) = Turned_away p \<Longrightarrow> k_reader w j = Handling m ms pr \<Longrightarrow>
    counted (RecordEventRejected (p_Source p) ''buffer_full'') (k_disp w) d \<Longrightarrow>
    reader_move si w (Client (Region j) (Some m) Tau) (reader_at j (Next ms) (w\<lparr>k_disp := d\<rparr>))"
| acking: "k_reader w j = Acking m ms \<Longrightarrow>
    reader_move si w (Ack j m)
      (reader_at j (Next ms) (w\<lparr>k_redis := snd (XAck (si_client si) (streamKey si (region_name si j))
         (ConsumerGroup (si_cfg si)) (msg_ID m) (k_redis w))\<rparr>))"

text \<open>All steps: the workers, the close, what else happens in the process, and the clients.\<close>

inductive cstep ::
  "fmt_env \<Rightarrow> Registry \<Rightarrow> 'r StreamIngestor \<Rightarrow> (nat \<Rightarrow> ingest_request) \<Rightarrow> ('z, 'r) conc \<Rightarrow> clabel \<Rightarrow>
   ('z, 'r) conc \<Rightarrow> bool" for fe reg si reqs where
  working: "wstep fe (k_disp w) l d \<Longrightarrow> cstep fe reg si reqs w (Inside l) (w\<lparr>k_disp := d\<rparr>)"
| closing: "shutdown_close (k_disp w) = (Ret (), d) \<Longrightarrow>
    cstep fe reg si reqs w (Inside Tau) (w\<lparr>k_disp := d\<rparr>)"
| passing: "metric dlqEnqueued e = metric dlqEnqueued (penv (sh (k_disp w))) \<Longrightarrow>
    cstep fe reg si reqs w (Inside Tau)
      (w\<lparr>k_disp := (k_disp w)\<lparr>sh := (sh (k_disp w))\<lparr>penv := e\<rparr>\<rparr>\<rparr>)"
| collecting: "cstep fe reg si reqs w (Inside Tau) (w\<lparr>k_ing := ingest_step reg reqs (k_ing w) (Collect i)\<rparr>)"
| submitting: "submit_move si reqs w l w' \<Longrightarrow> cstep fe reg si reqs w l w'"
| requesting: "request_move fe reg reqs w l w' \<Longrightarrow> cstep fe reg si reqs w l w'"
| consuming: "reader_move si w l w' \<Longrightarrow> cstep fe reg si reqs w l w'"

inductive cruns ::
  "fmt_env \<Rightarrow> Registry \<Rightarrow> 'r StreamIngestor \<Rightarrow> (nat \<Rightarrow> ingest_request) \<Rightarrow> ('z, 'r) conc \<Rightarrow> clabel list \<Rightarrow>
   ('z, 'r) conc \<Rightarrow> bool" for fe reg si reqs w where
  cruns_nil: "cruns fe reg si reqs w [] w"
| cruns_snoc: "cruns fe reg si reqs w tr w' \<Longrightarrow> cstep fe reg si reqs w' l w'' \<Longrightarrow>
    cruns fe reg si reqs w (tr @ [l]) w''"

text \<open>The steps of the clients, as steps of the whole.\<close>

lemmas sending_step = submitting [OF sending]
  and refusing_step = submitting [OF refusing]
  and gauging_step = submitting [OF gauging]
  and buffering_step = requesting [OF buffering]
  and without_body_step = requesting [OF without_body]
  and untranslatable_step = requesting [OF untranslatable]
  and unmarshalable_step = requesting [OF unmarshalable]
  and taken_in_step = requesting [OF taken_in]
  and sent_back_step = requesting [OF sent_back]
  and starting_step = consuming [OF starting]
  and reading_step = consuming [OF reading]
  and taking_step = consuming [OF taking]
  and no_data_step = consuming [OF no_data]
  and bad_event_step = consuming [OF bad_event]
  and untranslated_step = consuming [OF untranslated]
  and discarded_step = consuming [OF discarded]
  and queued_step = consuming [OF queued]
  and withheld_step = consuming [OF withheld]
  and acking_step = consuming [OF acking]

inductive_cases cstepE: "cstep fe reg si reqs w l w'"
inductive_cases insideE: "cstep fe reg si reqs w (Inside l) w'"

section \<open>The invariant\<close>

text \<open>What a client has in hand agrees with where it is; observers are the clients inside the send.\<close>

fun in_hand :: "stage \<Rightarrow> Payload option" where
  "in_hand (Sent p) = Some p"
| "in_hand (Gauged p) = Some p"
| "in_hand (Turned_away p) = Some p"
| "in_hand Idle = None"

definition senders :: "(client \<Rightarrow> stage) \<Rightarrow> client set" where
  "senders st = {c. \<exists>p. st c = Sent p}"

definition conc_ok :: "Registry \<Rightarrow> 'r StreamIngestor \<Rightarrow> (nat \<Rightarrow> ingest_request) \<Rightarrow> ('z, 'r) conc \<Rightarrow> bool" where
  "conc_ok reg si reqs w \<longleftrightarrow>
     ingesting_ok reg reqs (k_ing w) \<and> (\<forall>k. q_raw (reqs k) = [] \<longrightarrow> g_phase (k_ing w) k = Waiting) \<and>
     finite (senders (k_stage w)) \<and> observers (k_disp w) = card (senders (k_stage w)) \<and>
     (\<forall>c p. in_hand (k_stage w c) = Some p \<longrightarrow> wanted si reqs w c = Some p)"

lemma senders_upd:
  "senders (st(c := s)) = (case s of Sent p \<Rightarrow> insert c (senders st) | _ \<Rightarrow> senders st - {c})"
  by (auto simp: senders_def split: stage.split)

lemma senders_not: "(\<And>p. st c \<noteq> Sent p) \<Longrightarrow> senders st - {c} = senders st"
  by (auto simp: senders_def)

lemma wanted_frame [simp]:
  "wanted si reqs (w\<lparr>k_disp := d\<rparr>) c = wanted si reqs w c"
  "wanted si reqs (w\<lparr>k_redis := r\<rparr>) c = wanted si reqs w c"
  "wanted si reqs (w\<lparr>k_stage := st\<rparr>) c = wanted si reqs w c"
  by (cases c; simp)+

lemma wanted_reader: "c \<noteq> Region j \<Longrightarrow> wanted si reqs (w\<lparr>k_reader := (k_reader w)(j := pc)\<rparr>) c = wanted si reqs w c"
  by (cases c) auto

lemma wanted_answer: "c \<noteq> Http k \<Longrightarrow> wanted si reqs (w\<lparr>k_answer := (k_answer w)(k := a)\<rparr>) c = wanted si reqs w c"
  by (cases c) auto

lemma conc_ok_disp: "conc_ok reg si reqs w \<Longrightarrow> observers d = observers (k_disp w) \<Longrightarrow> conc_ok reg si reqs (w\<lparr>k_disp := d\<rparr>)"
  by (simp add: conc_ok_def)

lemma conc_ok_redis: "conc_ok reg si reqs w \<Longrightarrow> conc_ok reg si reqs (w\<lparr>k_redis := r\<rparr>)"
  by (simp add: conc_ok_def)

lemma conc_ok_reader:
  assumes "conc_ok reg si reqs w" and "\<And>p. k_stage w (Region j) \<noteq> Sent p" and "observers d = observers (k_disp w)"
  shows "conc_ok reg si reqs (reader_at j pc w)"
    and "conc_ok reg si reqs (reader_at j pc (w\<lparr>k_disp := d\<rparr>))"
    and "conc_ok reg si reqs (reader_at j pc (w\<lparr>k_redis := r\<rparr>))"
  using assms wanted_reader [of _ j si reqs "w\<lparr>k_stage := (k_stage w)(Region j := Idle)\<rparr>" pc]
    wanted_reader [of _ j si reqs "w\<lparr>k_disp := d, k_stage := (k_stage w)(Region j := Idle)\<rparr>" pc]
    wanted_reader [of _ j si reqs "w\<lparr>k_redis := r, k_stage := (k_stage w)(Region j := Idle)\<rparr>" pc]
  by (auto simp: conc_ok_def senders_upd senders_not)

lemma conc_ok_answer:
  assumes "conc_ok reg si reqs w" and "\<And>p. k_stage w (Http k) \<noteq> Sent p" and "observers d = observers (k_disp w)"
  shows "conc_ok reg si reqs (answered k code b w)"
    and "conc_ok reg si reqs (answered k code b (w\<lparr>k_disp := d\<rparr>))"
  using assms
    wanted_answer [of _ k si reqs "w\<lparr>k_stage := (k_stage w)(Http k := Idle)\<rparr>" "Some \<lparr>rs_status = code, rs_body = b\<rparr>"]
    wanted_answer [of _ k si reqs "w\<lparr>k_disp := d, k_stage := (k_stage w)(Http k := Idle)\<rparr>" "Some \<lparr>rs_status = code, rs_body = b\<rparr>"]
  by (auto simp: conc_ok_def senders_upd senders_not)

lemma conc_ok_stage:
  assumes "conc_ok reg si reqs w" and "in_hand s = Some p" and "wanted si reqs w c = Some p"
    and "observers d = card (senders ((k_stage w)(c := s)))"
  shows "conc_ok reg si reqs (w\<lparr>k_disp := d, k_stage := (k_stage w)(c := s)\<rparr>)"
  using assms by (auto simp: conc_ok_def senders_upd split: stage.split)

lemma idle_stage:
  assumes "conc_ok reg si reqs w" and "wanted si reqs w c = None"
  shows "k_stage w c = Idle"
  using assms unfolding conc_ok_def by (cases "k_stage w c") force+

lemma ingest_others: "k' \<noteq> k \<Longrightarrow> g_phase (ingest_step reg reqs g (Advance k choice grow)) k' = g_phase g k'"
  by (auto simp: enter_def split: phase.split prod.split)

lemma conc_ok_ingest:
  assumes ok: "conc_ok reg si reqs w" and g: "\<And>k'. g_phase g k' = g_phase (k_ing w) k' \<or> wanted si reqs w (Http k') = None"
    and "ingesting_ok reg reqs g" and "\<And>k'. q_raw (reqs k') = [] \<Longrightarrow> g_phase g k' = Waiting"
  shows "conc_ok reg si reqs (w\<lparr>k_ing := g\<rparr>)"
proof -
  have "wanted si reqs (w\<lparr>k_ing := g\<rparr>) c = wanted si reqs w c" if "in_hand (k_stage w c) = Some p" for c p
  proof (cases c)
    case (Http k')
    have "wanted si reqs w c \<noteq> None" using ok that by (simp add: conc_ok_def)
    with g [of k'] Http have "g_phase g k' = g_phase (k_ing w) k'" by auto
    then show ?thesis by (simp add: Http)
  qed simp
  with assms show ?thesis by (simp add: conc_ok_def)
qed

lemma observers_simps [simp]:
  "observers (log_disp m d) = observers d"
  "observers (d\<lparr>sh := s\<rparr>) = observers d"
  by (simp_all add: log_disp_def)

lemma counted_observers: "counted f d d' \<Longrightarrow> observers d' = observers d"
  by (auto simp: counted_def on_disp_eq)

lemma wstep_observers: "wstep fe d l d' \<Longrightarrow> observers d' = observers d"
  by (auto elim!: wstepE simp: worker_move_def Let_def split: if_splits prod.splits recv_outcome.splits)

lemma send_observers: "submit_send parked p d = (Ret b, d') \<Longrightarrow> observers d' = (if b then Suc (observers d) else observers d)"
  by (auto simp: submit_send_def split: call.splits prod.splits send_outcome.splits)

lemma idle_region:
  assumes "conc_ok reg si reqs w"
  shows "k_reader w j = Starting \<Longrightarrow> k_stage w (Region j) = Idle"
    and "k_reader w j = Polling \<Longrightarrow> k_stage w (Region j) = Idle"
    and "k_reader w j = Next ms \<Longrightarrow> k_stage w (Region j) = Idle"
    and "k_reader w j = Discarding m ms \<Longrightarrow> k_stage w (Region j) = Idle"
    and "k_reader w j = Acking m ms \<Longrightarrow> k_stage w (Region j) = Idle"
    and "k_reader w j = Handling m ms None \<Longrightarrow> k_stage w (Region j) = Idle"
    and "k_reader w j = Handling m ms (Some Unmarshalable) \<Longrightarrow> k_stage w (Region j) = Idle"
    and "k_reader w j = Handling m ms (Some (Untranslatable err)) \<Longrightarrow> k_stage w (Region j) = Idle"
  by (rule idle_stage [OF assms], simp)+

lemma idle_request:
  assumes "conc_ok reg si reqs w"
  shows "q_raw (reqs k) = [] \<Longrightarrow> k_stage w (Http k) = Idle"
    and "g_phase (k_ing w) k = Over Unmarshalable \<Longrightarrow> k_stage w (Http k) = Idle"
    and "g_phase (k_ing w) k = Over (Untranslatable err) \<Longrightarrow> k_stage w (Http k) = Idle"
proof -
  show "k_stage w (Http k) = Idle" if "q_raw (reqs k) = []"
  proof -
    have "g_phase (k_ing w) k = Waiting" using assms that by (simp add: conc_ok_def)
    then show ?thesis by (intro idle_stage [OF assms]) (simp split: option.split)
  qed
qed (rule idle_stage [OF assms], simp split: option.split)+

declare wanted.simps [simp del] ingest_step.simps [simp del]

lemma submit_move_ok:
  assumes "submit_move si reqs w l w'" and ok: "conc_ok reg si reqs w"
  shows "conc_ok reg si reqs w'"
  using assms(1)
proof (cases rule: submit_move.cases)
  case (sending c p parked d)
  have "c \<notin> senders (k_stage w)" using sending(4) by (simp add: senders_def)
  then have "observers d = card (senders ((k_stage w)(c := Sent p)))"
    using ok send_observers [OF sending(6)] by (simp add: senders_upd conc_ok_def)
  then show ?thesis using sending conc_ok_stage [OF ok, of "Sent p" p c d] by simp
next
  case (refusing c p d)
  then show ?thesis
    using ok send_observers [OF refusing(5)] senders_not [of "k_stage w" c]
    by (auto intro!: conc_ok_stage simp: senders_upd conc_ok_def)
next
  case (gauging c p d)
  have "observers d = observers (k_disp w) - 1" using gauging(4) by (auto simp: submit_observe_eq)
  moreover have "c \<in> senders (k_stage w)" using gauging(3) by (simp add: senders_def)
  ultimately have "observers d = card (senders ((k_stage w)(c := Gauged p)))"
    using ok by (simp add: senders_upd conc_ok_def)
  moreover have "wanted si reqs w c = Some p" using ok gauging(3) by (simp add: conc_ok_def)
  ultimately show ?thesis using gauging(2) conc_ok_stage [OF ok] by simp
qed

lemma request_move_ok:
  assumes "request_move fe reg reqs w l w'" and ok: "conc_ok reg si reqs w"
  shows "conc_ok reg si reqs w'"
  using assms(1)
proof (cases rule: request_move.cases)
  case (buffering k choice grow)
  have "wanted si reqs w (Http k) = None" using buffering(5) by (auto simp: wanted.simps split: option.split phase.split)
  moreover have "g_phase (ingest_step reg reqs (k_ing w) (Advance k choice grow)) k' = g_phase (k_ing w) k'" if "k' \<noteq> k" for k'
    using ingest_others [OF that] .
  ultimately show ?thesis unfolding buffering(2)
  proof (intro conc_ok_ingest [OF ok])
    show "ingesting_ok reg reqs (ingest_step reg reqs (k_ing w) (Advance k choice grow))"
      using ok by (simp add: conc_ok_def ingest_step_ok)
  qed (use ok buffering(3) in \<open>metis conc_ok_def\<close>)+
qed (use conc_ok_answer(1) [OF ok _ refl] conc_ok_answer(2) [OF ok]
    in \<open>simp_all add: idle_request [OF ok] counted_observers\<close>)

lemma reader_move_ok:
  assumes "reader_move si w l w'" and ok: "conc_ok reg si reqs w"
  shows "conc_ok reg si reqs w'"
  using assms(1)
proof (cases rule: reader_move.cases)
  case (read_failed j err r)
  then show ?thesis using conc_ok_disp [OF conc_ok_redis [OF ok] observers_simps(1)] by simp
qed (use conc_ok_reader(1,3) [OF ok _ refl] conc_ok_reader(2) [OF ok]
    in \<open>simp_all add: idle_region [OF ok] counted_observers\<close>)

lemma cstep_ok:
  assumes "cstep fe reg si reqs w l w'" and ok: "conc_ok reg si reqs w"
  shows "conc_ok reg si reqs w'"
  using assms(1)
proof (cases rule: cstep.cases)
  case (working l d)
  then show ?thesis using conc_ok_disp [OF ok] wstep_observers by blast
next
  case (closing d)
  then have "observers d = observers (k_disp w)" by (auto simp: shutdown_close_def split: call.splits)
  then show ?thesis using conc_ok_disp [OF ok] closing by simp
next
  case (passing e)
  then show ?thesis using conc_ok_disp [OF ok, of "(k_disp w)\<lparr>sh := (sh (k_disp w))\<lparr>penv := e\<rparr>\<rparr>"] by simp
next
  case (collecting i)
  show ?thesis unfolding collecting(2)
  proof (rule conc_ok_ingest [OF ok])
    show "ingesting_ok reg reqs (ingest_step reg reqs (k_ing w) (Collect i))"
      using ok by (simp add: conc_ok_def ingest_step_ok)
  qed (use ok in \<open>simp_all add: conc_ok_def ingest_step.simps\<close>)
qed (use ok submit_move_ok request_move_ok reader_move_ok in blast)+

section \<open>The dispatcher underneath\<close>

text \<open>Every step is one of the dispatcher's own, so what was proved of those holds here.\<close>

lemma dstep_stay: "dstep fe d Tau d"
  using ambient [of "penv (sh d)" d fe] by simp

lemma counted_dstep:
  assumes "counted f d d'" and "counts_only f (penv (sh d)) refused"
  shows "dstep fe d Tau d'"
  using on_disp_step [OF assms(2), of fe] assms(1) by (simp add: counted_def)

lemmas counted_dsteps =
  counted_dstep [OF _ counts_only_calls(1)] counted_dstep [OF _ counts_only_calls(2)]

lemma sender_observed: "conc_ok reg si reqs w \<Longrightarrow> k_stage w c = Sent p \<Longrightarrow> 0 < observers (k_disp w)"
proof -
  assume ok: "conc_ok reg si reqs w" and "k_stage w c = Sent p"
  then have "c \<in> senders (k_stage w)" by (simp add: senders_def)
  with ok show ?thesis by (auto simp: conc_ok_def card_gt_0_iff)
qed

lemma cstep_dstep:
  assumes "cstep fe reg si reqs w l w'" and "conc_ok reg si reqs w"
  shows "dstep fe (k_disp w) (lab l) (k_disp w')"
  using assms(1)
proof (cases rule: cstep.cases)
  case (working l d)
  then show ?thesis by (simp add: work)
next
  case (closing d)
  then show ?thesis by (simp add: shut)
next
  case (passing e)
  then show ?thesis by (simp add: ambient)
next
  case submitting
  then show ?thesis
  proof (cases rule: submit_move.cases)
    case (gauging c p d)
    then show ?thesis using observe [OF sender_observed [OF assms(2)]] by simp
  qed (simp_all add: accept refuse)
next
  case requesting
  then show ?thesis by (cases rule: request_move.cases) (simp_all add: dstep_stay counted_dsteps)
next
  case consuming
  then show ?thesis by (cases rule: reader_move.cases) (simp_all add: dstep_stay log_disp_step counted_dsteps)
qed (simp_all add: dstep_stay)

lemma cruns_druns:
  assumes "cruns fe reg si reqs w tr w'" and "conc_ok reg si reqs w"
  shows "druns fe (k_disp w) (map lab tr) (k_disp w') \<and> conc_ok reg si reqs w'"
  using assms
proof (induction rule: cruns.induct)
  case (cruns_snoc tr w' l w'')
  then show ?case using cstep_ok cstep_dstep by (fastforce intro: druns_snoc)
qed (simp add: druns_nil)

lemma conc_init_ok:
  assumes "observers d = 0"
  shows "conc_ok reg si reqs (conc_init si d r)"
  using assms ingest_steps_ok [of reg reqs "[]"]
  by (simp add: conc_ok_def conc_init_def senders_def ingesting_init_def)

section \<open>What each client brings in\<close>

text \<open>The payloads the dispatcher takes from one client, and what its state says of them.\<close>

fun sent1 :: "client \<Rightarrow> clabel \<Rightarrow> Payload list" where
  "sent1 c (Client c' m (Accept p)) = (if c = c' then [p] else [])"
| "sent1 c l = []"

abbreviation sent :: "client \<Rightarrow> clabel list \<Rightarrow> Payload list" where
  "sent c tr \<equiv> concat (map (sent1 c) tr)"

fun past_send :: "stage \<Rightarrow> Payload list" where
  "past_send (Sent p) = [p]"
| "past_send (Gauged p) = [p]"
| "past_send st = []"

text \<open>A request has brought in its event when it was answered 202, or is about to be.\<close>

definition event_of :: "Registry \<Rightarrow> ingest_request \<Rightarrow> Payload list" where
  "event_of reg q =
     (case request_result reg q of
        Prepared i data \<Rightarrow> [\<lparr>p_Source = q_source q, p_Data = data\<rparr>] | _ \<Rightarrow> [])"

definition request_sent :: "Registry \<Rightarrow> (nat \<Rightarrow> ingest_request) \<Rightarrow> ('z, 'r) conc \<Rightarrow> nat \<Rightarrow> Payload list" where
  "request_sent reg reqs w k =
     (case k_answer w k of
        Some resp \<Rightarrow> if rs_status resp = 202 then event_of reg (reqs k) else []
      | None \<Rightarrow> past_send (k_stage w (Http k)))"

lemma over_event:
  assumes "conc_ok reg si reqs w" and "g_phase (k_ing w) k = Over r"
  shows "r = request_result reg (reqs k)"
proof -
  have "phase_ok reg (reqs k) (g_phase (k_ing w) k)" using assms(1) by (simp add: conc_ok_def ingesting_ok_def)
  with assms(2) show ?thesis by (simp add: phase_ok_def)
qed

lemma in_hand_event:
  assumes "conc_ok reg si reqs w" and "in_hand (k_stage w (Http k)) = Some p"
  shows "k_answer w k = None" and "event_of reg (reqs k) = [p]"
proof -
  have "wanted si reqs w (Http k) = Some p" using assms by (simp add: conc_ok_def)
  then obtain i data where "k_answer w k = None" "g_phase (k_ing w) k = Over (Prepared i data)"
      "p = \<lparr>p_Source = q_source (reqs k), p_Data = data\<rparr>"
    by (auto simp: wanted.simps split: option.splits phase.splits prepared.splits)
  then show "k_answer w k = None" "event_of reg (reqs k) = [p]"
    by (simp_all add: event_of_def over_event [OF assms(1), symmetric])
qed

lemma request_past: "k_answer w k = None \<Longrightarrow> request_sent reg reqs w k = past_send (k_stage w (Http k))"
  by (simp add: request_sent_def)

lemma request_sent_answered:
  "request_sent reg reqs (answered k code b w) k' =
     (if k' = k then if code = 202 then event_of reg (reqs k) else [] else request_sent reg reqs w k')"
  "request_sent reg reqs (answered k code b (w\<lparr>k_disp := d\<rparr>)) k' =
     (if k' = k then if code = 202 then event_of reg (reqs k) else [] else request_sent reg reqs w k')"
  by (simp_all add: request_sent_def split: option.split)

lemmas request_sent_answered_simps = request_sent_answered [simplified]

lemma request_sent_cong:
  "k_answer w' k = k_answer w k \<Longrightarrow> k_stage w' (Http k) = k_stage w (Http k) \<Longrightarrow>
     request_sent reg reqs w' k = request_sent reg reqs w k"
  by (simp add: request_sent_def split: option.split)

lemma request_sent_stage:
  "request_sent reg reqs (w\<lparr>k_disp := d, k_stage := (k_stage w)(c := st)\<rparr>) k =
     (if c = Http k \<and> k_answer w k = None then past_send st else request_sent reg reqs w k)"
  by (auto simp: request_sent_def split: option.split)

lemma request_sent_step:
  assumes "cstep fe reg si reqs w l w'" and ok: "conc_ok reg si reqs w"
  shows "request_sent reg reqs w' k = request_sent reg reqs w k @ sent1 (Http k) l"
  using assms(1)
proof (cases rule: cstep.cases)
  case submitting
  then show ?thesis
  proof (cases rule: submit_move.cases)
    case (gauging c p d)
    then show ?thesis
      unfolding gauging(1,2) request_sent_stage using in_hand_event(1) [OF ok, of k p] gauging(3)
      by (auto simp: request_sent_def)
  qed (auto simp: request_sent_stage request_sent_def wanted.simps split: option.splits)
next
  case requesting
  then show ?thesis
  proof (cases rule: request_move.cases)
    case (taken_in k' p i data d)
    then show ?thesis
      using in_hand_event [OF ok, of k' p] by (auto simp: request_sent_answered_simps status_defs request_past)
  next
    case (sent_back k' p d b)
    then show ?thesis
      using in_hand_event [OF ok, of k' p] by (auto simp: request_sent_answered_simps status_defs request_past)
  qed (auto simp: request_sent_answered_simps status_defs request_past idle_request [OF ok] intro!: request_sent_cong)
next
  case consuming
  then show ?thesis by (cases rule: reader_move.cases) (auto intro!: request_sent_cong)
qed (auto intro!: request_sent_cong)

lemma request_sent_run:
  assumes "cruns fe reg si reqs w tr w'" and "conc_ok reg si reqs w"
  shows "request_sent reg reqs w' k = request_sent reg reqs w k @ sent (Http k) tr"
  using assms
proof (induction rule: cruns.induct)
  case (cruns_snoc tr w' l w'')
  then show ?case using request_sent_step [OF cruns_snoc.hyps(2)] cruns_druns [OF cruns_snoc.hyps(1)] by simp
qed simp

section \<open>What each reader settles\<close>

text \<open>
  The messages a reader is done with, because the dispatcher took their event or because they can
  never be delivered; those it acknowledged; and the one that is still to be acknowledged.
\<close>

fun concluded1 :: "nat \<Rightarrow> clabel \<Rightarrow> XMessage list" where
  "concluded1 j (Client (Region j') (Some m) (Accept p)) = (if j = j' then [m] else [])"
| "concluded1 j (Drop j' m) = (if j = j' then [m] else [])"
| "concluded1 j l = []"

fun acked1 :: "nat \<Rightarrow> clabel \<Rightarrow> XMessage list" where
  "acked1 j (Ack j' m) = (if j = j' then [m] else [])"
| "acked1 j l = []"

abbreviation "concluded j tr \<equiv> concat (map (concluded1 j) tr)"
abbreviation "acked j tr \<equiv> concat (map (acked1 j) tr)"

definition to_ack :: "('z, 'r) conc \<Rightarrow> nat \<Rightarrow> XMessage list" where
  "to_ack w j =
     (case k_reader w j of
        Acking m ms \<Rightarrow> [m]
      | Handling m ms pr \<Rightarrow> if past_send (k_stage w (Region j)) = [] then [] else [m]
      | _ \<Rightarrow> [])"

lemma to_ack_cong:
  "k_reader w' j = k_reader w j \<Longrightarrow> k_stage w' (Region j) = k_stage w (Region j) \<Longrightarrow> to_ack w' j = to_ack w j"
  by (simp add: to_ack_def split: reader_pc.split)

lemma region_handling:
  "wanted si reqs w (Region j) = Some p \<Longrightarrow> \<exists>m ms pr. k_reader w j = Handling m ms pr"
  by (auto simp: wanted.simps split: reader_pc.splits)

lemma to_ack_Handling:
  "k_reader w j = Handling m ms pr \<Longrightarrow> to_ack w j = (if past_send (k_stage w (Region j)) = [] then [] else [m])"
  by (simp add: to_ack_def)

lemma to_ack_simps:
  "k_reader w j = Starting \<Longrightarrow> to_ack w j = []" "k_reader w j = Polling \<Longrightarrow> to_ack w j = []"
  "k_reader w j = Next ms \<Longrightarrow> to_ack w j = []" "k_reader w j = Discarding m ms \<Longrightarrow> to_ack w j = []"
  "k_reader w j = Acking m ms \<Longrightarrow> to_ack w j = [m]" "k_reader w j = Ended \<Longrightarrow> to_ack w j = []"
  by (simp_all add: to_ack_def)

text \<open>The reader a step belongs to; it leaves the others alone.\<close>

fun reader_of :: "clabel \<Rightarrow> nat option" where
  "reader_of (Client (Region j) m l) = Some j"
| "reader_of (Drop j m) = Some j"
| "reader_of (Ack j m) = Some j"
| "reader_of l = None"

text \<open>And the steps of one request.\<close>

fun own1 :: "nat \<Rightarrow> clabel \<Rightarrow> bool" where
  "own1 k (Client c m l) \<longleftrightarrow> c = Http k"
| "own1 k (Answer k' resp) \<longleftrightarrow> k = k'"
| "own1 k l \<longleftrightarrow> False"

lemma other_reader:
  assumes "cstep fe reg si reqs w l w'" and "reader_of l \<noteq> Some j"
  shows "k_reader w' j = k_reader w j \<and> k_stage w' (Region j) = k_stage w (Region j)"
  using assms by (auto elim!: cstep.cases submit_move.cases request_move.cases reader_move.cases)

lemma other_reader_label: "reader_of l \<noteq> Some j \<Longrightarrow> concluded1 j l = [] \<and> acked1 j l = []"
  by (cases "(j, l)" rule: concluded1.cases) auto

lemma to_ack_step:
  assumes "cstep fe reg si reqs w l w'" and ok: "conc_ok reg si reqs w"
  shows "to_ack w j @ concluded1 j l = acked1 j l @ to_ack w' j"
proof (cases "reader_of l = Some j")
  case False
  from other_reader [OF assms(1) this] other_reader_label [OF this] to_ack_cong [of w' j w] show ?thesis by simp
next
  case True
  have wanted: "wanted si reqs w c = Some p" if "k_stage w c = Sent p" for c p
    using ok that by (simp add: conc_ok_def)
  have handling: "\<exists>m ms pr. k_reader w j = Handling m ms pr" if "wanted si reqs w (Region j) = Some p" for p
    using region_handling [OF that] .
  from assms(1) show ?thesis
  proof (cases rule: cstep.cases)
    case submitting
    then show ?thesis
    proof (cases rule: submit_move.cases)
      case (sending c p parked d)
      with True handling show ?thesis by (cases c) (auto simp: to_ack_Handling)
    next
      case (refusing c p d)
      with True handling show ?thesis by (cases c) (auto simp: to_ack_Handling)
    next
      case (gauging c p d)
      with True have c: "c = Region j" by (cases c) auto
      with handling wanted [OF gauging(3)] obtain m ms pr where "k_reader w j = Handling m ms pr" by blast
      with gauging c show ?thesis by (simp add: to_ack_Handling)
    qed
  next
    case requesting
    then show ?thesis using True by (cases rule: request_move.cases) simp_all
  next
    case consuming
    then show ?thesis
      using True by (cases rule: reader_move.cases) (simp_all add: to_ack_simps to_ack_Handling idle_region [OF ok])
  qed (use True in simp_all)
qed

text \<open>What is in a reader's hand is what the code makes of the message at some reading of the clock.\<close>

fun reader_ok :: "'r StreamIngestor \<Rightarrow> nat \<Rightarrow> reader_pc \<Rightarrow> bool" where
  "reader_ok si j (Handling m ms pr) \<longleftrightarrow> (\<exists>sc. pr = message_prepared si sc (region_name si j) m)"
| "reader_ok si j (Discarding m ms) \<longleftrightarrow> (\<exists>sc. undeliverable si sc (region_name si j) m)"
| "reader_ok si j pc \<longleftrightarrow> True"

text \<open>A message is concluded for a reason: its own event was taken, or it can never be delivered.\<close>

fun reason_ok :: "'r StreamIngestor \<Rightarrow> clabel \<Rightarrow> bool" where
  "reason_ok si (Client (Region j) m (Accept p)) \<longleftrightarrow>
     (\<exists>m' sc u data. m = Some m' \<and> message_prepared si sc (region_name si j) m' = Some (Prepared u data) \<and>
        p = \<lparr>p_Source = region_name si j, p_Data = data\<rparr>)"
| "reason_ok si (Drop j m) \<longleftrightarrow> (\<exists>sc. undeliverable si sc (region_name si j) m)"
| "reason_ok si l \<longleftrightarrow> True"

lemma undeliverable_when:
  "Some (Untranslatable err) = message_prepared si sc r m \<Longrightarrow> undeliverable si sc r m"
  "None = message_prepared si sc r m \<Longrightarrow> undeliverable si sc r m"
  "Some Unmarshalable = message_prepared si sc r m \<Longrightarrow> undeliverable si sc r m"
  by (auto simp: undeliverable_def split: option.split prepared.split)

lemma reader_step:
  assumes "cstep fe reg si reqs w l w'" and "\<And>j. reader_ok si j (k_reader w j)"
  shows "reason_ok si l \<and> reader_ok si j (k_reader w' j)"
  using assms(1)
proof (cases rule: cstep.cases)
  case submitting
  then show ?thesis
  proof (cases rule: submit_move.cases)
    case (sending c p parked d)
    show ?thesis
    proof (cases c)
      case (Region j')
      with sending obtain m ms u data where r: "k_reader w j' = Handling m ms (Some (Prepared u data))"
          "p = \<lparr>p_Source = region_name si j', p_Data = data\<rparr>"
        by (auto simp: wanted.simps split: reader_pc.splits option.splits prepared.splits)
      with assms(2) [of j'] obtain sc where "message_prepared si sc (region_name si j') m = Some (Prepared u data)"
        by auto
      with r sending Region assms(2) show ?thesis by auto
    qed (use sending assms(2) in auto)
  next
    case (refusing c p d)
    with assms(2) show ?thesis by (cases c) auto
  next
    case (gauging c p d)
    with assms(2) show ?thesis by (cases c) auto
  qed
next
  case requesting
  then show ?thesis using assms(2) by (cases rule: request_move.cases) auto
next
  case consuming
  then show ?thesis
  proof (cases rule: reader_move.cases)
    case (no_data j' m ms)
    with assms(2) [of j'] assms(2) [of j] show ?thesis by (auto dest: undeliverable_when)
  next
    case (bad_event j' m ms x)
    with assms(2) [of j'] assms(2) [of j] show ?thesis by (auto dest: undeliverable_when)
  next
    case (untranslated j' m ms err)
    with assms(2) [of j'] assms(2) [of j] show ?thesis by (auto dest: undeliverable_when)
  next
    case (discarded j' m ms d)
    with assms(2) [of j'] assms(2) [of j] show ?thesis by auto
  qed (use assms(2) in auto)
qed (use assms(2) in auto)

lemma reader_run:
  assumes "cruns fe reg si reqs w tr w'" and "conc_ok reg si reqs w" and "\<And>j. reader_ok si j (k_reader w j)"
  shows "to_ack w j @ concluded j tr = acked j tr @ to_ack w' j \<and> list_all (reason_ok si) tr \<and>
    (\<forall>j. reader_ok si j (k_reader w' j))"
  using assms
proof (induction rule: cruns.induct)
  case (cruns_snoc tr w' l w'')
  then have IH: "to_ack w j @ concluded j tr = acked j tr @ to_ack w' j" "list_all (reason_ok si) tr"
      "\<And>j. reader_ok si j (k_reader w' j)" by auto
  have "conc_ok reg si reqs w'" using cruns_druns [OF cruns_snoc.hyps(1)] cruns_snoc.prems by blast
  note step = to_ack_step [OF cruns_snoc.hyps(2) this, of j] and kept = reader_step [OF cruns_snoc.hyps(2) IH(3)]
  have "to_ack w j @ concluded j (tr @ [l]) = (acked j tr @ to_ack w' j) @ concluded1 j l"
    unfolding IH(1) [symmetric] by simp
  also have "\<dots> = acked j (tr @ [l]) @ to_ack w'' j" using step by simp
  finally show ?case using IH(2) kept by simp
qed simp

lemma conc_init_reader: "reader_ok si j (k_reader (conc_init si d r) j)" "to_ack (conc_init si d r) j = []"
  by (simp_all add: conc_init_def to_ack_def)

end
