(* ===== verification/Handler_runs.thy ===== *)
theory Handler_runs
  imports Concurrent
begin

text \<open>
  The handlers of \<^verbatim>\<open>internal/ingestor\<close> and \<^verbatim>\<open>internal/streamingestor\<close>, taken as
  one step each, are runs of the fine-grained machine in which one client moves alone: this is what
  ties the machine to the definitions \<open>handleIngest\<close> and \<open>handleMessage\<close>, which follow the code
  line by line.
\<close>

section \<open>Runs of one client\<close>

text \<open>Runs of one client, and that they compose.\<close>

lemma cruns_append:
  "cruns fe reg si reqs w' tr' w'' \<Longrightarrow> cruns fe reg si reqs w tr w' \<Longrightarrow> cruns fe reg si reqs w (tr @ tr') w''"
proof (induction rule: cruns.induct)
  case (cruns_snoc tr' w1 l w2)
  then show ?case using cruns.cruns_snoc [of fe reg si reqs w "tr @ tr'" w1 l w2] by simp
qed simp

lemma cruns_one: "cstep fe reg si reqs w l w' \<Longrightarrow> cruns fe reg si reqs w [l] w'"
  using cruns_snoc [OF cruns_nil] by fastforce

lemma cruns_two:
  "cstep fe reg si reqs w l w' \<Longrightarrow> cruns fe reg si reqs w' tr w'' \<Longrightarrow> cruns fe reg si reqs w (l # tr) w''"
  using cruns_append [OF _ cruns_one] by fastforce

lemma count_and_reply_Ret:
  assumes "count_and_reply f code b w = (Ret (Inr resp), w1)"
  obtains d where "counted f (w_disp w) d" and "resp = \<lparr>rs_status = code, rs_body = b\<rparr>" and "w1 = w\<lparr>w_disp := d\<rparr>"
  using assms by (auto simp: count_and_reply_def counted_def reply_def split: prod.splits call.splits)

text \<open>\<^verbatim>\<open>Submit\<close> of a client is its send, refused or followed by the observation.\<close>

lemma submit_refined:
  assumes "wanted si reqs w c = Some p" and "k_stage w c = Idle" and "parked_ok parked (k_disp w)"
    and "Submit parked p (k_disp w) = (Ret b, d)"
  shows "\<exists>ls. cruns fe reg si reqs w (map (Client c (topic w c)) ls)
    (w\<lparr>k_disp := d, k_stage := (k_stage w)(c := if b then Gauged p else Turned_away p)\<rparr>)"
proof (rule Submit_cases [of "k_disp w" parked p])
  fix m
  assume "Submit parked p (k_disp w) = (Panic m, k_disp w)"
  with assms(4) show ?thesis by simp
next
  assume a: "Submit parked p (k_disp w) = (Ret False, k_disp w)" "submit_send None p (k_disp w) = (Ret False, k_disp w)"
  from cruns_one [OF refusing_step [OF assms(1,2) a(2)], where fe = fe and reg = reg] show ?thesis
    using a(1) assms(4) by (intro exI [of _ "[Refuse p]"]) simp
next
  fix d1
  assume a: "submit_send parked p (k_disp w) = (Ret True, d1)"
    "Submit parked p (k_disp w) = (Ret True, snd (submit_observe d1))"
  let ?w1 = "w\<lparr>k_disp := d1, k_stage := (k_stage w)(c := Sent p)\<rparr>"
  have "topic ?w1 c = topic w c" by (cases c) simp_all
  then have "cstep fe reg si reqs ?w1 (Client c (topic w c) Tau)
      (w\<lparr>k_disp := snd (submit_observe d1), k_stage := (k_stage w)(c := Gauged p)\<rparr>)"
    using gauging_step [of ?w1 c p "snd (submit_observe d1)" fe reg si reqs] by (simp add: submit_observe_eq)
  from cruns_two [OF sending_step [OF assms(1,2,3) a(1)] cruns_one [OF this]] show ?thesis
    using a(2) assms(4) by (intro exI [of _ "[Accept p, Tau]"]) simp
qed

text \<open>What a run of request \<open>k\<close> alone leaves as it was.\<close>

definition alone :: "nat \<Rightarrow> clabel list \<Rightarrow> bool" where
  "alone k tr \<longleftrightarrow> list_all (own1 k) tr"

lemma enqueue_refined:
  assumes "enqueue parked source i data v = (Ret (Inr resp), v1)" and "w_disp v = k_disp w"
    and "g_phase (k_ing w) k = Over (Prepared i data)" and "k_answer w k = None" and "k_stage w (Http k) = Idle"
    and "source = q_source (reqs k)" and "parked_ok parked (k_disp w)"
  shows "\<exists>tr w'. cruns fe reg si reqs w tr w' \<and> alone k tr \<and> k_answer w' k = Some resp \<and>
    k_disp w' = w_disp v1 \<and> k_ing w' = k_ing w \<and> w_pool v1 = w_pool v"
proof -
  let ?p = "\<lparr>p_Source = source, p_Data = data\<rparr>"
  note q = assms(1)
  have wanted: "wanted si reqs w (Http k) = Some ?p" using assms by (simp add: wanted.simps)
  obtain b d where sub: "Submit parked ?p (k_disp w) = (Ret b, d)"
    using q assms(2) by (auto simp: enqueue_def split: prod.splits call.splits)
  let ?w1 = "w\<lparr>k_disp := d, k_stage := (k_stage w)(Http k := if b then Gauged ?p else Turned_away ?p)\<rparr>"
  obtain ls where front: "cruns fe reg si reqs w (map (Client (Http k) None) ls) ?w1"
    using submit_refined [OF wanted assms(5,7) sub, of fe reg] by auto
  have "\<exists>d'. cstep fe reg si reqs ?w1 (Answer k resp) (answered k (rs_status resp) (rs_body resp) (?w1\<lparr>k_disp := d'\<rparr>)) \<and>
      v1 = v\<lparr>w_disp := d'\<rparr>"
  proof (cases b)
    case True
    with q sub assms(2) obtain d' where d: "counted (RecordEventIngested source) d d'"
        "resp = \<lparr>rs_status = StatusAccepted, rs_body = accepted_body i\<rparr>" "v1 = v\<lparr>w_disp := d'\<rparr>"
      by (auto simp: enqueue_def elim: count_and_reply_Ret)
    have "cstep fe reg si reqs ?w1 (Answer k resp) (answered k StatusAccepted (accepted_body i) (?w1\<lparr>k_disp := d'\<rparr>))"
      unfolding d(2) by (rule taken_in_step [of _ k ?p]) (use d assms True in simp_all)
    with d show ?thesis by auto
  next
    case False
    let ?b = "error_body ''buffer full, retry later''"
    from False q sub assms(2) obtain d' where d: "counted (RecordEventRejected source ''buffer_full'') d d'"
        "resp = \<lparr>rs_status = StatusTooManyRequests, rs_body = ?b\<rparr>" "v1 = v\<lparr>w_disp := d'\<rparr>"
      by (auto simp: enqueue_def elim: count_and_reply_Ret)
    have "cstep fe reg si reqs ?w1 (Answer k resp) (answered k StatusTooManyRequests ?b (?w1\<lparr>k_disp := d'\<rparr>))"
      unfolding d(2) by (rule sent_back_step [of _ k ?p]) (use d False in simp_all)
    with d show ?thesis by auto
  qed
  then obtain d' where tail: "cstep fe reg si reqs ?w1 (Answer k resp)
      (answered k (rs_status resp) (rs_body resp) (?w1\<lparr>k_disp := d'\<rparr>))" "v1 = v\<lparr>w_disp := d'\<rparr>" by blast
  note run = cruns_append [OF cruns_one [OF tail(1)] front]
  show ?thesis by (rule exI, rule exI, rule conjI, rule run) (simp add: alone_def tail(2) list_all_iff)
qed

lemma answer_refined:
  assumes "answer fe parked source pr v = (Ret (Inr resp), v1)" and "w_disp v = k_disp w"
    and "g_phase (k_ing w) k = Over pr" and "k_answer w k = None" and "k_stage w (Http k) = Idle"
    and "source = q_source (reqs k)" and "parked_ok parked (k_disp w)"
  shows "\<exists>tr w'. cruns fe reg si reqs w tr w' \<and> alone k tr \<and> k_answer w' k = Some resp \<and>
    k_disp w' = w_disp v1 \<and> k_ing w' = k_ing w \<and> w_pool v1 = w_pool v"
proof (cases pr)
  case (Untranslatable err)
  with assms(1) obtain d where d: "counted (RecordEventRejected source ''translation_error'') (w_disp v) d"
      "resp = \<lparr>rs_status = StatusUnprocessableEntity, rs_body = error_body (render fe (err_text err))\<rparr>" "v1 = v\<lparr>w_disp := d\<rparr>"
    by (auto simp: answer_def elim: count_and_reply_Ret)
  have "cstep fe reg si reqs w (Answer k resp)
      (answered k StatusUnprocessableEntity (error_body (render fe (err_text err))) (w\<lparr>k_disp := d\<rparr>))"
    unfolding d(2) by (rule untranslatable_step [of w k err reqs d]) (use assms Untranslatable d in simp_all)
  note run = cruns_one [OF this]
  show ?thesis by (rule exI, rule exI, rule conjI, rule run) (simp add: alone_def d)
next
  case (No_id m)
  with assms(1) show ?thesis by (simp add: answer_def)
next
  case Unmarshalable
  then have r: "resp = \<lparr>rs_status = StatusInternalServerError, rs_body = error_body ''internal serialisation error''\<rparr>" "v1 = v"
    using assms(1) by (simp_all add: answer_def reply_def)
  have "cstep fe reg si reqs w (Answer k resp)
      (answered k StatusInternalServerError (error_body ''internal serialisation error'') w)"
    unfolding r(1) by (rule unmarshalable_step [of w k]) (use assms Unmarshalable in simp_all)
  note run = cruns_one [OF this]
  show ?thesis by (rule exI, rule exI, rule conjI, rule run) (simp add: alone_def r assms(2))
next
  case (Prepared i data)
  with assms show ?thesis by (intro enqueue_refined) (simp_all add: answer_def)
qed

text \<open>The stretch with the buffer: from the request's bytes to what is prepared.\<close>

definition own_request :: "chance \<Rightarrow> http_request \<Rightarrow> ingest_request" where
  "own_request orc rq = \<lparr>q_source = request_source rq, q_raw = rq_body rq, q_time = or_time orc, q_uuid = or_uuid orc\<rparr>"

definition buffer_used :: "chance \<Rightarrow> http_request \<Rightarrow> pool_mem \<Rightarrow> nat \<times> pool_mem" where
  "buffer_used orc rq m =
     (let (ob, m1) = pool_Get (or_take orc) m in (ob, append_data (or_grow orc) ob (rq_body rq) m1))"

lemma handleIngest_unfold:
  assumes "rq_body rq \<noteq> []" and "buffer_used orc rq (w_pool v) = (ob, m)"
    and "pr = prepare reg (or_time orc) (or_uuid orc) (request_source rq) (pool_data ob m)"
  shows "handleIngest fe reg orc rq v =
    answer fe (or_parked orc) (request_source rq) pr
      (v\<lparr>w_pool := (case pr of No_id x \<Rightarrow> m | _ \<Rightarrow> pool_Put ob m)\<rparr>)"
  using assms
  by (auto simp: handleIngest_def buffer_used_def Let_def prepare_def answer_def request_source_def
      split: prod.splits sum.split call.split)

lemma marshalled_prepare:
  assumes "Translate reg tm source raw = Inr e" and "event_id uuid e = Ret i"
  shows "prepare reg tm uuid source raw = marshalled (e\<lparr>ID := i\<rparr>)"
  using assms by (simp add: prepare_def marshalled_def split: sum.split)

lemma buffering_steps:
  fixes g :: ingesting
  assumes "g_phase g k = Waiting" and "reqs k = own_request orc rq"
    and "buffer_used orc rq (g_mem g) = (ob, m)"
    and "pr = prepare reg (or_time orc) (or_uuid orc) (request_source rq) (pool_data ob m)"
    and "\<forall>x. pr \<noteq> No_id x"
  obtains n where "n \<le> 5"
    and "\<And>i. i < n \<Longrightarrow> phase_no (g_phase (foldl (ingest_step reg reqs) g (replicate i (Advance k (or_take orc) (or_grow orc)))) k) < 5"
    and "foldl (ingest_step reg reqs) g (replicate n (Advance k (or_take orc) (or_grow orc))) =
      enter k (Over pr) (g\<lparr>g_mem := pool_Put ob m\<rparr>)"
proof -
  let ?a = "Advance k (or_take orc) (or_grow orc)"
  obtain m1 where get: "pool_Get (or_take orc) (g_mem g) = (ob, m1)" "m = append_data (or_grow orc) ob (rq_body rq) m1"
    using assms(3) by (auto simp: buffer_used_def split: prod.splits)
  let ?g1 = "enter k (Taken ob) (g\<lparr>g_mem := m1\<rparr>)"
  let ?g2 = "enter k (Filled ob) (g\<lparr>g_mem := m\<rparr>)"
  let ?g3 = "enter k (translated reg (reqs k) ob (pool_data ob m)) (g\<lparr>g_mem := m\<rparr>)"
  have s1: "ingest_step reg reqs g ?a = ?g1" using assms(1) get by (simp add: ingest_step.simps)
  have s2: "ingest_step reg reqs ?g1 ?a = ?g2"
    using get assms(2) by (simp add: ingest_step.simps enter_def own_request_def)
  have s3: "ingest_step reg reqs ?g2 ?a = ?g3" by (simp add: ingest_step.simps enter_def)
  show ?thesis
  proof (cases "Translate reg (or_time orc) (request_source rq) (pool_data ob m)")
    case (Inl err)
    then have pr: "pr = Untranslatable err" using assms(4) by (simp add: prepare_def)
    have g3: "?g3 = enter k (Marshalled ob pr) (g\<lparr>g_mem := m\<rparr>)"
      using Inl assms(2) pr by (simp add: translated_def own_request_def)
    have s4: "ingest_step reg reqs ?g3 ?a = enter k (Over pr) (g\<lparr>g_mem := pool_Put ob m\<rparr>)"
      unfolding g3 by (simp add: ingest_step.simps enter_def)
    show ?thesis
      by (rule that [of 4])
        (use assms(1) s1 s2 s3 s4 g3 in \<open>auto simp: numeral_eq_Suc less_Suc_eq enter_def\<close>)
  next
    case (Inr e)
    obtain i where i: "event_id (or_uuid orc) e = Ret i"
      using assms(4,5) Inr by (cases "event_id (or_uuid orc) e") (auto simp: prepare_def)
    note pr = marshalled_prepare [OF Inr i, folded assms(4)]
    let ?e = "e\<lparr>ID := i\<rparr>"
    have g3: "?g3 = enter k (Translated ob ?e (Body e = Some (pool_data ob m))) (g\<lparr>g_mem := m\<rparr>)"
      using Inr i assms(2) by (simp add: translated_def own_request_def)
    have same: "e\<lparr>ID := i, Body := Some (pool_data ob m)\<rparr> = ?e" if "Body e = Some (pool_data ob m)"
      using that by (cases e) simp
    let ?g4 = "enter k (Marshalled ob pr) (g\<lparr>g_mem := m\<rparr>)"
    have s4: "ingest_step reg reqs ?g3 ?a = ?g4"
      unfolding g3 using pr
      by (cases "Body e = Some (pool_data ob m)") (simp_all add: ingest_step.simps enter_def same)
    have s5: "ingest_step reg reqs ?g4 ?a = enter k (Over pr) (g\<lparr>g_mem := pool_Put ob m\<rparr>)"
      by (simp add: ingest_step.simps enter_def)
    show ?thesis
      by (rule that [of 5])
        (use assms(1) s1 s2 s3 s4 s5 g3 in \<open>auto simp: numeral_eq_Suc less_Suc_eq enter_def\<close>)
  qed
qed

lemma buffering_run:
  assumes "q_raw (reqs k) \<noteq> []" and "k_answer w k = None"
    and "\<And>i. i < n \<Longrightarrow> phase_no (g_phase (foldl (ingest_step reg reqs) (k_ing w) (replicate i (Advance k c r))) k) < 5"
  shows "cruns fe reg si reqs w (replicate n (Client (Http k) None Tau))
    (w\<lparr>k_ing := foldl (ingest_step reg reqs) (k_ing w) (replicate n (Advance k c r))\<rparr>)"
  using assms(3)
proof (induction n)
  case (Suc n)
  let ?g = "\<lambda>n. foldl (ingest_step reg reqs) (k_ing w) (replicate n (Advance k c r))"
  have g: "?g (Suc n) = ingest_step reg reqs (?g n) (Advance k c r)"
    by (simp del: replicate.simps add: replicate_Suc replicate_append_same [symmetric])
  have "cstep fe reg si reqs (w\<lparr>k_ing := ?g n\<rparr>) (Client (Http k) None Tau) (w\<lparr>k_ing := ?g (Suc n)\<rparr>)"
    using buffering_step [of reqs k "w\<lparr>k_ing := ?g n\<rparr>" fe reg si c r] assms(1,2) Suc.prems [of n] unfolding g by simp
  from cruns_snoc [OF Suc.IH this] Suc.prems show ?case
    by (simp del: replicate.simps add: replicate_Suc replicate_append_same [symmetric])
qed (simp add: cruns_nil)

lemma request_run:
  assumes "reqs k = own_request orc rq" and "g_phase (k_ing w) k = Waiting" and "k_answer w k = None"
    and "k_stage w (Http k) = Idle" and "parked_ok (or_parked orc) (k_disp w)"
    and "handleIngest fe reg orc rq \<lparr>w_disp = k_disp w, w_pool = g_mem (k_ing w)\<rparr> = (Ret (Inr resp), v)"
  shows "\<exists>tr w'. cruns fe reg si reqs w tr w' \<and> list_all (own1 k) tr \<and> k_answer w' k = Some resp \<and>
    k_disp w' = w_disp v \<and> g_mem (k_ing w') = w_pool v"
proof (cases "rq_body rq = []")
  case True
  let ?b = "error_body ''request body is required''"
  have r: "resp = \<lparr>rs_status = StatusBadRequest, rs_body = ?b\<rparr>" "v = \<lparr>w_disp = k_disp w, w_pool = g_mem (k_ing w)\<rparr>"
    using assms(6) True by (simp_all add: handleIngest_def reply_def)
  have "cstep fe reg si reqs w (Answer k resp) (answered k StatusBadRequest ?b w)"
    unfolding r(1) by (rule without_body_step [of reqs k]) (use assms True in \<open>simp_all add: own_request_def\<close>)
  note run = cruns_one [OF this]
  show ?thesis by (rule exI, rule exI, rule conjI, rule run) (simp add: r)
next
  case False
  let ?v = "\<lparr>w_disp = k_disp w, w_pool = g_mem (k_ing w)\<rparr>"
  obtain ob m where used: "buffer_used orc rq (g_mem (k_ing w)) = (ob, m)" by fastforce
  define pr where "pr = prepare reg (or_time orc) (or_uuid orc) (request_source rq) (pool_data ob m)"
  note h = handleIngest_unfold [OF False, where v = ?v, simplified, OF used pr_def, of fe]
  have ok: "\<forall>x. pr \<noteq> No_id x" using assms(6) unfolding h by (auto simp: answer_def)
  from h ok have h: "handleIngest fe reg orc rq ?v = answer fe (or_parked orc) (request_source rq) pr (?v\<lparr>w_pool := pool_Put ob m\<rparr>)"
    by (cases pr) auto
  let ?w = "w\<lparr>k_ing := enter k (Over pr) (k_ing w\<lparr>g_mem := pool_Put ob m\<rparr>)\<rparr>"
  obtain n where n: "\<And>i. i < n \<Longrightarrow> phase_no (g_phase (foldl (ingest_step reg reqs) (k_ing w)
        (replicate i (Advance k (or_take orc) (or_grow orc)))) k) < 5"
      "foldl (ingest_step reg reqs) (k_ing w) (replicate n (Advance k (or_take orc) (or_grow orc))) =
        enter k (Over pr) (k_ing w\<lparr>g_mem := pool_Put ob m\<rparr>)"
    using buffering_steps [where reqs = reqs and reg = reg, OF assms(2,1) used pr_def ok] by blast
  have "q_raw (reqs k) \<noteq> []" using assms(1) False by (simp add: own_request_def)
  from buffering_run [of reqs k w n, OF this assms(3) n(1)]
  have front: "cruns fe reg si reqs w (replicate n (Client (Http k) None Tau)) ?w" unfolding n(2) by simp
  have "\<exists>tr w'. cruns fe reg si reqs ?w tr w' \<and> alone k tr \<and> k_answer w' k = Some resp \<and>
      k_disp w' = w_disp v \<and> k_ing w' = k_ing ?w \<and> w_pool v = w_pool (?v\<lparr>w_pool := pool_Put ob m\<rparr>)"
    by (rule answer_refined [OF assms(6) [unfolded h]])
      (use assms in \<open>simp_all add: enter_def own_request_def\<close>)
  then obtain tr w' where tail: "cruns fe reg si reqs ?w tr w'" "alone k tr" "k_answer w' k = Some resp"
      "k_disp w' = w_disp v" "k_ing w' = k_ing ?w" "w_pool v = pool_Put ob m" by auto
  show ?thesis
    by (rule exI, rule exI, rule conjI, rule cruns_append [OF tail(1) front])
      (use tail in \<open>auto simp: alone_def enter_def list_all_iff\<close>)
qed

text \<open>The same of a reader: handling a message is a run of its own steps, to the next message.\<close>

lemma count_then_Ret:
  assumes "count_then f g w = (Ret (), w1)"
  obtains d where "counted f (s_disp w) d" and "w1 = g (w\<lparr>s_disp := d\<rparr>)"
  using assms by (auto simp: count_then_def counted_def split: prod.splits call.splits)

lemma acked_run:
  "cruns fe reg si reqs (reader_at j (Acking m ms) u) [Ack j m]
     (reader_at j (Next ms) (u\<lparr>k_redis := snd (XAck (si_client si) (streamKey si (region_name si j))
        (ConsumerGroup (si_cfg si)) (msg_ID m) (k_redis u))\<rparr>))"
  using cruns_one [OF acking_step [of "reader_at j (Acking m ms) u" j m ms fe reg si reqs]] by simp

text \<open>Where a run of a reader's own has to arrive.\<close>

definition reader_arrives ::
  "fmt_env \<Rightarrow> Registry \<Rightarrow> 'r StreamIngestor \<Rightarrow> (nat \<Rightarrow> ingest_request) \<Rightarrow> nat \<Rightarrow> XMessage list \<Rightarrow>
   ('z, 'r) conc \<Rightarrow> ('z, 'r) stream_world \<Rightarrow> bool" where
  "reader_arrives fe reg si reqs j ms w v \<longleftrightarrow>
     (\<exists>tr w'. cruns fe reg si reqs w tr w' \<and> list_all (\<lambda>l. reader_of l = Some j) tr \<and>
        k_reader w' j = Next ms \<and> k_disp w' = s_disp v \<and> k_redis w' = s_redis v \<and> k_ing w' = k_ing w \<and>
        k_answer w' = k_answer w)"

lemma reader_arrivesI:
  assumes "cruns fe reg si reqs w tr w'" and "list_all (\<lambda>l. reader_of l = Some j) tr" and "k_reader w' j = Next ms"
    and "v = \<lparr>s_disp = k_disp w', s_redis = k_redis w'\<rparr>" and "k_ing w' = k_ing w" and "k_answer w' = k_answer w"
  shows "reader_arrives fe reg si reqs j ms w v"
  unfolding reader_arrives_def using assms by (intro exI [of _ tr] exI [of _ w']) simp

lemma reader_arrives_step:
  assumes "cstep fe reg si reqs w l w1" and "reader_of l = Some j" and "k_ing w1 = k_ing w" and "k_answer w1 = k_answer w"
    and "reader_arrives fe reg si reqs j ms w1 v"
  shows "reader_arrives fe reg si reqs j ms w v"
proof -
  from assms(5) obtain tr w' where t: "cruns fe reg si reqs w1 tr w'" "list_all (\<lambda>l. reader_of l = Some j) tr"
      "k_reader w' j = Next ms \<and> k_disp w' = s_disp v \<and> k_redis w' = s_redis v \<and> k_ing w' = k_ing w1 \<and> k_answer w' = k_answer w1"
    unfolding reader_arrives_def by blast
  then show ?thesis
    unfolding reader_arrives_def using cruns_two [OF assms(1) t(1)] assms(2-4)
    by (intro exI [of _ "l # tr"] exI [of _ w']) simp
qed

lemma acking_arrives:
  "reader_arrives fe reg si reqs j ms (reader_at j (Acking m ms) u)
     (ack si (streamKey si (region_name si j)) (msg_ID m) \<lparr>s_disp = k_disp u, s_redis = k_redis u\<rparr>)"
  by (rule reader_arrivesI, rule acked_run) (simp_all add: ack_def)

lemma submission_arrives:
  fixes w :: "('z, 'r) conc"
  assumes "k_reader w j = Handling m ms (Some (Prepared u data))" and "k_stage w (Region j) = Idle"
    and "parked_ok parked (k_disp w)"
    and "submit_message si parked (streamKey si (region_name si j)) (region_name si j) (msg_ID m) data
      \<lparr>s_disp = k_disp w, s_redis = k_redis w\<rparr> = (Ret (), v)"
  shows "reader_arrives fe reg si reqs j ms w v"
proof -
  let ?r = "region_name si j" and ?p = "\<lparr>p_Source = region_name si j, p_Data = data\<rparr>"
  have wanted: "wanted si reqs w (Region j) = Some ?p" using assms(1) by (simp add: wanted.simps)
  obtain b d where sub: "Submit parked ?p (k_disp w) = (Ret b, d)"
    using assms(4) by (auto simp: submit_message_def split: prod.splits call.splits)
  let ?w1 = "w\<lparr>k_disp := d, k_stage := (k_stage w)(Region j := if b then Gauged ?p else Turned_away ?p)\<rparr>"
  obtain ls where front: "cruns fe reg si reqs w (map (Client (Region j) (Some m)) ls) ?w1"
    using submit_refined [OF wanted assms(2,3) sub, of fe reg] assms(1) by auto
  have "reader_arrives fe reg si reqs j ms ?w1 v"
  proof (cases b)
    case True
    from assms(4) sub True obtain d' where d: "counted (RecordEventIngested ?r) d d'"
        "v = ack si (streamKey si ?r) (msg_ID m) \<lparr>s_disp = d', s_redis = k_redis w\<rparr>"
      by (auto simp: submit_message_def elim: count_then_Ret)
    have "cstep fe reg si reqs ?w1 (Client (Region j) (Some m) Tau) (reader_at j (Acking m ms) (?w1\<lparr>k_disp := d'\<rparr>))"
      by (rule queued_step [of _ j ?p m ms]) (use d True assms(1) in simp_all)
    then show ?thesis
      by (rule reader_arrives_step) (use acking_arrives [where fe = fe and reg = reg and si = si and reqs = reqs and j = j and ms = ms and m = m and u = "?w1\<lparr>k_disp := d'\<rparr>"] d(2) in simp_all)
  next
    case False
    from assms(4) sub False obtain d' where d: "counted (RecordEventRejected ?r ''buffer_full'') d d'"
        "v = \<lparr>s_disp = d', s_redis = k_redis w\<rparr>"
      by (auto simp: submit_message_def elim: count_then_Ret)
    have "cstep fe reg si reqs ?w1 (Client (Region j) (Some m) Tau) (reader_at j (Next ms) (?w1\<lparr>k_disp := d'\<rparr>))"
      by (rule withheld_step [of _ j ?p m ms]) (use d False assms(1) in simp_all)
    note run = cruns_one [OF this]
    show ?thesis by (rule reader_arrivesI, rule run) (simp_all add: d(2))
  qed
  then obtain tr w' where t: "cruns fe reg si reqs ?w1 tr w'" "list_all (\<lambda>l. reader_of l = Some j) tr"
      "k_reader w' j = Next ms \<and> k_disp w' = s_disp v \<and> k_redis w' = s_redis v \<and> k_ing w' = k_ing w \<and> k_answer w' = k_answer w"
    unfolding reader_arrives_def by auto
  show ?thesis
    unfolding reader_arrives_def
    by (rule exI, rule exI, rule conjI, rule cruns_append [OF t(1) front]) (use t(2,3) in \<open>auto simp: list_all_iff\<close>)
qed

lemma message_refines:
  assumes "k_reader w j = Next (m # ms)" and "k_stage w (Region j) = Idle" and "parked_ok (sc_parked sc) (k_disp w)"
    and "handleMessage si sc (streamKey si (region_name si j)) (region_name si j) m
      \<lparr>s_disp = k_disp w, s_redis = k_redis w\<rparr> = (Ret (), v)"
  shows "reader_arrives fe reg si reqs j ms w v"
proof (rule reader_arrives_step [OF taking_step [OF assms(1), of fe reg si reqs sc]])
  let ?r = "region_name si j" and ?pr = "message_prepared si sc (region_name si j) m"
  let ?w1 = "reader_at j (Handling m ms ?pr) w"
  show "reader_arrives fe reg si reqs j ms ?w1 v"
  proof (cases "extractBytes (msg_Values m ''data'')")
    case None
    have "cstep fe reg si reqs ?w1 (Drop j m) (reader_at j (Acking m ms) (?w1\<lparr>k_disp := log_disp (no_data_log (msg_ID m)) (k_disp w)\<rparr>))"
      using no_data_step [of ?w1 j m ms] None by (simp add: message_prepared_def)
    then show ?thesis
      by (rule reader_arrives_step)
        (use assms(4) None acking_arrives [where fe = fe and reg = reg and si = si and reqs = reqs and j = j and ms = ms and m = m and u = "?w1\<lparr>k_disp := log_disp (no_data_log (msg_ID m)) (k_disp w)\<rparr>"]
         in \<open>simp_all add: handleMessage_def Let_def\<close>)
  next
    case raw: (Some raw)
    show ?thesis
    proof (cases "Translate (si_reg si) (sc_time sc) ?r raw")
      case (Inl err)
      define d1 where "d1 = log_disp (message_log ''translate'' (msg_ID m) err) (k_disp w)"
      from assms(4) raw Inl obtain d where d: "counted (RecordEventRejected ?r ''translation_error'') d1 d"
          "v = ack si (streamKey si ?r) (msg_ID m) \<lparr>s_disp = d, s_redis = k_redis w\<rparr>"
        by (auto simp: handleMessage_def Let_def d1_def elim: count_then_Ret)
      let ?w2 = "reader_at j (Discarding m ms) (?w1\<lparr>k_disp := d1\<rparr>)"
      have s2: "cstep fe reg si reqs ?w1 (Client (Region j) None Tau) ?w2"
        using untranslated_step [of ?w1 j m ms err] raw Inl by (simp add: d1_def message_prepared_def prepare_def)
      have s3: "cstep fe reg si reqs ?w2 (Drop j m) (reader_at j (Acking m ms) (?w2\<lparr>k_disp := d\<rparr>))"
        by (rule discarded_step) (use d in simp_all)
      have "reader_arrives fe reg si reqs j ms ?w2 v"
        by (rule reader_arrives_step [OF s3])
          (use acking_arrives [where fe = fe and reg = reg and si = si and reqs = reqs and j = j and ms = ms and m = m and u = "?w2\<lparr>k_disp := d\<rparr>"] d(2) in simp_all)
      then show ?thesis by (intro reader_arrives_step [OF s2]) simp_all
    next
      case event: (Inr e)
      obtain u where u: "event_id (sc_uuid sc) e = Ret u"
        using assms(4) raw event by (cases "event_id (sc_uuid sc) e") (auto simp: handleMessage_def Let_def)
      show ?thesis
      proof (cases "marshal_event (e\<lparr>ID := u\<rparr>)")
        case (Inl x)
        let ?u = "?w1\<lparr>k_disp := log_disp (message_log ''marshal'' (msg_ID m) (Lib_error x)) (k_disp w)\<rparr>"
        have "cstep fe reg si reqs ?w1 (Drop j m) (reader_at j (Acking m ms) ?u)"
          using bad_event_step [of ?w1 j m ms fe reg si reqs x] raw event u Inl by (simp add: message_prepared_def prepare_def)
        then show ?thesis
          by (rule reader_arrives_step)
            (use assms(4) raw event u Inl acking_arrives [where fe = fe and reg = reg and si = si and reqs = reqs and j = j and ms = ms and m = m and u = ?u]
             in \<open>simp_all add: handleMessage_def Let_def\<close>)
      next
        case (Inr data)
        then show ?thesis
          using assms(3,4) raw event u
          by (intro submission_arrives [of ?w1 j m ms u data])
            (simp_all add: handleMessage_def Let_def message_prepared_def prepare_def)
      qed
    qed
  qed
qed simp_all

end
