(* ===== verification/Interleaved.thy ===== *)
theory Interleaved
  imports Handler_runs
begin

text \<open>
  The properties of the fine-grained machine: the balance of payloads in every interleaving, what
  readers acknowledge, that no request waits, and that the handlers are runs of it; with a run in
  which a request is answered 202 and its event carried to the end.
\<close>

section \<open>The balance\<close>

text \<open>Only clients bring payloads in.\<close>

fun clients1 :: "clabel \<Rightarrow> client set" where
  "clients1 (Client c m l) = {c}"
| "clients1 l = {}"

abbreviation clients :: "clabel list \<Rightarrow> client set" where
  "clients tr \<equiv> \<Union> (set (map clients1 tr))"

lemma worker_accepts:
  assumes "worker_move fe io i d = Some (l, d')"
  shows "accepted1 l = []"
  using assms
proof (cases rule: worker_move_cases)
  case (step pc' s')
  then show ?thesis using worker_step_held by blast
qed simp_all

lemma inside_accepts: "cstep fe reg si reqs w (Inside l) w' \<Longrightarrow> accepted1 l = []"
  by (auto elim!: insideE wstepE submit_move.cases request_move.cases reader_move.cases dest: worker_accepts)

lemma accepted_by_clients:
  assumes "cruns fe reg si reqs w tr w'" and "finite C" and "clients tr \<subseteq> C"
  shows "mset (accepted (map lab tr)) = (\<Sum>c\<in>C. mset (sent c tr))"
  using assms(1,3)
proof (induction rule: cruns.induct)
  case (cruns_snoc tr w' l w'')
  have "mset (accepted1 (lab l)) = (\<Sum>c\<in>C. mset (sent1 c l))"
  proof (cases l)
    case (Inside dl)
    then show ?thesis using inside_accepts cruns_snoc.hyps(2) by simp
  next
    case (Client c m dl)
    then have "c \<in> C" using cruns_snoc.prems by simp
    then show ?thesis using assms(2) Client
      by (cases dl) (simp_all add: if_distrib [of mset] sum.delta cong: if_cong)
  qed simp_all
  with cruns_snoc show ?case by (simp add: sum.distrib)
qed simp

lemma conc_init_run:
  assumes "dispatcher_New cfg chain bat q e = Ret d0" and "cruns fe reg si reqs (conc_init si d0 r) tr w"
  shows "druns fe d0 (map lab tr) (k_disp w)" and "conc_ok reg si reqs w"
    and "sent (Http k) tr = request_sent reg reqs w k"
    and "concluded j tr = acked j tr @ to_ack w j" and "list_all (reason_ok si) tr"
proof -
  have "observers d0 = 0" using assms(1) by (auto simp: dispatcher_New_def split: call.splits)
  note ok = conc_init_ok [OF this, of reg si reqs r]
  from cruns_druns [OF assms(2) ok] show "druns fe d0 (map lab tr) (k_disp w)" "conc_ok reg si reqs w"
    by (simp_all add: conc_init_def)
  have "request_sent reg reqs (conc_init si d0 r) k = []" by (simp add: conc_init_def request_sent_def)
  with request_sent_run [OF assms(2) ok, of k] show "sent (Http k) tr = request_sent reg reqs w k" by simp
  from reader_run [OF assms(2) ok conc_init_reader(1), of j]
  show "concluded j tr = acked j tr @ to_ack w j" "list_all (reason_ok si) tr"
    by (simp_all add: conc_init_reader(2))
qed

lemma balance_at_end:
  assumes "dispatcher_New cfg (deployed_chain rl) bat q e = Ret d0" and "1 \<le> Workers cfg"
    and "metric dlqEnqueued e = Some n" and "cruns fe reg si reqs (conc_init si d0 r) tr w"
    and "shutdown_returns (k_disp w)"
  shows "(\<Sum>c\<in>clients tr. mset (sent c tr)) = mset (batched (map lab tr)) + mset (dead (map lab tr)) \<and>
    metric dlqEnqueued (penv (sh (k_disp w))) = Some (n + length (dead (map lab tr))) \<and>
    (\<forall>k resp. k_answer w k = Some resp \<longrightarrow>
       sent (Http k) tr = (if rs_status resp = 202 then event_of reg (reqs k) else []))"
proof -
  note run = conc_init_run [OF assms(1,4)]
  have "finite (clients tr)"
  proof -
    have "finite (clients1 l)" for l by (cases l) auto
    then show ?thesis by simp
  qed
  from accepted_by_clients [OF assms(4) this] drained [OF assms(1) run(1) assms(5,2)]
  have "(\<Sum>c\<in>clients tr. mset (sent c tr)) = mset (batched (map lab tr)) + mset (dead (map lab tr))" by simp
  moreover have "metric dlqEnqueued (penv (sh (k_disp w))) = Some (n + length (dead (map lab tr)))"
    using drained_counter [OF assms(1,3) run(1) assms(5)] .
  moreover have "sent (Http k) tr = (if rs_status resp = 202 then event_of reg (reqs k) else [])"
    if "k_answer w k = Some resp" for k resp
    using run(3) [of k] that by (simp add: request_sent_def)
  ultimately show ?thesis by blast
qed

text \<open>
  C2: the balance at the finest grain. However requests, readers, workers and the garbage collector
  interleave at their shared accesses, once Shutdown has returned the payloads all clients together
  got into the dispatcher are, each exactly once, those batched and those dead-lettered, and the
  counter of dead letters has grown by the latter; and every request knows its share: one that was
  answered 202 has brought in exactly the event made of its own bytes, one that was answered
  anything else has brought in nothing.
\<close>

theorem concurrent_balance:
  assumes "dispatcher_New cfg (deployed_chain rl) bat q e = Ret d0" and "1 \<le> Workers cfg"
    and "metric dlqEnqueued e = Some n" and "cruns fe reg si reqs (conc_init si d0 r) tr w"
    and "shutdown_returns (k_disp w)"
  shows "(\<Sum>c\<in>clients tr. mset (sent c tr)) = mset (batched (map lab tr)) + mset (dead (map lab tr)) \<and>
    metric dlqEnqueued (penv (sh (k_disp w))) = Some (n + length (dead (map lab tr))) \<and>
    (\<forall>k resp. k_answer w k = Some resp \<longrightarrow>
       sent (Http k) tr = (if rs_status resp = 202 then event_of reg (reqs k) else []))"
  using assms by (rule balance_at_end)

text \<open>
  C4: what the readers acknowledge, at the finest grain: in every interleaving a reader has
  acknowledged, in the order it handled them, each once, exactly the messages that are concluded,
  but for at most one whose turn it is; and a message is concluded only when the dispatcher has
  taken the event made of its own data, or when no event can be made of it.
\<close>

theorem readers_settle:
  assumes "dispatcher_New cfg chain bat q e = Ret d0" and "cruns fe reg si reqs (conc_init si d0 r) tr w"
  shows "(\<exists>rest. concluded j tr = acked j tr @ rest \<and> length rest \<le> 1 \<and>
       (k_reader w j \<in> {Starting, Polling, Ended} \<longrightarrow> rest = [])) \<and>
    (\<forall>l \<in> set tr. reason_ok si l)"
proof -
  note run = conc_init_run [OF assms]
  have "length (to_ack w j) \<le> 1 \<and> (k_reader w j \<in> {Starting, Polling, Ended} \<longrightarrow> to_ack w j = [])"
    by (auto simp: to_ack_def split: reader_pc.split)
  with run(4) [of j] run(5) show ?thesis by (auto simp: list_all_iff)
qed

section \<open>No request waits\<close>

text \<open>When a request ends in a panic of its goroutine, which ends the process.\<close>

definition panics :: "(nat \<Rightarrow> ingest_request) \<Rightarrow> ('z, 'r) conc \<Rightarrow> nat \<Rightarrow> bool" where
  "panics reqs w k \<longleftrightarrow>
     (case k_stage w (Http k) of
        Sent p \<Rightarrow> False
      | Gauged p \<Rightarrow> refuses (k_disp w) [p_Source p]
      | Turned_away p \<Rightarrow> refuses (k_disp w) [p_Source p, ''buffer_full'']
      | Idle \<Rightarrow>
          (case g_phase (k_ing w) k of
             Over (No_id m) \<Rightarrow> True
           | Over (Untranslatable err) \<Rightarrow> refuses (k_disp w) [q_source (reqs k), ''translation_error'']
           | Over (Prepared i data) \<Rightarrow> chan_closed (buf (k_disp w))
           | _ \<Rightarrow> False))"

definition own_steps :: "nat \<Rightarrow> clabel list \<Rightarrow> nat" where
  "own_steps k tr = length (filter (own1 k) tr)"

text \<open>How far a request has come.\<close>

definition request_rank :: "('z, 'r) conc \<Rightarrow> nat \<Rightarrow> nat" where
  "request_rank w k =
     (if k_answer w k \<noteq> None then 8
      else case k_stage w (Http k) of
          Idle \<Rightarrow> phase_no (g_phase (k_ing w) k) | Sent p \<Rightarrow> 6 | Gauged p \<Rightarrow> 7 | Turned_away p \<Rightarrow> 7)"

lemma counted_ex:
  assumes "counts_only f (penv (sh d)) refused" and "\<not> refused"
  shows "\<exists>d'. counted f d d'"
  using assms by (auto simp: counts_only_def counted_def on_disp_eq returns_iff)

lemma phase_no_le: "phase_no ph \<le> 5"
  by (cases ph) auto

lemma phase_no_5: "phase_no ph < 5 \<longleftrightarrow> (\<forall>r. ph \<noteq> Over r)"
  by (cases ph) auto

lemma send_or_refuse:
  assumes "\<not> chan_closed (buf d)"
  shows "(\<exists>d'. submit_send None p d = (Ret True, d')) \<or> (\<exists>d'. submit_send None p d = (Ret False, d'))"
  using assms by (simp add: submit_send_def try_send_def)

text \<open>What a request that is not yet inside \<^verbatim>\<open>Submit\<close> can do when its event is prepared, or refused.\<close>

lemma over_can_step:
  assumes none: "k_answer w k = None" and Idle: "k_stage w (Http k) = Idle" and r: "g_phase (k_ing w) k = Over r"
    and safe: "\<not> panics reqs w k"
  shows "\<exists>l w'. own1 k l \<and> cstep fe reg si reqs w l w'"
proof -
  have move: ?thesis if "cstep fe reg si reqs w l w'" "own1 k l" for l w'
    using that by blast
  show ?thesis
  proof (cases r)
    case (Untranslatable err)
    then have "\<not> refuses (k_disp w) [q_source (reqs k), ''translation_error'']"
      using safe Idle r by (simp add: panics_def)
    from counted_ex [OF counts_only_calls(1) this] obtain d where
        d: "counted (RecordEventRejected (q_source (reqs k)) ''translation_error'') (k_disp w) d" by blast
    show ?thesis
      by (rule move, rule untranslatable_step [of w k err reqs d, OF r [unfolded Untranslatable] none d], rule refl) simp
  next
    case (No_id m)
    then show ?thesis using safe Idle r by (simp add: panics_def)
  next
    case Unmarshalable
    show ?thesis by (rule move, rule unmarshalable_step [OF r [unfolded Unmarshalable] none], rule refl) simp
  next
    case (Prepared i data)
    let ?p = "\<lparr>p_Source = q_source (reqs k), p_Data = data\<rparr>"
    have w: "wanted si reqs w (Http k) = Some ?p" using r Prepared none by (simp add: wanted.simps)
    have "\<not> chan_closed (buf (k_disp w))" using safe Idle r Prepared by (simp add: panics_def)
    from send_or_refuse [OF this, of ?p] show ?thesis
    proof (elim disjE exE)
      fix d
      assume "submit_send None ?p (k_disp w) = (Ret True, d)"
      from move [OF sending_step [OF w Idle _ this]] show ?thesis by (simp add: parked_ok_def)
    next
      fix d
      assume "submit_send None ?p (k_disp w) = (Ret False, d)"
      from move [OF refusing_step [OF w Idle this]] show ?thesis by simp
    qed
  qed
qed

lemma request_can_step:
  assumes ok: "conc_ok reg si reqs w" and none: "k_answer w k = None" and safe: "\<not> panics reqs w k"
  shows "\<exists>l w'. own1 k l \<and> cstep fe reg si reqs w l w'"
proof -
  have move: ?thesis if "cstep fe reg si reqs w l w'" "own1 k l" for l w'
    using that by blast
  show ?thesis
  proof (cases "k_stage w (Http k)")
    case Idle
    consider (empty) "q_raw (reqs k) = []"
      | (unprepared) "q_raw (reqs k) \<noteq> []" "phase_no (g_phase (k_ing w) k) < 5"
      | (over) r where "g_phase (k_ing w) k = Over r"
      by (auto simp: phase_no_5)
    then show ?thesis
    proof cases
      case empty
      show ?thesis by (rule move, rule without_body_step [of reqs k w, OF empty none], rule refl) simp
    next
      case unprepared
      from move [OF buffering_step [of reqs k w, OF unprepared(1) none unprepared(2)]] show ?thesis by simp
    next
      case over
      then show ?thesis by (rule over_can_step [OF none Idle _ safe])
    qed
  next
    case (Sent p)
    have "submit_observe (k_disp w) = (Ret (), snd (submit_observe (k_disp w)))" by (simp add: submit_observe_eq)
    from move [OF gauging_step [OF Sent this]] show ?thesis by simp
  next
    case (Gauged p)
    then have "wanted si reqs w (Http k) = Some p" using ok by (simp add: conc_ok_def)
    then obtain i data where ph: "g_phase (k_ing w) k = Over (Prepared i data)"
      by (auto simp: wanted.simps split: option.splits phase.splits prepared.splits)
    have "\<not> refuses (k_disp w) [p_Source p]" using safe Gauged by (simp add: panics_def)
    from counted_ex [OF counts_only_calls(2) this] obtain d where
        d: "counted (RecordEventIngested (p_Source p)) (k_disp w) d" by blast
    from move [OF taken_in_step [OF Gauged ph d]] show ?thesis by simp
  next
    case (Turned_away p)
    then have "\<not> refuses (k_disp w) [p_Source p, ''buffer_full'']" using safe by (simp add: panics_def)
    from counted_ex [OF counts_only_calls(1) this] obtain d where
        d: "counted (RecordEventRejected (p_Source p) ''buffer_full'') (k_disp w) d" by blast
    show ?thesis by (rule move, rule sent_back_step [OF Turned_away d], rule refl) simp
  qed
qed

lemma phase_grows: "phase_no (g_phase g k) \<le> phase_no (g_phase (ingest_step reg reqs g a) k)"
  using ingest_step_progress [of g k a reg reqs] phase_no_le [of "g_phase g k"] by linarith

lemma other_request:
  assumes "cstep fe reg si reqs w l w'" and "\<not> own1 k l"
  shows "k_answer w' k = k_answer w k \<and> k_stage w' (Http k) = k_stage w (Http k) \<and>
    phase_no (g_phase (k_ing w) k) \<le> phase_no (g_phase (k_ing w') k)"
  using assms by (auto elim!: cstep.cases submit_move.cases request_move.cases reader_move.cases simp: phase_grows)

lemma rank_simps:
  "k_answer w k = Some resp \<Longrightarrow> request_rank w k = 8"
  "k_answer w k = None \<Longrightarrow> k_stage w (Http k) = Idle \<Longrightarrow> request_rank w k = phase_no (g_phase (k_ing w) k)"
  "k_answer w k = None \<Longrightarrow> k_stage w (Http k) = Sent p \<Longrightarrow> request_rank w k = 6"
  "k_answer w k = None \<Longrightarrow> k_stage w (Http k) = Gauged p \<Longrightarrow> request_rank w k = 7"
  "k_answer w k = None \<Longrightarrow> k_stage w (Http k) = Turned_away p \<Longrightarrow> request_rank w k = 7"
  by (simp_all add: request_rank_def)

lemma wanted_request: "wanted si reqs w (Http k) = Some p \<Longrightarrow> k_answer w k = None"
  by (auto simp: wanted.simps split: option.splits)

lemma rank_step:
  assumes "cstep fe reg si reqs w l w'" and ok: "conc_ok reg si reqs w"
  shows "request_rank w k + (if own1 k l then 1 else 0) \<le> request_rank w' k"
proof (cases "own1 k l")
  case False
  with other_request [OF assms(1) False] show ?thesis by (auto simp: request_rank_def split: stage.split)
next
  case True
  have le: "request_rank w k \<le> 7" if "k_answer w k = None"
    using that phase_no_le [of "g_phase (k_ing w) k"] by (simp add: request_rank_def split: stage.split)
  have in_hand: "k_answer w k = None" if "k_stage w (Http k) \<in> {Sent p, Gauged p, Turned_away p}" for p
    using in_hand_event(1) [OF ok, of k p] that by auto
  from assms(1) show ?thesis
  proof (cases rule: cstep.cases)
    case submitting
    then show ?thesis
    proof (cases rule: submit_move.cases)
      case (gauging c p d)
      with True in_hand [of p] show ?thesis by (auto simp: rank_simps)
    qed (use True wanted_request [of si reqs w k] phase_no_le [of "g_phase (k_ing w) k"] in \<open>auto simp: rank_simps\<close>)
  next
    case requesting
    then show ?thesis
    proof (cases rule: request_move.cases)
      case (buffering k' choice grow)
      with True have k: "k' = k" "phase_no (g_phase (k_ing w) k) < 5" by auto
      then have "wanted si reqs w (Http k) = None" by (auto simp: wanted.simps split: option.split phase.split)
      from idle_stage [OF ok this] have i: "k_stage w (Http k) = Idle" .
      have "phase_no (g_phase (k_ing w) k) < phase_no (g_phase (k_ing w') k)"
        using ingest_step_progress [of "k_ing w" k "Advance k choice grow" reg reqs] k buffering(2)
        by (simp add: advances_def)
      with True i k buffering show ?thesis by (simp add: rank_simps)
    qed (use True le in_hand in \<open>auto simp: rank_simps\<close>)
  next
    case consuming
    then show ?thesis using True by (cases rule: reader_move.cases) simp_all
  qed (use True in simp_all)
qed

lemma rank_run:
  assumes "cruns fe reg si reqs w tr w'" and "conc_ok reg si reqs w"
  shows "request_rank w k + own_steps k tr \<le> request_rank w' k"
  using assms
proof (induction rule: cruns.induct)
  case (cruns_snoc tr w' l w'')
  then have "conc_ok reg si reqs w'" using cruns_druns by blast
  from rank_step [OF cruns_snoc.hyps(2) this, of k] cruns_snoc.IH [OF cruns_snoc.prems] show ?case
    by (simp add: own_steps_def split: if_splits)
qed (simp add: own_steps_def)

lemma rank_le: "request_rank w k \<le> 8"
  using phase_no_le [of "g_phase (k_ing w) k"] by (simp add: request_rank_def split: stage.split)

text \<open>
  C5: no request waits for anybody: in every interleaving a request makes at most eight steps of its
  own, and as long as it is not answered its next step is possible whatever the others do, whether
  the buffer is full, the workers are busy or the batcher is stuck, unless that step is a panic,
  which ends the process.
\<close>

theorem requests_never_wait:
  assumes "dispatcher_New cfg chain bat q e = Ret d0" and "cruns fe reg si reqs (conc_init si d0 r) tr w"
  shows "own_steps k tr \<le> 8 \<and>
    (k_answer w k \<noteq> None \<or> panics reqs w k \<or> (\<exists>l w'. own1 k l \<and> cstep fe reg si reqs w l w'))"
proof -
  have "observers d0 = 0" using assms(1) by (auto simp: dispatcher_New_def split: call.splits)
  from rank_run [OF assms(2) conc_init_ok [OF this], of k] rank_le [of w k] have "own_steps k tr \<le> 8" by linarith
  moreover note request_can_step [OF conc_init_run(2) [OF assms], of k]
  ultimately show ?thesis by blast
qed

section \<open>The handlers as runs\<close>

text \<open>
  C6: the handler taken as one step is a run of the fine-grained machine: when \<open>handleIngest\<close> answers
  a request, the same request left alone in the middle of any state of the others can make steps of
  its own that give it the same answer and leave dispatcher and pool as the handler leaves them.
\<close>

theorem request_refines:
  assumes "reqs k = own_request orc rq" and "g_phase (k_ing w) k = Waiting" and "k_answer w k = None"
    and "k_stage w (Http k) = Idle" and "parked_ok (or_parked orc) (k_disp w)"
    and "handleIngest fe reg orc rq \<lparr>w_disp = k_disp w, w_pool = g_mem (k_ing w)\<rparr> = (Ret (Inr resp), v)"
  shows "\<exists>tr w'. cruns fe reg si reqs w tr w' \<and> list_all (own1 k) tr \<and> k_answer w' k = Some resp \<and>
    k_disp w' = w_disp v \<and> g_mem (k_ing w') = w_pool v"
  using assms by (rule request_run)

text \<open>
  C7: so is the handling of a stream message: when \<open>handleMessage\<close> returns, the reader that has this
  message next, left alone in the middle of any state of the others, can make steps of its own to
  the message after it, which leave the dispatcher and the Redis server as the handler leaves them.
\<close>

theorem message_is_a_run:
  assumes "k_reader w j = Next (m # ms)" and "k_stage w (Region j) = Idle" and "parked_ok (sc_parked sc) (k_disp w)"
    and "handleMessage si sc (streamKey si (region_name si j)) (region_name si j) m
      \<lparr>s_disp = k_disp w, s_redis = k_redis w\<rparr> = (Ret (), v)"
  shows "\<exists>tr w'. cruns fe reg si reqs w tr w' \<and> list_all (\<lambda>l. reader_of l = Some j) tr \<and>
    k_reader w' j = Next ms \<and> k_disp w' = s_disp v \<and> k_redis w' = s_redis v \<and> k_ing w' = k_ing w \<and>
    k_answer w' = k_answer w"
  using message_refines [OF assms] by (simp add: reader_arrives_def)

section \<open>To the end\<close>

text \<open>From every state reached, the channel can be closed and the workers can drain it.\<close>

lemma closed_drains:
  assumes "workers_ok (k_disp w)" and "chan_closed (buf (k_disp w))"
  shows "\<exists>tr w'. cruns fe reg si reqs w tr w' \<and> shutdown_returns (k_disp w') \<and> k_answer w' = k_answer w"
  using assms
proof (induction "backlog (k_disp w)" arbitrary: w rule: less_induct)
  case less
  show ?case
  proof (cases "wg (k_disp w) = 0")
    case True
    then show ?thesis using less.prems cruns_nil by (fastforce simp: shutdown_returns_def)
  next
    case False
    then obtain l d where s: "wstep fe (k_disp w) l d" using worker_can_move less.prems by blast
    let ?w = "w\<lparr>k_disp := d\<rparr>"
    have "workers_ok d" "chan_closed (buf d)"
      using dstep_workers_ok [OF work [OF s]] dstep_static [OF work [OF s]] less.prems by auto
    then obtain tr w' where t: "cruns fe reg si reqs ?w tr w'" "shutdown_returns (k_disp w')" "k_answer w' = k_answer ?w"
      using less.hyps [of ?w] wstep_backlog [OF s] by auto
    from cruns_two [OF working [where w = w, OF s] t(1)] t(2,3) show ?thesis by auto
  qed
qed

lemma can_shut_down:
  assumes "dispatcher_New cfg chain bat q e = Ret d0" and "cruns fe reg si reqs (conc_init si d0 r) tr w"
  shows "\<exists>tr' w'. cruns fe reg si reqs (conc_init si d0 r) (tr @ tr') w' \<and> shutdown_returns (k_disp w') \<and>
    k_answer w' = k_answer w"
proof -
  have ok: "workers_ok (k_disp w)"
    using druns_workers_ok [OF conc_init_run(1) [OF assms]] New_fresh [OF assms(1)] by (simp add: fresh_def)
  obtain tr1 w1 where one: "cruns fe reg si reqs w tr1 w1" "workers_ok (k_disp w1)" "chan_closed (buf (k_disp w1))" "k_answer w1 = k_answer w"
  proof (cases "chan_closed (buf (k_disp w))")
    case True
    with ok show ?thesis using that cruns_nil by blast
  next
    case False
    define d where "d = snd (shutdown_close (k_disp w))"
    have c: "shutdown_close (k_disp w) = (Ret (), d)" "chan_closed (buf d)"
      using False by (simp_all add: d_def shutdown_close_def close_chan_def)
    have "workers_ok d" using dstep_workers_ok [OF shut [OF c(1)]] ok by simp
    with that [OF cruns_one [OF closing [OF c(1)]]] c(2) show ?thesis by simp
  qed
  from closed_drains [OF one(2,3)] obtain tr2 w2 where two: "cruns fe reg si reqs w1 tr2 w2"
      "shutdown_returns (k_disp w2)" "k_answer w2 = k_answer w1" by blast
  from cruns_append [OF cruns_append [OF two(1) one(1)] assms(2)] two(2,3) one(4) show ?thesis by auto
qed

section \<open>Runs\<close>

text \<open>
  A deployed dispatcher with one worker, one region whose stream holds a message without data, and
  requests of which each carries a payload that the registry has a translator for.
\<close>

abbreviation demo_reqs :: "nat \<Rightarrow> ingest_request" where
  "demo_reqs \<equiv> (\<lambda>k. own_request demo_chance demo_request)"

abbreviation demo_conc :: "(unit rl_env_ext, XMessage list \<times> bytes set) conc" where
  "demo_conc \<equiv> conc_init demo_ingestor (w_disp demo_gateway) ([demo_message ''1''], {})"

lemma demo_new:
  "dispatcher_New demo_cfg (deployed_chain demo_limits) demo_batcher demo_queue demo_full_env = Ret (w_disp demo_gateway)"
  by (simp add: dispatcher_New_def make_chan_def chan_fits_def payload_bytes_def)

lemma demo_handled:
  "\<exists>resp v. handleIngest demo_fmt demo_registry demo_chance demo_request \<lparr>w_disp = w_disp demo_gateway, w_pool = pool_init\<rparr> =
     (Ret (Inr resp), v) \<and> rs_status resp = 202"
proof -
  let ?v = "\<lparr>w_disp = w_disp demo_gateway, w_pool = pool_init\<rparr>"
  obtain data where d: "prepare demo_registry demo_reading (Ret ''u'') (request_source demo_request) ''x'' = Prepared ''7'' data"
    using demo_prepared by blast
  have "pool_ok (w_pool ?v) {}" "rq_body demo_request \<noteq> []" using pool_ok_init by simp_all
  from handleIngest_prepares [OF this, of demo_fmt demo_registry demo_chance] obtain m where
      h: "handleIngest demo_fmt demo_registry demo_chance demo_request ?v =
        answer demo_fmt None (request_source demo_request) (Prepared ''7'' data) (?v\<lparr>w_pool := m\<rparr>)"
    using d by auto
  from answer_outcome [of None "request_source demo_request" "Prepared ''7'' data" "?v\<lparr>w_pool := m\<rparr>" demo_fmt]
  obtain b where "fst (handleIngest demo_fmt demo_registry demo_chance demo_request ?v) = Ret (Inr \<lparr>rs_status = 202, rs_body = b\<rparr>)"
    unfolding h by (auto simp: ingest_crash_def ingest_status_def has_room_def refuses_def new_provider_def)
  then show ?thesis by (metis http_response.select_convs(1) surjective_pairing)
qed

lemma demo_fresh:
  "demo_reqs k = own_request demo_chance demo_request" "g_phase (k_ing demo_conc) k = Waiting"
  "k_answer demo_conc k = None" "k_stage demo_conc (Http k) = Idle"
  "parked_ok (or_parked demo_chance) (k_disp demo_conc)"
  "k_disp demo_conc = w_disp demo_gateway" "g_mem (k_ing demo_conc) = pool_init"
  by (simp_all add: conc_init_def ingesting_init_def parked_ok_def)

lemma demo_answered:
  "\<exists>tr w resp. cruns demo_fmt demo_registry demo_ingestor demo_reqs demo_conc tr w \<and>
     k_answer w 0 = Some resp \<and> rs_status resp = 202"
proof -
  from demo_handled obtain resp v where h: "handleIngest demo_fmt demo_registry demo_chance demo_request
      \<lparr>w_disp = k_disp demo_conc, w_pool = g_mem (k_ing demo_conc)\<rparr> = (Ret (Inr resp), v)" "rs_status resp = 202"
    unfolding demo_fresh(6,7) by blast
  from request_run [where reqs = demo_reqs and k = 0, OF demo_fresh(1-5) h(1)] h(2) show ?thesis by blast
qed

text \<open>The run goes on to the end: the worker settles the event, the channel is closed and drained.\<close>

lemma demo_complete:
  "\<exists>tr w resp. cruns demo_fmt demo_registry demo_ingestor demo_reqs demo_conc tr w \<and>
     shutdown_returns (k_disp w) \<and> k_answer w 0 = Some resp \<and> rs_status resp = 202"
proof -
  from demo_answered obtain tr w resp where r: "cruns demo_fmt demo_registry demo_ingestor demo_reqs demo_conc tr w"
      "k_answer w 0 = Some resp" "rs_status resp = 202" by blast
  from can_shut_down [OF demo_new r(1)] obtain tr' w' where
      "cruns demo_fmt demo_registry demo_ingestor demo_reqs demo_conc (tr @ tr') w'" "shutdown_returns (k_disp w')"
      "k_answer w' = k_answer w" by blast
  with r(2,3) show ?thesis by (intro exI [of _ "tr @ tr'"] exI [of _ w'] exI [of _ resp]) simp
qed

theorem concurrent_balance_witness:
  "\<exists>tr (w :: (unit rl_env_ext, XMessage list \<times> bytes set) conc).
     (\<Sum>c\<in>clients tr. mset (sent c tr)) = mset (batched (map lab tr)) + mset (dead (map lab tr)) \<and>
     shutdown_returns (k_disp w) \<and> sent (Http 0) tr = event_of demo_registry (own_request demo_chance demo_request) \<and>
     length (sent (Http 0) tr) = 1"
proof -
  from demo_complete obtain tr w resp where r: "cruns demo_fmt demo_registry demo_ingestor demo_reqs demo_conc tr w"
      "shutdown_returns (k_disp w)" "k_answer w 0 = Some resp" "rs_status resp = 202" by blast
  have "metric dlqEnqueued demo_full_env = Some 0" by (simp add: metric_def new_provider_def)
  from concurrent_balance [OF demo_new _ this r(1,2)] r(3,4)
  have b: "(\<Sum>c\<in>clients tr. mset (sent c tr)) = mset (batched (map lab tr)) + mset (dead (map lab tr))"
      "sent (Http 0) tr = event_of demo_registry (own_request demo_chance demo_request)" by auto
  have "length (event_of demo_registry (own_request demo_chance demo_request)) = 1"
    using demo_prepared by (auto simp: event_of_def request_result_def own_request_def)
  with b r(2) show ?thesis by metis
qed

theorem requests_never_wait_witness:
  "\<exists>l w'. own1 0 l \<and> cstep demo_fmt demo_registry demo_ingestor demo_reqs demo_conc l w'"
proof -
  have "\<not> panics demo_reqs demo_conc 0" by (simp add: panics_def conc_init_def ingesting_init_def)
  with requests_never_wait [where fe = demo_fmt and reg = demo_registry and si = demo_ingestor and reqs = demo_reqs and k = 0,
      OF demo_new cruns_nil, of "([demo_message ''1''], {})"]
    demo_fresh(3) [of 0] show ?thesis by blast
qed

theorem request_refines_witness:
  "\<exists>tr w' resp. cruns demo_fmt demo_registry demo_ingestor demo_reqs demo_conc tr w' \<and> k_answer w' 3 = Some resp \<and>
     rs_status resp = 202"
proof -
  from demo_handled obtain resp v where h: "handleIngest demo_fmt demo_registry demo_chance demo_request
      \<lparr>w_disp = k_disp demo_conc, w_pool = g_mem (k_ing demo_conc)\<rparr> = (Ret (Inr resp), v)" "rs_status resp = 202"
    unfolding demo_fresh(6,7) by blast
  from request_refines [where reqs = demo_reqs and k = 3, OF demo_fresh(1-5) h(1)] h(2) show ?thesis by blast
qed

theorem message_is_a_run_witness:
  "\<exists>tr (w' :: (unit rl_env_ext, XMessage list \<times> bytes set) conc).
     cruns demo_fmt demo_registry demo_ingestor demo_reqs (demo_conc\<lparr>k_reader := (\<lambda>_. Next [demo_message ''1''])\<rparr>) tr w' \<and>
     k_reader w' 0 = Next []"
proof -
  let ?w = "demo_conc\<lparr>k_reader := (\<lambda>_. Next [demo_message ''1''])\<rparr>"
  obtain v where "handleMessage demo_ingestor demo_stream_chance (streamKey demo_ingestor (region_name demo_ingestor 0))
      (region_name demo_ingestor 0) (demo_message ''1'') \<lparr>s_disp = k_disp ?w, s_redis = k_redis ?w\<rparr> = (Ret (), v)"
    by (simp add: handleMessage_def Let_def)
  from message_is_a_run [OF _ _ _ this, of "[]" demo_fmt demo_registry demo_reqs] show ?thesis
    using demo_fresh(5) by (auto simp: conc_init_def parked_ok_def)
qed

text \<open>The reader of the region takes the message without data, logs it and acknowledges it.\<close>

abbreviation demo_reader_trace :: "clabel list" where
  "demo_reader_trace \<equiv> [Client (Region 0) None Tau, Client (Region 0) None Tau, Client (Region 0) None Tau,
     Drop 0 (demo_message ''1''), Ack 0 (demo_message ''1'')]"

lemma demo_reader_run: "\<exists>w. cruns demo_fmt demo_registry demo_ingestor demo_reqs demo_conc demo_reader_trace w"
proof -
  let ?m = "demo_message ''1''" and ?step = "cstep demo_fmt demo_registry demo_ingestor demo_reqs"
  have "k_reader demo_conc 0 = Starting" by (simp add: conc_init_def)
  from starting_step [OF this, where fe = demo_fmt and reg = demo_registry and reqs = demo_reqs]
  obtain d1 where s1: "?step demo_conc (Client (Region 0) None Tau) (reader_at 0 Polling (demo_conc\<lparr>k_disp := d1\<rparr>))"
    by blast
  let ?w1 = "reader_at 0 Polling (demo_conc\<lparr>k_disp := d1\<rparr>)"
  have "read_region demo_ingestor (region_name demo_ingestor 0) (k_redis ?w1) = (Inr [?m], ([], {''1''}))"
    by (simp add: conc_init_def read_region_def XReadGroup_def read_request_def)
  from reading_step [of ?w1 0, OF _ this, of demo_fmt demo_registry demo_reqs]
  have s2: "?step ?w1 (Client (Region 0) None Tau) (reader_at 0 (Next [?m]) (?w1\<lparr>k_redis := ([], {''1''})\<rparr>))" by simp
  let ?w2 = "reader_at 0 (Next [?m]) (?w1\<lparr>k_redis := ([], {''1''})\<rparr>)"
  let ?w3 = "reader_at 0 (Handling ?m [] (message_prepared demo_ingestor demo_stream_chance (region_name demo_ingestor 0) ?m)) ?w2"
  have s3: "?step ?w2 (Client (Region 0) None Tau) ?w3" by (rule taking_step) simp
  have "k_reader ?w3 0 = Handling ?m [] None" by (simp add: message_prepared_def)
  note s4 = no_data_step [OF this, where fe = demo_fmt and reg = demo_registry and si = demo_ingestor and reqs = demo_reqs]
  show ?thesis
    by (rule exI, rule cruns_two [OF s1 cruns_two [OF s2 cruns_two [OF s3 cruns_two [OF s4 acked_run]]]])
qed

theorem readers_settle_witness:
  "\<exists>(w :: (unit rl_env_ext, XMessage list \<times> bytes set) conc) rest.
     cruns demo_fmt demo_registry demo_ingestor demo_reqs demo_conc demo_reader_trace w \<and>
     concluded 0 demo_reader_trace = acked 0 demo_reader_trace @ rest \<and> length rest \<le> 1 \<and>
     acked 0 demo_reader_trace = [demo_message ''1''] \<and> reason_ok demo_ingestor (Drop 0 (demo_message ''1''))"
proof -
  obtain w where w: "cruns demo_fmt demo_registry demo_ingestor demo_reqs demo_conc demo_reader_trace w"
    using demo_reader_run by blast
  from readers_settle [OF demo_new w, of 0] w show ?thesis by auto
qed

end
