(* ===== verification/Gen_jwt.thy ===== *)
theory Gen_jwt
  imports Auth
begin

text \<open>
  The script \<^verbatim>\<open>scripts/gen_jwt.go\<close>: it signs a token for manual tests and prints it. The
  signing function of the JWT library is a parameter. The lemma says that the guard accepts what
  the script prints, for a library whose parser gives back what its signer was given.
\<close>

definition gen_secret :: bytes where "gen_secret = ''manual-test-secret''"
definition gen_issuer :: bytes where "gen_issuer = ''xyllo''"
definition gen_ttl :: int where "gen_ttl = 24 * 3600"

text \<open>Times are Unix seconds; a number of the claims is kept by its JSON text.\<close>

definition gen_claims :: "int \<Rightarrow> int \<Rightarrow> bytes \<rightharpoonup> any" where
  "gen_claims issued now =
     [''sub'' \<mapsto> A_string ''test-client'', ''iss'' \<mapsto> A_string gen_issuer,
      ''iat'' \<mapsto> A_float (itoa issued), ''exp'' \<mapsto> A_float (itoa (now + gen_ttl))]"

type_synonym jwt_signer = "signing_method \<Rightarrow> jwt_claims \<Rightarrow> bytes \<Rightarrow> error + bytes"

text \<open>The line that is printed, or the panic with the error; the clock is read twice.\<close>

definition gen_jwt_main :: "jwt_signer \<Rightarrow> (error \<Rightarrow> bytes) \<Rightarrow> int \<Rightarrow> int \<Rightarrow> bytes call" where
  "gen_jwt_main sign text_of issued now =
     (case sign (SigningMethodHMAC ''HS256'') (MapClaims (gen_claims issued now)) gen_secret of
        Inl e \<Rightarrow> Panic (text_of e)
      | Inr s \<Rightarrow> Ret (s @ [CHR 0x0A]))"

text \<open>
  What the documentation promises of signing and parsing: a signed token is not empty, and parsed
  with a function that gives back its key it yields its method and claims as valid, as long as the
  claims hold.
\<close>

definition signer_documented ::
  "(jwt_option list \<Rightarrow> jwt_claims \<Rightarrow> bool) \<Rightarrow> jwt_signer \<Rightarrow> jwt_parser \<Rightarrow> bool" where
  "signer_documented claims_hold sign jwt_Parse \<longleftrightarrow>
     (\<forall>m c key s kf opts. sign m c key = Inr s \<longrightarrow>
        kf \<lparr>tk_Method = m, tk_Claims = c, tk_Valid = False\<rparr> = Inr key \<longrightarrow> claims_hold opts c \<longrightarrow>
        s \<noteq> [] \<and> jwt_Parse s kf opts = Inr \<lparr>tk_Method = m, tk_Claims = c, tk_Valid = True\<rparr>)"

lemma generated_token_accepted:
  assumes "signer_documented claims_hold sign jwt_Parse"
    and "gen_jwt_main sign text_of issued now = Ret (s @ [CHR 0x0A])"
    and "claims_hold [WithExpirationRequired, WithIssuedAt] (MapClaims (gen_claims issued now))"
    and "JWTSecret cfg = gen_secret" and "JWTIssuer cfg \<in> {[], gen_issuer}"
  shows "ValidateJWT jwt_Parse cfg s = None"
proof -
  let ?m = "SigningMethodHMAC ''HS256''"
  let ?c = "MapClaims (gen_claims issued now)"
  have "sign ?m ?c gen_secret = Inr s"
    using assms(2) by (auto simp: gen_jwt_main_def split: sum.splits)
  moreover have "hmac_only cfg \<lparr>tk_Method = ?m, tk_Claims = ?c, tk_Valid = False\<rparr> = Inr gen_secret"
    using assms(4) by (simp add: hmac_only_def)
  ultimately have "s \<noteq> []" and
      "jwt_Parse s (hmac_only cfg) [WithExpirationRequired, WithIssuedAt] =
        Inr \<lparr>tk_Method = ?m, tk_Claims = ?c, tk_Valid = True\<rparr>"
    using assms(1,3) unfolding signer_documented_def by blast+
  moreover have "check_issuer cfg \<lparr>tk_Method = ?m, tk_Claims = ?c, tk_Valid = True\<rparr> = None"
    using assms(5) unfolding check_issuer_None by (auto simp: gen_claims_def)
  ultimately show ?thesis unfolding ValidateJWT_None by auto
qed

end
