(* ===== verification/Spec2Isabelle.thy ===== *)
theory Spec2Isabelle
  imports Xlerr Metrics Config Middleware Ratelimit Limiter_steps Batcher Dlq Deadletters Chan Dispatcher Workers Aliasing
    Json Jsonvalue Schema Translator Pool Http Auth Intake Ingestor
    Redisstore Streamingestor Gateway Concurrent Handler_runs Interleaved Gen_jwt
begin

text \<open>
  Xyllo, a telemetry ingestion gateway written in Go.

  \<^bold>\<open>The program.\<close> Events come in over HTTP (\<^verbatim>\<open>internal/ingestor\<close>) or from Redis Streams, one reader per
  region (\<^verbatim>\<open>internal/streamingestor\<close> over \<^verbatim>\<open>internal/redisstore\<close>). An intake has the payload translated
  into a canonical event (\<^verbatim>\<open>internal/translator\<close>), marshals it and offers it to the dispatcher
  (\<^verbatim>\<open>internal/dispatcher\<close>) with \<^verbatim>\<open>Submit\<close>, which never blocks: when the buffered channel is full the
  client gets 429, and the message of a stream is not acknowledged. Worker goroutines take payloads
  from the channel, run them through the handlers of \<^verbatim>\<open>internal/middleware\<close> (the rate limiter and two
  validators), and add them to the batcher (\<^verbatim>\<open>internal/batcher\<close>) or, when a handler fails or panics, push
  them to the dead letter queue (\<^verbatim>\<open>internal/dlq\<close>). \<^verbatim>\<open>Shutdown\<close> closes the channel and waits for the
  workers to drain it. \<^verbatim>\<open>internal/auth\<close> guards the ingest route, \<^verbatim>\<open>internal/pool\<close> recycles request
  buffers, \<^verbatim>\<open>internal/metrics\<close> counts, \<^verbatim>\<open>internal/xlerr\<close> is the error type, \<^verbatim>\<open>config\<close> the configuration,
  \<^verbatim>\<open>scripts/gen_jwt.go\<close> makes tokens for manual tests. There is no main function in the repository
  besides that script; the composition is the one of the README and of the integration tests.

  \<^bold>\<open>Foundations.\<close> \<open>Prelude\<close>: Go values (strings and byte slices are lists of bytes, an \<^verbatim>\<open>int\<close> is an integer
  whose range is written out where the code can leave it), a call that returns or panics (\<open>call\<close>), and
  the \<^verbatim>\<open>named_theorems\<close> collections. \<open>Gofmt\<close>: error values and formatted texts; \<open>Utf8\<close>, \<open>Jsontext\<close>, \<open>Json\<close>,
  \<open>Jsonvalue\<close>, \<open>Float64\<close> and \<open>Duration\<close> are the parts of Go's standard library the program computes with:
  \<^verbatim>\<open>unicode/utf8\<close>, printing and parsing of \<^verbatim>\<open>encoding/json\<close>, base64, RFC 3339, IEEE 754 rounding on
  rationals, \<^verbatim>\<open>time.ParseDuration\<close>. \<open>Http\<close> is what the handlers see of Fiber.

  \<^bold>\<open>Theories and code.\<close> Definitions have the names of the code, with a suffix or prefix where a name is
  taken (\<open>dispatcher_New\<close>, \<open>xl_Wrap\<close>).
    \<^item> \<open>Xlerr\<close>: \<^verbatim>\<open>internal/xlerr/xlerr.go\<close>.
    \<^item> \<open>Metrics\<close>: \<^verbatim>\<open>metrics.go\<close> and \<^verbatim>\<open>prometheus.go\<close>. The variable \<^verbatim>\<open>active\<close>, the clock and the log are the
      record \<open>env\<close>, which every stage threads through. The locales \<open>metric_call\<close> and \<open>safe_metric_call\<close> say
      what a recording call may change; each of the seven calls interprets one of them.
    \<^item> \<open>Config\<close>: \<^verbatim>\<open>config/config.go\<close>, with the YAML method of the batcher section.
    \<^item> \<open>Middleware\<close>, \<open>Schema\<close>: \<^verbatim>\<open>middleware.go\<close>; \<open>Ratelimit\<close>: \<^verbatim>\<open>ratelimit.go\<close>, a request as one step;
      \<open>Limiter_steps\<close>: the same file statement by statement, with both kinds of mutex and the buckets in a
      store, for any number of callers. Both kinds of mutex interpret the locale \<open>mutex\<close>.
    \<^item> \<open>Batcher\<close>: \<^verbatim>\<open>batcher.go\<close> as critical sections, for one caller and interleaved.
    \<^item> \<open>Dlq\<close>: \<^verbatim>\<open>dlq.go\<close> with the JSON line of an entry; \<open>Deadletters\<close> reads the file back.
    \<^item> \<open>Chan\<close>: the buffered channel, which interprets the locale \<open>fifo\<close>, the contract of a bounded queue.
    \<^item> \<open>Dispatcher\<close>: \<^verbatim>\<open>dispatcher.go\<close>, what a worker does with one payload, as the method \<open>processOne\<close> and as
      a machine cut at every access to shared state (\<open>worker_step\<close>); \<open>Workers\<close>: \<^verbatim>\<open>New\<close>, \<^verbatim>\<open>process\<close>, \<^verbatim>\<open>Submit\<close>
      and \<^verbatim>\<open>Shutdown\<close> as interleaved steps (\<open>dstep\<close>). The locale \<open>quiet_chain\<close> is what the dispatcher's
      counting needs of the handlers of a chain. \<open>Aliasing\<close>: the same runs with the request memory
      behind the sources of payloads reused in between.
    \<^item> \<open>Translator\<close>: \<^verbatim>\<open>translator.go\<close>; the registry interprets the locale \<open>selection\<close>.
    \<^item> \<open>Pool\<close>: \<^verbatim>\<open>pool.go\<close> with objects, backing arrays and lengths, so that two owners of one array would see
      each other's bytes; it interprets the locale \<open>scratch_space\<close>, the contract of a borrower.
    \<^item> \<open>Auth\<close>: \<^verbatim>\<open>auth.go\<close>; \<open>Gen_jwt\<close>: the script.
    \<^item> \<open>Intake\<close>: what both intakes share, from the payload to the outcome of \<^verbatim>\<open>Submit\<close>. \<open>Ingestor\<close>:
      \<^verbatim>\<open>ingestor.go\<close>; \<open>Redisstore\<close> and \<open>Streamingestor\<close>: \<^verbatim>\<open>redisstore.go\<close> and \<^verbatim>\<open>streamingestor.go\<close>.
    \<^item> \<open>Gateway\<close>: the deployed chain, which interprets \<open>quiet_chain\<close>, and the program with each handler as one
      step. \<open>Concurrent\<close>: requests, readers, workers and the garbage collector interleaved at every access
      to shared state (\<open>submit_move\<close>, \<open>request_move\<close>, \<open>reader_move\<close>, \<open>cstep\<close>); \<open>Handler_runs\<close>: the handlers
      of the code are runs of that machine; \<open>Interleaved\<close>: its properties.

  \<^bold>\<open>What is shown.\<close>
    \<^item> Nothing is lost. In every interleaving each accepted payload is batched, dead-lettered, buffered or
      held by one worker, and when \<^verbatim>\<open>Shutdown\<close> returns it has been batched or dead-lettered, exactly once;
      an answer of 202 means that exactly the event of that request was accepted, any other answer that
      nothing was; the counter of dead letters agrees. A reader acknowledges a message exactly when its
      event was taken or can never be delivered. (\<open>Gateway\<close>, \<open>Interleaved\<close>, \<open>Workers\<close>, \<open>Ingestor\<close>,
      \<open>Streamingestor\<close>)
    \<^item> Nothing hangs. After the close the workers drain the channel in a bounded number of steps; no request
      waits for anybody; a caller of the limiter waits only for a holder that goes on. (\<open>Workers\<close>,
      \<open>Interleaved\<close>, \<open>Limiter_steps\<close>)
    \<^item> Panics of handlers are contained: no worker dies, and the payload is dead-lettered with its reason.
      (\<open>Dispatcher\<close>, \<open>Workers\<close>)
    \<^item> Memory: whatever \<^verbatim>\<open>sync.Pool\<close> hands out and in whatever order requests run, a request prepares what
      its own bytes give, even when the event's body lies in the shared buffer. (\<open>Pool\<close>, \<open>Ingestor\<close>)
    \<^item> The limiter is linearizable and keeps the rate, up to a stated floating-point error; what one
      request finds in its bucket, leaves there and is answered is given with the arithmetic written out.
      (\<open>Ratelimit\<close>, \<open>Limiter_steps\<close>)
    \<^item> Formats: which payloads \<^verbatim>\<open>Passthrough\<close> refuses, which events pass the validators, that dead letters
      are one line each and can be read back. (\<open>Translator\<close>, \<open>Schema\<close>, \<open>Dlq\<close>, \<open>Deadletters\<close>)
    \<^item> Who gets in, and which answer each outcome gets. (\<open>Auth\<close>, \<open>Ingestor\<close>) What a loaded configuration
      comes from and promises. (\<open>Config\<close>) When the readers are started. (\<open>Streamingestor\<close>)

  \<^bold>\<open>Code outside the repository\<close> is a parameter: the file system and the outcome of a write (\<open>io\<close>), the YAML
  decoder, the JWT parser and signer (\<open>jwt_documented\<close> and \<open>signer_documented\<close> are what their documentation
  promises), the Redis client and server (\<open>redis_ops\<close>, \<open>redis_documented\<close>), the Prometheus client (\<open>label_error\<close>
  of a provider, \<open>registry_documented\<close>), the readings of the clock, the identifiers of \<^verbatim>\<open>uuid\<close>, what
  \<^verbatim>\<open>sync.Pool\<close> hands out and how \<^verbatim>\<open>append\<close> grows, the texts of foreign errors and Unicode's printable runes
  (\<open>fmt_env\<close>). Handlers of a chain are any functions and may panic; registered translators are any
  functions that return an event or an error.

  \<^bold>\<open>Bounds.\<close> The JSON parser has the nesting limit of \<^verbatim>\<open>encoding/json\<close>, 10000, as its fuel: a text that
  nests deeper is refused by the code too, and its guards against a rest that does not shrink are proved
  never to be needed. The reading of float64 literals is the one of \<^verbatim>\<open>strconv\<close> for literals below
  10000 bytes, beyond which that package caps the exponent. The drain
  after the close is bounded by the backlog (\<open>wstep_backlog\<close>). A request makes at most eight steps of
  its own, a call of the limiter at most eleven. New arrays of the pool have the 4096 bytes of the code. The
  channel of the dispatcher is refused when it does not fit a 48-bit address space (\<open>chan_fits\<close>), as
  \<^verbatim>\<open>make\<close> refuses it; memory that runs out below that bound is not modelled. A
  reader's loop may run for ever: \<open>consumeRegion\<close> runs it on a list of rounds of the outside, \<open>reader_move\<close>
  step by step. Overflow of float64 to infinity is left out of \<open>Float64\<close>: the operands are far below.
  Each float64 operation is rounded by itself, as on amd64; Go allows a compiler to fuse a product and a
  sum, and does so on other architectures.

  \<^bold>\<open>Granularity.\<close> In \<open>Gateway\<close> a handler is one step; in \<open>Concurrent\<close> it is cut at every access to something
  shared, and \<open>request_refines\<close> ties the two. There, as in \<open>Workers\<close>, what a mutex protects is one step: a
  push to the dead letter queue, a critical section of the batcher, a call of the limiter; for the limiter
  \<open>Limiter_steps\<close> shows that this loses nothing. A panic outside of a worker ends the process: runs end there,
  and \<open>panics\<close>, \<open>ingest_outcome\<close> and \<open>message_settled\<close> say exactly when.

  \<^bold>\<open>Not modelled.\<close> Fiber, net/http, go-redis, the JWT, YAML and Prometheus libraries and the text of the
  metrics endpoint; log output beyond the list of printed messages; the difference between a nil and an
  empty byte slice; that a context stays cancelled (the model lets every check come out either way). How
  Fiber's router picks a route is its own. A translator registered from outside that panics or returns
  neither an event nor an error is left out. \<open>streamingestor_Start\<close> ends where the readers are started and
  gives their regions; their loops are \<open>consumeRegion\<close> and \<open>reader_move\<close>, and the wait for them to end is not
  a step.
  A string read from a request is a value here. Fiber's strings are views of a buffer that is reused
  after the handler returns unless the application is configured to copy, and the source of a payload
  outlives its handler, so what is proved of sources is proved of the code with immutable strings;
  \<open>Aliasing\<close> shows what holds without: events are conserved and the workers live, but a dead letter may
  carry another source.
  \<^verbatim>\<open>proto\<close>, \<^verbatim>\<open>deploy\<close> and the tests hold no logic of the program.
\<close>

section \<open>From a loaded configuration to the balance\<close>

text \<open>
  C3: the parts fit together. With any configuration \<^verbatim>\<open>Load\<close> returns, if only its buffer fits the
  address space, which \<^verbatim>\<open>validate\<close> does not check, the batcher and the dispatcher are constructed
  without a panic and an enabled rate limiter has usable limits; and in whatever way requests, readers
  and workers interleave from there on, the workers can be shut down from every state reached, and once they are, the payloads all clients got in are, each exactly once, those batched and
  those dead-lettered, with the counter of dead letters grown by the latter.
\<close>

theorem loaded_configuration_runs:
  assumes "Load read_file decode yaml_unmarshal getenv path = Inr cfg" and "metric dlqEnqueued e = Some n"
    and "chan_fits payload_bytes (BufferSize (Dispatcher cfg))"
  shows "\<exists>bat d0. batcher_New (Config.Batcher cfg) = Ret bat \<and>
    dispatcher_New (Dispatcher cfg) (deployed_chain (RateLimit cfg)) bat q e = Ret d0 \<and>
    (RL_Enabled (RateLimit cfg) \<longrightarrow> limits_ok (RateLimit cfg)) \<and>
    (\<forall>fe reg (si :: 'r StreamIngestor) reqs r tr w. cruns fe reg si reqs (conc_init si d0 r) tr w \<longrightarrow>
       (\<exists>tr' w'. cruns fe reg si reqs (conc_init si d0 r) (tr @ tr') w' \<and> shutdown_returns (k_disp w')) \<and>
       (shutdown_returns (k_disp w) \<longrightarrow>
          (\<Sum>c\<in>clients tr. mset (sent c tr)) = mset (batched (map lab tr)) + mset (dead (map lab tr)) \<and>
          metric dlqEnqueued (penv (sh (k_disp w))) = Some (n + length (dead (map lab tr)))))"
proof -
  have ok: "config_ok cfg" using Load_Inr [OF assms(1)] by blast
  then obtain bat where bat: "batcher_New (Config.Batcher cfg) = Ret bat" by (simp add: batcher_New_def config_ok_def)
  obtain d0 where d0: "dispatcher_New (Dispatcher cfg) (deployed_chain (RateLimit cfg)) bat q e = Ret d0"
    using assms(3) by (simp add: dispatcher_New_def make_chan_def)
  have w: "1 \<le> Workers (Dispatcher cfg)" and l: "RL_Enabled (RateLimit cfg) \<longrightarrow> limits_ok (RateLimit cfg)"
    using ok by (simp_all add: config_ok_def limits_ok_def)
  show ?thesis
  proof (rule exI [of _ bat], rule exI [of _ d0], intro conjI bat d0 l allI impI)
    fix fe reg and si :: "'r StreamIngestor" and reqs r tr w
    assume run: "cruns fe reg si reqs (conc_init si d0 r) tr w"
    from can_shut_down [OF d0 run]
    show "\<exists>tr' w'. cruns fe reg si reqs (conc_init si d0 r) (tr @ tr') w' \<and> shutdown_returns (k_disp w')" by blast
    assume "shutdown_returns (k_disp w)"
    note settled = balance_at_end [OF d0 w assms(2) run this]
    then show "(\<Sum>c\<in>clients tr. mset (sent c tr)) = mset (batched (map lab tr)) + mset (dead (map lab tr))"
      "metric dlqEnqueued (penv (sh (k_disp w))) = Some (n + length (dead (map lab tr)))" by simp_all
  qed
qed

text \<open>The built-in defaults, loaded without a file, with the environment of the examples.\<close>

theorem loaded_configuration_runs_witness:
  "\<exists>cfg bat (d0 :: unit rl_env_ext disp) tr w.
     Load (\<lambda>_. Inr []) (\<lambda>_ :: unit. Inr (0, [])) (\<lambda>um data c. Inr c) (\<lambda>_. []) [] = Inr cfg \<and>
     batcher_New (Config.Batcher cfg) = Ret bat \<and>
     dispatcher_New (Dispatcher cfg) (deployed_chain (RateLimit cfg)) bat demo_queue demo_full_env = Ret d0 \<and>
     cruns demo_fmt demo_registry demo_ingestor demo_reqs (conc_init demo_ingestor d0 ([demo_message ''1''], {})) tr w \<and>
     shutdown_returns (k_disp w)"
proof -
  let ?cfg = "apply_env (\<lambda>_. []) defaults"
  have load: "Load (\<lambda>_. Inr []) (\<lambda>_ :: unit. Inr (0, [])) (\<lambda>um data c. Inr c) (\<lambda>_. []) [] = Inr ?cfg"
    using defaults_ok [of "\<lambda>_. []"] by (simp add: Load_def validated_def validate_None [THEN iffD2])
  have fits: "chan_fits payload_bytes (BufferSize (Dispatcher ?cfg))"
    by (simp add: chan_fits_def payload_bytes_def frame_simps) (simp add: defaults_def)
  have "metric dlqEnqueued demo_full_env = Some 0" by (simp add: metric_def new_provider_def)
  note loaded = loaded_configuration_runs [where 'r = "XMessage list \<times> bytes set", OF load this fits, of demo_queue]
  from loaded show ?thesis
  proof (elim exE conjE, goal_cases)
    case (1 bat d0)
    obtain tr w where "cruns demo_fmt demo_registry demo_ingestor demo_reqs (conc_init demo_ingestor d0 ([demo_message ''1''], {})) ([] @ tr) w"
        "shutdown_returns (k_disp w)"
      using 1(4) [rule_format, OF cruns_nil [where fe = demo_fmt and reg = demo_registry and si = demo_ingestor and reqs = demo_reqs
          and w = "conc_init demo_ingestor d0 ([demo_message ''1''], {})"], THEN conjunct1] by (elim exE conjE) (rule that)
    then have run: "cruns demo_fmt demo_registry demo_ingestor demo_reqs (conc_init demo_ingestor d0 ([demo_message ''1''], {})) tr w"
        "shutdown_returns (k_disp w)" by simp_all
    show ?case
      by (rule exI [of _ ?cfg], rule exI [of _ bat], rule exI [of _ d0], rule exI [of _ tr], rule exI [of _ w])
        (intro conjI, rule load, rule 1(1), rule 1(2), rule run(1), rule run(2))
  qed
qed

end
